theory Spec2Isabelle
  imports Complex_Main "HOL-Library.Multiset"
begin

text \<open>
  A shallow embedding of the trace-generation engine of the Algorithmic GlassBox
  Simulator: \<^verbatim>\<open>src/core/structures/MinHeap.ts\<close>, \<^verbatim>\<open>src/core/grid.ts\<close>,
  \<^verbatim>\<open>src/core/heuristics.ts\<close> and \<^verbatim>\<open>src/core/engine/buildTrace.ts\<close>.

  Conventions. A JavaScript \<^verbatim>\<open>number\<close> is modelled as a \<^typ>\<open>real\<close> (or a
  \<^typ>\<open>nat\<close>/\<^typ>\<open>int\<close> where the code only counts): arithmetic is exact, and
  \<^verbatim>\<open>NaN\<close>, infinities and rounding are outside the model. An optional field is an
  \<^typ>\<open>'a option\<close>. A \<^verbatim>\<open>Set<string>\<close> is a \<^typ>\<open>string set\<close>, a
  \<^verbatim>\<open>Map<string, T>\<close> a map \<^typ>\<open>string \<rightharpoonup> 'a\<close>, an array a list in array order.
  Record fields carry a short prefix where the plain name is taken in HOL.
\<close>

section \<open>The data model (types.ts)\<close>

datatype AlgorithmId = bfs | dfs | dijkstra | astar

datatype HeuristicId = manhattan | euclidean

datatype EnvironmentId = id_grid | id_city | id_campus | id_dungeon | id_custom | id_realworld

datatype EnvironmentKind = kind_grid | kind_graph | kind_map

datatype Coord = Coord (cx: real) (cy: real)

record Grid =
  width :: int
  height :: int
  walls :: "string set"

record GraphNode =
  node_id :: string
  node_at :: Coord
  label :: "string option"
  explanation :: "string option"

record GraphEdge =
  e_from :: string
  e_to :: string
  e_cost :: real

record Graph =
  directed :: bool
  nodes :: "GraphNode list"
  edges :: "GraphEdge list"

text \<open>
  \<^verbatim>\<open>grid\<close> and \<^verbatim>\<open>graph\<close> are optional in the source's type; \<^verbatim>\<open>buildTrace\<close> reads them
  as \<^verbatim>\<open>env.grid!\<close> and \<^verbatim>\<open>env.graph!\<close>, that is, it takes the one its \<^verbatim>\<open>kind\<close> names as
  present. The model has both fields, and the engine reads only that one.
\<close>

record Environment =
  env_id :: EnvironmentId
  env_name :: string
  kind :: EnvironmentKind
  grid :: Grid
  graph :: Graph
  defaultStartKey :: string
  defaultGoalKey :: string
  explanationPoints :: "(Coord \<times> string) list option"

record RunOptions =
  environmentId :: EnvironmentId
  algorithm :: AlgorithmId
  heuristic :: HeuristicId
  heuristicWeight :: real
  diagonal :: bool

datatype FrontierKind = queue | stack | minheap

record FrontierItem =
  fi_key :: string
  fi_at :: Coord
  fi_g :: "real option"
  fi_h :: "real option"
  fi_f :: "real option"
  fi_depth :: "nat option"
  fi_priority :: "real option"

record RelaxationEvent =
  rx_from :: string
  rx_to :: string
  oldG :: "real option"
  newG :: real
  improved :: bool

datatype Metric = metric_g | metric_f | metric_depth

datatype SelectionReason = Fifo | Lifo | Min Metric real | Goal

text \<open>
  A metric value: a number, or the \<^verbatim>\<open>Number.POSITIVE_INFINITY\<close> that \<^verbatim>\<open>compareWhyNot\<close>
  puts for a missing \<^verbatim>\<open>g\<close> or \<^verbatim>\<open>f\<close>. The order is that of the numbers, with
  \<open>Infinity\<close> on top and equal to itself, which is how \<^verbatim>\<open>a - b\<close> sorts them.
\<close>

datatype MetricValue = Num real | Infinity

instantiation MetricValue :: linorder
begin

fun less_eq_MetricValue :: "MetricValue \<Rightarrow> MetricValue \<Rightarrow> bool" where
  "less_eq_MetricValue (Num a) (Num b) = (a \<le> b)"
| "less_eq_MetricValue (Num a) Infinity = True"
| "less_eq_MetricValue Infinity (Num b) = False"
| "less_eq_MetricValue Infinity Infinity = True"

definition less_MetricValue :: "MetricValue \<Rightarrow> MetricValue \<Rightarrow> bool" where
  "less_MetricValue a b = (a \<le> b \<and> \<not> b \<le> a)"

instance
proof
  fix a b c :: MetricValue
  show "(a < b) = (a \<le> b \<and> \<not> b \<le> a)" by (simp add: less_MetricValue_def)
  show "a \<le> a" by (cases a) auto
  show "a \<le> b \<Longrightarrow> b \<le> c \<Longrightarrow> a \<le> c" by (cases a; cases b; cases c) auto
  show "a \<le> b \<Longrightarrow> b \<le> a \<Longrightarrow> a = b" by (cases a; cases b) auto
  show "a \<le> b \<or> b \<le> a" by (cases a; cases b) auto
qed

end

record RejectionReason =
  candidate :: FrontierItem
  chosen :: FrontierItem
  metric :: Metric
  candidateValue :: MetricValue
  chosenValue :: MetricValue

datatype Phase = Init | Select | Expand | Relax | Enqueue | Found | Exhausted

record StepSnapshot =
  s_index :: nat
  s_phase :: Phase
  s_currentKey :: "string option"
  s_current :: "Coord option"
  s_frontierKind :: FrontierKind
  s_frontier :: "FrontierItem list"
  s_selected :: "FrontierItem option"
  s_visited :: "string set"
  s_closed :: "string set"
  s_cameFrom :: "string \<rightharpoonup> string"
  s_gScore :: "string \<rightharpoonup> real"
  s_relaxation :: "RelaxationEvent option"
  s_selectionReason :: "SelectionReason option"
  s_whyNot :: "RejectionReason list option"
  s_path :: "Coord list option"
  s_warnings :: "string list option"

record Metrics =
  explored :: nat
  relaxations :: nat
  peakFrontier :: nat
  peakClosed :: nat
  runtimeSteps :: nat

record Trace =
  t_options :: RunOptions
  t_steps :: "StepSnapshot list"
  t_found :: bool
  t_path :: "Coord list"
  t_metrics :: Metrics

section \<open>The priority queue (MinHeap.ts)\<close>

record 'a HeapNode =
  hn_id :: string
  hn_value :: 'a
  hn_priority :: real

text \<open>\<^verbatim>\<open>bubbleUp(i)\<close>: the loop \<^verbatim>\<open>while (i > 0)\<close> with its \<^verbatim>\<open>break\<close>.\<close>

function bubbleUp :: "'a HeapNode list \<Rightarrow> nat \<Rightarrow> 'a HeapNode list" where
  "bubbleUp arr i =
     (if 0 < i then
        (let p = (i - 1) div 2 in
         if hn_priority (arr ! p) \<le> hn_priority (arr ! i) then arr
         else bubbleUp (arr[p := arr ! i, i := arr ! p]) p)
      else arr)"
  by pat_completeness auto
termination
  by (relation "measure (\<lambda>(arr, i). i)") auto

text \<open>The index \<^verbatim>\<open>smallest\<close> that one round of \<^verbatim>\<open>bubbleDown\<close> computes.\<close>

definition smallestOf :: "'a HeapNode list \<Rightarrow> nat \<Rightarrow> nat" where
  "smallestOf arr i =
     (let n = length arr;
          l = i * 2 + 1;
          r = i * 2 + 2;
          smallest = i;
          smallest = (if l < n \<and> hn_priority (arr ! l) < hn_priority (arr ! smallest) then l else smallest);
          smallest = (if r < n \<and> hn_priority (arr ! r) < hn_priority (arr ! smallest) then r else smallest)
      in smallest)"

lemma smallestOf_cases:
  "smallestOf arr i = i \<or> (smallestOf arr i = i * 2 + 1 \<and> i * 2 + 1 < length arr)
     \<or> (smallestOf arr i = i * 2 + 2 \<and> i * 2 + 2 < length arr)"
  by (auto simp: smallestOf_def Let_def)

function bubbleDown :: "'a HeapNode list \<Rightarrow> nat \<Rightarrow> 'a HeapNode list" where
  "bubbleDown arr i =
     (let smallest = smallestOf arr i
      in if smallest = i then arr
         else bubbleDown (arr[i := arr ! smallest, smallest := arr ! i]) smallest)"
  by pat_completeness auto
termination
proof (relation "measure (\<lambda>(arr, i). length arr - i)", goal_cases)
  case 1
  show ?case by simp
next
  case (2 arr i sm)
  then show ?case using smallestOf_cases[of arr i] by auto
qed

text \<open>\<^verbatim>\<open>push\<close> and \<^verbatim>\<open>pop\<close> on the contents of \<^verbatim>\<open>this.arr\<close>.\<close>

definition push :: "'a HeapNode list \<Rightarrow> 'a HeapNode \<Rightarrow> 'a HeapNode list" where
  "push arr node = bubbleUp (arr @ [node]) (length (arr @ [node]) - 1)"

definition pop :: "'a HeapNode list \<Rightarrow> 'a HeapNode option \<times> 'a HeapNode list" where
  "pop arr =
     (if length arr = 0 then (None, arr)
      else (let top = arr ! 0;
                last = last arr;
                arr1 = butlast arr
            in if 0 < length arr1 then (Some top, bubbleDown (arr1[0 := last]) 0)
               else (Some top, arr1)))"

declare bubbleUp.simps [simp del] bubbleDown.simps [simp del]

text \<open>
  The class itself: a \<^verbatim>\<open>MinHeap\<close> object owns one array, \<^verbatim>\<open>this.arr\<close>. Arrays live in
  a store, at addresses; \<open>this\<close> is the address of the object's array, \<open>fresh\<close> the next
  unused address. \<^verbatim>\<open>toArray\<close> allocates (\<^verbatim>\<open>[...this.arr]\<close>).
\<close>

record 'a HeapStore =
  objs :: "nat \<Rightarrow> 'a HeapNode list"
  fresh :: nat

definition MinHeap_new :: "'a HeapStore \<Rightarrow> nat \<times> 'a HeapStore" where
  "MinHeap_new st = (fresh st, st\<lparr>objs := (objs st)(fresh st := []), fresh := Suc (fresh st)\<rparr>)"

definition MinHeap_size :: "'a HeapStore \<Rightarrow> nat \<Rightarrow> nat" where
  "MinHeap_size st this = length (objs st this)"

definition MinHeap_toArray :: "'a HeapStore \<Rightarrow> nat \<Rightarrow> nat \<times> 'a HeapStore" where
  "MinHeap_toArray st this =
     (fresh st, st\<lparr>objs := (objs st)(fresh st := objs st this), fresh := Suc (fresh st)\<rparr>)"

definition MinHeap_peek :: "'a HeapStore \<Rightarrow> nat \<Rightarrow> 'a HeapNode option" where
  "MinHeap_peek st this = (case objs st this of [] \<Rightarrow> None | n # _ \<Rightarrow> Some n)"

definition MinHeap_push :: "'a HeapStore \<Rightarrow> nat \<Rightarrow> 'a HeapNode \<Rightarrow> 'a HeapStore" where
  "MinHeap_push st this node = st\<lparr>objs := (objs st)(this := push (objs st this) node)\<rparr>"

definition MinHeap_pop :: "'a HeapStore \<Rightarrow> nat \<Rightarrow> 'a HeapNode option \<times> 'a HeapStore" where
  "MinHeap_pop st this =
     (fst (pop (objs st this)), st\<lparr>objs := (objs st)(this := snd (pop (objs st this)))\<rparr>)"

text \<open>A client's sequence of calls on one heap object.\<close>

datatype 'a HeapOp = Push "'a HeapNode" | Pop

fun runOps :: "'a HeapStore \<Rightarrow> nat \<Rightarrow> 'a HeapOp list \<Rightarrow> 'a HeapStore" where
  "runOps st this [] = st"
| "runOps st this (Push node # ops) = runOps (MinHeap_push st this node) this ops"
| "runOps st this (Pop # ops) = runOps (snd (MinHeap_pop st this)) this ops"

subsection \<open>The heap order\<close>

definition heap_ok :: "'a HeapNode list \<Rightarrow> bool" where
  "heap_ok arr = (\<forall>j. 0 < j \<and> j < length arr \<longrightarrow>
       hn_priority (arr ! ((j - 1) div 2)) \<le> hn_priority (arr ! j))"

lemma length_bubbleUp [simp]: "length (bubbleUp arr i) = length arr"
  by (induction arr i rule: bubbleUp.induct) (subst bubbleUp.simps, simp add: Let_def)

lemma mset_bubbleUp [simp]: "i < length arr \<Longrightarrow> mset (bubbleUp arr i) = mset arr"
proof (induction arr i rule: bubbleUp.induct)
  case (1 arr i)
  show ?case
  proof (cases "0 < i \<and> \<not> hn_priority (arr ! ((i - 1) div 2)) \<le> hn_priority (arr ! i)")
    case True
    let ?p = "(i - 1) div 2"
    from True "1.prems" have p: "?p < length arr" by auto
    have "mset (bubbleUp (arr[?p := arr ! i, i := arr ! ?p]) ?p) = mset (arr[?p := arr ! i, i := arr ! ?p])"
      using "1.IH"[of ?p] True p by simp
    also have "\<dots> = mset arr" using p "1.prems" by (simp add: mset_swap)
    finally show ?thesis using True by (subst bubbleUp.simps) (simp add: Let_def)
  next
    case False
    then show ?thesis by (subst bubbleUp.simps) (auto simp: Let_def)
  qed
qed

lemma length_bubbleDown [simp]: "length (bubbleDown arr i) = length arr"
  by (induction arr i rule: bubbleDown.induct) (subst bubbleDown.simps, simp add: Let_def)

lemma mset_bubbleDown [simp]: "i < length arr \<Longrightarrow> mset (bubbleDown arr i) = mset arr"
proof (induction arr i rule: bubbleDown.induct)
  case (1 arr i)
  let ?sm = "smallestOf arr i"
  have sm: "?sm < length arr" using "1.prems" smallestOf_cases[of arr i] by auto
  show ?case
  proof (cases "?sm = i")
    case True
    then show ?thesis by (subst bubbleDown.simps) (simp add: Let_def)
  next
    case False
    have "mset (bubbleDown (arr[i := arr ! ?sm, ?sm := arr ! i]) ?sm) = mset (arr[i := arr ! ?sm, ?sm := arr ! i])"
      using "1.IH"[OF refl False] sm by simp
    also have "\<dots> = mset arr" using sm "1.prems" by (simp add: mset_swap)
    finally show ?thesis using False
      by (subst bubbleDown.simps) (simp add: Let_def)
  qed
qed


definition up_ok :: "'a HeapNode list \<Rightarrow> nat \<Rightarrow> bool" where
  "up_ok arr i = ((\<forall>j. 0 < j \<and> j < length arr \<and> j \<noteq> i \<longrightarrow>
                      hn_priority (arr ! ((j - 1) div 2)) \<le> hn_priority (arr ! j)) \<and>
                  (\<forall>j. 0 < j \<and> j < length arr \<and> (j - 1) div 2 = i \<and> 0 < i \<longrightarrow>
                      hn_priority (arr ! ((i - 1) div 2)) \<le> hn_priority (arr ! j)))"

definition down_ok :: "'a HeapNode list \<Rightarrow> nat \<Rightarrow> bool" where
  "down_ok arr i = ((\<forall>j. 0 < j \<and> j < length arr \<and> (j - 1) div 2 \<noteq> i \<longrightarrow>
                      hn_priority (arr ! ((j - 1) div 2)) \<le> hn_priority (arr ! j)) \<and>
                  (\<forall>j. 0 < j \<and> j < length arr \<and> (j - 1) div 2 = i \<and> 0 < i \<longrightarrow>
                      hn_priority (arr ! ((i - 1) div 2)) \<le> hn_priority (arr ! j)))"

lemma up_ok_swap:
  assumes "up_ok arr i" "0 < i" "i < length arr"
    "\<not> hn_priority (arr ! ((i - 1) div 2)) \<le> hn_priority (arr ! i)"
  shows "up_ok (arr[(i - 1) div 2 := arr ! i, i := arr ! ((i - 1) div 2)]) ((i - 1) div 2)"
proof -
  let ?p = "(i - 1) div 2"
  let ?arr' = "arr[?p := arr ! i, i := arr ! ?p]"
  have pi: "?p < i" using assms(2) by auto
  have A: "\<And>j. 0 < j \<Longrightarrow> j < length arr \<Longrightarrow> j \<noteq> i \<Longrightarrow>
      hn_priority (arr ! ((j - 1) div 2)) \<le> hn_priority (arr ! j)"
    using assms(1) by (auto simp: up_ok_def)
  have B: "\<And>j. 0 < j \<Longrightarrow> j < length arr \<Longrightarrow> (j - 1) div 2 = i \<Longrightarrow>
      hn_priority (arr ! ?p) \<le> hn_priority (arr ! j)"
    using assms(1,2) by (auto simp: up_ok_def)
  have lt: "hn_priority (arr ! i) < hn_priority (arr ! ?p)" using assms(4) by simp
  have nth_p: "?arr' ! ?p = arr ! i" using pi assms(3) by simp
  have nth_i: "?arr' ! i = arr ! ?p" using assms(3) by simp
  have nth_o: "\<And>j. j \<noteq> i \<Longrightarrow> j \<noteq> ?p \<Longrightarrow> ?arr' ! j = arr ! j" by simp
  show ?thesis
    unfolding up_ok_def
  proof (intro conjI allI impI)
    fix j assume j: "0 < j \<and> j < length ?arr' \<and> j \<noteq> ?p"
    then have j': "0 < j" "j < length arr" "j \<noteq> ?p" by auto
    show "hn_priority (?arr' ! ((j - 1) div 2)) \<le> hn_priority (?arr' ! j)"
    proof (cases "j = i")
      case True
      then show ?thesis using nth_p nth_i lt by simp
    next
      case False
      note ji = this
      have pj: "(j - 1) div 2 < j" using j' by auto
      show ?thesis
      proof (cases "(j - 1) div 2 = ?p")
        case True
        then show ?thesis using nth_p nth_o[OF ji j'(3)] A[OF j'(1,2) ji] lt by simp
      next
        case False
        note pp = this
        show ?thesis
        proof (cases "(j - 1) div 2 = i")
          case True
          then show ?thesis using nth_i nth_o[OF ji j'(3)] B[OF j'(1,2) True] by simp
        next
          case False
          then show ?thesis using nth_o[OF ji j'(3)] nth_o[OF False pp] A[OF j'(1,2) ji] by simp
        qed
      qed
    qed
  next
    fix j assume j: "0 < j \<and> j < length ?arr' \<and> (j - 1) div 2 = ?p \<and> 0 < ?p"
    then have j': "0 < j" "j < length arr" "(j - 1) div 2 = ?p" "0 < ?p" by auto
    have ppp: "(?p - 1) div 2 < ?p" using j'(4) by auto
    have pp_ne: "(?p - 1) div 2 \<noteq> i" "(?p - 1) div 2 \<noteq> ?p" using ppp pi by auto
    have pp: "?arr' ! ((?p - 1) div 2) = arr ! ((?p - 1) div 2)" using nth_o[OF pp_ne] .
    have p_le: "hn_priority (arr ! ((?p - 1) div 2)) \<le> hn_priority (arr ! ?p)"
      using A[of ?p] j'(4) pi assms(3) by auto
    have jp: "j \<noteq> ?p" using j' by auto
    show "hn_priority (?arr' ! ((?p - 1) div 2)) \<le> hn_priority (?arr' ! j)"
    proof (cases "j = i")
      case True
      then show ?thesis using pp nth_i p_le by simp
    next
      case False
      then show ?thesis using pp nth_o[OF False jp] p_le A[OF j'(1,2) False] j'(3) by simp
    qed
  qed
qed

lemma heap_ok_bubbleUp: "up_ok arr i \<Longrightarrow> i < length arr \<Longrightarrow> heap_ok (bubbleUp arr i)"
proof (induction arr i rule: bubbleUp.induct)
  case (1 arr i)
  show ?case
  proof (cases "0 < i")
    case False
    then have "bubbleUp arr i = arr" by (subst bubbleUp.simps) simp
    moreover have "heap_ok arr" using "1.prems"(1) False by (auto simp: up_ok_def heap_ok_def)
    ultimately show ?thesis by simp
  next
    case True
    note pos = this
    let ?p = "(i - 1) div 2"
    show ?thesis
    proof (cases "hn_priority (arr ! ?p) \<le> hn_priority (arr ! i)")
      case True
      then have "bubbleUp arr i = arr" by (subst bubbleUp.simps) (simp add: Let_def)
      moreover have "heap_ok arr" unfolding heap_ok_def
      proof (intro allI impI)
        fix j assume "0 < j \<and> j < length arr"
        then show "hn_priority (arr ! ((j - 1) div 2)) \<le> hn_priority (arr ! j)"
          using "1.prems"(1) True by (cases "j = i") (auto simp: up_ok_def)
      qed
      ultimately show ?thesis by simp
    next
      case False
      have eq: "bubbleUp arr i = bubbleUp (arr[?p := arr ! i, i := arr ! ?p]) ?p"
        using pos False by (subst bubbleUp.simps) (simp add: Let_def)
      have "?p < length arr" using pos "1.prems"(2) by auto
      then show ?thesis
        using "1.IH"[OF pos refl False] up_ok_swap[OF "1.prems"(1) pos "1.prems"(2) False] eq
        by simp
    qed
  qed
qed

lemma heap_ok_push: assumes "heap_ok arr" shows "heap_ok (push arr node)"
proof -
  have "up_ok (arr @ [node]) (length arr)"
    unfolding up_ok_def
  proof (intro conjI allI impI)
    fix j assume j: "0 < j \<and> j < length (arr @ [node]) \<and> j \<noteq> length arr"
    then have "j < length arr" by auto
    moreover then have "(j - 1) div 2 < length arr" by auto
    ultimately show "hn_priority ((arr @ [node]) ! ((j - 1) div 2)) \<le> hn_priority ((arr @ [node]) ! j)"
      using assms j by (auto simp: heap_ok_def nth_append)
  next
    fix j assume "0 < j \<and> j < length (arr @ [node]) \<and> (j - 1) div 2 = length arr \<and> 0 < length arr"
    then have False by auto
    then show "hn_priority ((arr @ [node]) ! ((length arr - 1) div 2)) \<le> hn_priority ((arr @ [node]) ! j)" ..
  qed
  then show ?thesis by (simp add: push_def heap_ok_bubbleUp)
qed


lemma smallestOf_le:
  assumes "j < length arr" "0 < j" "(j - 1) div 2 = i"
  shows "hn_priority (arr ! smallestOf arr i) \<le> hn_priority (arr ! j)"
proof -
  have "j = i * 2 + 1 \<or> j = i * 2 + 2" using assms(2,3) by auto
  then show ?thesis using assms(1) by (auto simp: smallestOf_def Let_def)
qed

lemma smallestOf_le_self: "hn_priority (arr ! smallestOf arr i) \<le> hn_priority (arr ! i)"
  by (auto simp: smallestOf_def Let_def)

lemma smallestOf_parent: "smallestOf arr i \<noteq> i \<Longrightarrow> (smallestOf arr i - 1) div 2 = i"
  using smallestOf_cases[of arr i] by auto

lemma down_ok_swap:
  assumes "down_ok arr i" "smallestOf arr i \<noteq> i"
  shows "down_ok (arr[i := arr ! smallestOf arr i, smallestOf arr i := arr ! i]) (smallestOf arr i)"
proof -
  let ?s = "smallestOf arr i"
  let ?arr' = "arr[i := arr ! ?s, ?s := arr ! i]"
  have s_len: "?s < length arr" and s_gt: "i < ?s" and s_par: "(?s - 1) div 2 = i"
    using smallestOf_cases[of arr i] assms(2) by auto
  have i_len: "i < length arr" using s_len s_gt by simp
  have A: "\<And>j. 0 < j \<Longrightarrow> j < length arr \<Longrightarrow> (j - 1) div 2 \<noteq> i \<Longrightarrow>
      hn_priority (arr ! ((j - 1) div 2)) \<le> hn_priority (arr ! j)"
    using assms(1) by (auto simp: down_ok_def)
  have B: "\<And>j. 0 < j \<Longrightarrow> j < length arr \<Longrightarrow> (j - 1) div 2 = i \<Longrightarrow> 0 < i \<Longrightarrow>
      hn_priority (arr ! ((i - 1) div 2)) \<le> hn_priority (arr ! j)"
    using assms(1) by (auto simp: down_ok_def)
  have nth_s: "?arr' ! ?s = arr ! i" using s_len by simp
  have nth_i: "?arr' ! i = arr ! ?s" using i_len s_gt by simp
  have nth_o: "\<And>j. j \<noteq> i \<Longrightarrow> j \<noteq> ?s \<Longrightarrow> ?arr' ! j = arr ! j" by simp
  show ?thesis
    unfolding down_ok_def
  proof (intro conjI allI impI)
    fix j assume j: "0 < j \<and> j < length ?arr' \<and> (j - 1) div 2 \<noteq> ?s"
    then have j': "0 < j" "j < length arr" "(j - 1) div 2 \<noteq> ?s" by auto
    show "hn_priority (?arr' ! ((j - 1) div 2)) \<le> hn_priority (?arr' ! j)"
    proof (cases "j = ?s")
      case True
      then show ?thesis using s_par nth_i nth_s smallestOf_le_self[of arr i] by simp
    next
      case False
      note js = this
      show ?thesis
      proof (cases "j = i")
        case True
        then have ipos: "0 < i" using j'(1) by simp
        have ppi: "(i - 1) div 2 < i" using ipos by auto
        have "?arr' ! ((i - 1) div 2) = arr ! ((i - 1) div 2)"
          using nth_o[of "(i - 1) div 2"] ppi s_gt by simp
        then show ?thesis using True nth_i B[of ?s] s_len s_gt s_par ipos by simp
      next
        case False
        note ji = this
        show ?thesis
        proof (cases "(j - 1) div 2 = i")
          case True
          then show ?thesis
            using nth_i nth_o[OF ji js] smallestOf_le[OF j'(2,1) True] by simp
        next
          case False
          then show ?thesis
            using nth_o[OF ji js] nth_o[OF False j'(3)] A[OF j'(1,2) False] by simp
        qed
      qed
    qed
  next
    fix j assume j: "0 < j \<and> j < length ?arr' \<and> (j - 1) div 2 = ?s \<and> 0 < ?s"
    then have j': "0 < j" "j < length arr" "(j - 1) div 2 = ?s" by auto
    have "?s < j" using j' by auto
    then have ne: "j \<noteq> i" "j \<noteq> ?s" using s_gt by auto
    have "(j - 1) div 2 \<noteq> i" using j'(3) assms(2) by simp
    from A[OF j'(1,2) this] show "hn_priority (?arr' ! ((?s - 1) div 2)) \<le> hn_priority (?arr' ! j)"
      using s_par nth_i nth_o[OF ne] j'(3) by simp
  qed
qed

lemma heap_ok_bubbleDown: "down_ok arr i \<Longrightarrow> heap_ok (bubbleDown arr i)"
proof (induction arr i rule: bubbleDown.induct)
  case (1 arr i)
  show ?case
  proof (cases "smallestOf arr i = i")
    case True
    then have eq: "bubbleDown arr i = arr" by (subst bubbleDown.simps) (simp add: Let_def)
    have "heap_ok arr" unfolding heap_ok_def
    proof (intro allI impI)
      fix j assume j: "0 < j \<and> j < length arr"
      show "hn_priority (arr ! ((j - 1) div 2)) \<le> hn_priority (arr ! j)"
      proof (cases "(j - 1) div 2 = i")
        case True
        then show ?thesis using smallestOf_le[of j arr i] j \<open>smallestOf arr i = i\<close> by simp
      next
        case False
        then show ?thesis using "1.prems" j by (auto simp: down_ok_def)
      qed
    qed
    then show ?thesis using eq by simp
  next
    case False
    have eq: "bubbleDown arr i =
        bubbleDown (arr[i := arr ! smallestOf arr i, smallestOf arr i := arr ! i]) (smallestOf arr i)"
      using False by (subst bubbleDown.simps) (simp add: Let_def)
    show ?thesis using "1.IH"[OF refl False] down_ok_swap[OF "1.prems" False] eq by simp
  qed
qed

lemma heap_ok_root_le: "heap_ok arr \<Longrightarrow> j < length arr \<Longrightarrow> hn_priority (arr ! 0) \<le> hn_priority (arr ! j)"
proof (induction j rule: less_induct)
  case (less j)
  show ?case
  proof (cases "j = 0")
    case True then show ?thesis by simp
  next
    case False
    then have "(j - 1) div 2 < j" by auto
    moreover have "hn_priority (arr ! ((j - 1) div 2)) \<le> hn_priority (arr ! j)"
      using less.prems False by (auto simp: heap_ok_def)
    ultimately show ?thesis using less.IH[of "(j - 1) div 2"] less.prems by auto
  qed
qed

lemma heap_ok_pop: assumes "heap_ok arr" shows "heap_ok (snd (pop arr))"
proof (cases "length arr \<le> 1")
  case True
  then have "arr = [] \<or> (\<exists>a. arr = [a])" by (cases arr) auto
  then have "length (snd (pop arr)) = 0" by (auto simp: pop_def Let_def)
  then show ?thesis by (simp add: heap_ok_def)
next
  case False
  let ?a = "(butlast arr)[0 := last arr]"
  have "down_ok ?a 0" unfolding down_ok_def
  proof (intro conjI allI impI)
    fix j assume j: "0 < j \<and> j < length ?a \<and> (j - 1) div 2 \<noteq> 0"
    then have "j < length arr - 1" "(j - 1) div 2 < length arr - 1" "j \<noteq> 0" "(j - 1) div 2 \<noteq> 0" by auto
    then show "hn_priority (?a ! ((j - 1) div 2)) \<le> hn_priority (?a ! j)"
      using assms by (simp add: nth_butlast heap_ok_def)
  qed simp
  moreover have "heap_ok ([] :: 'a HeapNode list)" by (simp add: heap_ok_def)
  ultimately show ?thesis using False by (simp add: pop_def Let_def heap_ok_bubbleDown)
qed

lemma pop_empty: "pop [] = (None, [])"
  by (simp add: pop_def)

lemma pop_nonempty:
  assumes "arr \<noteq> []"
  shows "fst (pop arr) = Some (arr ! 0) \<and> mset (snd (pop arr)) + {#arr ! 0#} = mset arr"
proof (cases "length arr = 1")
  case True
  then obtain a where "arr = [a]" by (cases arr) auto
  then show ?thesis by (simp add: pop_def)
next
  case False
  with assms obtain a rest where arr: "arr = a # rest" "rest \<noteq> []" by (cases arr) auto
  have "mset ((butlast arr)[0 := last arr]) = mset (butlast rest) + {#last rest#}"
    using arr by simp
  also have "\<dots> = mset rest" using arr(2) by (metis append_butlast_last_id mset.simps(1,2) mset_append add_mset_add_single union_mset_add_mset_right add.right_neutral)
  finally show ?thesis using arr by (simp add: pop_def Let_def)
qed


lemma runOps_frame: "r \<noteq> this \<Longrightarrow> objs (runOps st this ops) r = objs st r"
  by (induction st this ops rule: runOps.induct) (auto simp: MinHeap_push_def MinHeap_pop_def)

lemma runOps_fresh: "fresh (runOps st this ops) = fresh st"
  by (induction st this ops rule: runOps.induct) (auto simp: MinHeap_push_def MinHeap_pop_def)

lemma runOps_heap_ok: "heap_ok (objs st this) \<Longrightarrow> heap_ok (objs (runOps st this ops) this)"
  by (induction st this ops rule: runOps.induct)
     (auto simp: MinHeap_push_def MinHeap_pop_def heap_ok_push heap_ok_pop)

lemma heap_ok_min:
  assumes "heap_ok arr" "x \<in> set arr"
  shows "hn_priority (arr ! 0) \<le> hn_priority x"
proof -
  from assms(2) obtain j where "j < length arr" "arr ! j = x" by (auto simp: in_set_conv_nth)
  then show ?thesis using heap_ok_root_le[OF assms(1), of j] by simp
qed

section \<open>The rejection analyzer (compareWhyNot)\<close>

definition metricValue :: "Metric \<Rightarrow> FrontierItem \<Rightarrow> MetricValue" where
  "metricValue m it =
     (case m of
        metric_depth \<Rightarrow> (case fi_depth it of Some d \<Rightarrow> Num (real d) | None \<Rightarrow> Num 0)
      | metric_g \<Rightarrow> (case fi_g it of Some v \<Rightarrow> Num v | None \<Rightarrow> Infinity)
      | metric_f \<Rightarrow> (case fi_f it of Some v \<Rightarrow> Num v | None \<Rightarrow> Infinity))"

text \<open>
  \<^verbatim>\<open>.sort((a, b) => a.candidateValue - b.candidateValue)\<close> is a stable sort by the value;
  \<^const>\<open>sort_key\<close> is the stable insertion sort.
\<close>

definition compareWhyNot :: "FrontierItem list \<Rightarrow> FrontierItem \<Rightarrow> Metric \<Rightarrow> RejectionReason list" where
  "compareWhyNot frontier chosenItem m =
     (let chosenV = metricValue m chosenItem;
          candidates =
            filter (\<lambda>c. snd c \<noteq> chosenV)
              (take 4
                (sort_key snd
                  (map (\<lambda>cand. (cand, metricValue m cand))
                    (filter (\<lambda>x. fi_key x \<noteq> fi_key chosenItem) frontier))))
      in map (\<lambda>c. \<lparr>candidate = fst c, chosen = chosenItem, metric = m,
                    candidateValue = snd c, chosenValue = chosenV\<rparr>) candidates)"

section \<open>Grid keys (grid.ts)\<close>

text \<open>
  A grid key is \<^verbatim>\<open>`${x},${y}`\<close>. The model covers keys whose two parts are decimal
  integers, the keys that \<^verbatim>\<open>buildTrace\<close> itself makes: \<open>showNum\<close> prints an integer as
  the template literal does, \<open>NumberOf\<close> reads one as \<^verbatim>\<open>Number\<close> does. On any other text,
  where \<^verbatim>\<open>Number\<close> yields \<^verbatim>\<open>NaN\<close> or a fraction, \<open>NumberOf\<close> is \<open>0\<close>: such keys are
  outside the model.
\<close>

definition digitChar :: "nat \<Rightarrow> char" where
  "digitChar d = char_of (48 + d)"

definition isDigit :: "char \<Rightarrow> bool" where
  "isDigit c = (48 \<le> (of_char c :: nat) \<and> (of_char c :: nat) \<le> 57)"

definition digitVal :: "char \<Rightarrow> nat" where
  "digitVal c = of_char c - 48"

function showNat :: "nat \<Rightarrow> string" where
  "showNat n = (if n < 10 then [digitChar n] else showNat (n div 10) @ [digitChar (n mod 10)])"
  by pat_completeness auto
termination
  by (relation "measure (\<lambda>n. n)") auto

declare showNat.simps [simp del]

definition showNum :: "int \<Rightarrow> string" where
  "showNum i = (if i < 0 then CHR ''-'' # showNat (nat (- i)) else showNat (nat i))"

definition natOfDigits :: "string \<Rightarrow> nat" where
  "natOfDigits ds = foldl (\<lambda>a c. 10 * a + digitVal c) 0 ds"

definition NumberOf :: "string \<Rightarrow> int" where
  "NumberOf s =
     (case s of
        [] \<Rightarrow> 0
      | c # ds \<Rightarrow>
          if c = CHR ''-'' then (if ds \<noteq> [] \<and> list_all isDigit ds then - int (natOfDigits ds) else 0)
          else (if list_all isDigit s then int (natOfDigits s) else 0))"

text \<open>\<^verbatim>\<open>coordOf\<close>: the first two parts of \<^verbatim>\<open>key.split(",")\<close>, as numbers.\<close>

definition coordOfInt :: "string \<Rightarrow> int \<times> int" where
  "coordOfInt key =
     (let xs = takeWhile (\<lambda>c. c \<noteq> CHR '','') key;
          rest = dropWhile (\<lambda>c. c \<noteq> CHR '','') key;
          ys = (case rest of [] \<Rightarrow> [] | _ # after \<Rightarrow> takeWhile (\<lambda>c. c \<noteq> CHR '','') after)
      in (NumberOf xs, NumberOf ys))"

definition coordOf :: "string \<Rightarrow> Coord" where
  "coordOf key = Coord (of_int (fst (coordOfInt key))) (of_int (snd (coordOfInt key)))"

definition gridKey :: "int \<Rightarrow> int \<Rightarrow> string" where
  "gridKey nx ny = showNum nx @ '','' @ showNum ny"

section \<open>Heuristics (heuristics.ts)\<close>

definition heuristicFn :: "HeuristicId \<Rightarrow> Coord \<Rightarrow> Coord \<Rightarrow> real" where
  "heuristicFn h a b =
     (case h of
        euclidean \<Rightarrow>
          (let dx = cx a - cx b; dy = cy a - cy b in sqrt (dx * dx + dy * dy))
      | manhattan \<Rightarrow> \<bar>cx a - cx b\<bar> + \<bar>cy a - cy b\<bar>)"

section \<open>The environment adapter (buildTrace.ts, lines 96 to 142)\<close>

record Neighbor =
  nb_key :: string
  nb_cost :: real

datatype AdapterKind = adapter_grid | adapter_graph

datatype CostMode = cost_unit | cost_weighted

record Adapter =
  a_kind :: AdapterKind
  coordOfKey :: "string \<Rightarrow> Coord"
  neighbors :: "string \<Rightarrow> Neighbor list"
  edgeCostMode :: CostMode

text \<open>Grid mode: the loop over the four candidates, with its two \<^verbatim>\<open>continue\<close>s.\<close>

definition gridCandidate :: "Grid \<Rightarrow> int \<times> int \<Rightarrow> Neighbor list" where
  "gridCandidate gr nb =
     (if fst nb < 0 \<or> snd nb < 0 \<or> fst nb \<ge> width gr \<or> snd nb \<ge> height gr then []
      else (let nbKey = gridKey (fst nb) (snd nb)
            in if nbKey \<in> walls gr then [] else [\<lparr>nb_key = nbKey, nb_cost = 1\<rparr>]))"

definition gridNeighbors :: "Grid \<Rightarrow> string \<Rightarrow> Neighbor list" where
  "gridNeighbors gr key =
     (let c = coordOfInt key;
          candidates = [(fst c + 1, snd c), (fst c - 1, snd c), (fst c, snd c + 1), (fst c, snd c - 1)]
      in concat (map (gridCandidate gr) candidates))"

text \<open>Graph mode: \<^verbatim>\<open>nodeAt\<close> (a later node of the same id wins) and the adjacency map.\<close>

definition nodeAt :: "Graph \<Rightarrow> string \<rightharpoonup> Coord" where
  "nodeAt g = foldl (\<lambda>m n. m(node_id n \<mapsto> node_at n)) Map.empty (nodes g)"

definition adjGet :: "(string \<rightharpoonup> Neighbor list) \<Rightarrow> string \<Rightarrow> Neighbor list" where
  "adjGet adj k = (case adj k of Some arr \<Rightarrow> arr | None \<Rightarrow> [])"

definition addEdge :: "bool \<Rightarrow> (string \<rightharpoonup> Neighbor list) \<Rightarrow> GraphEdge \<Rightarrow> (string \<rightharpoonup> Neighbor list)" where
  "addEdge dir adj e =
     (let adj1 = adj(e_from e \<mapsto> adjGet adj (e_from e) @ [\<lparr>nb_key = e_to e, nb_cost = e_cost e\<rparr>])
      in if \<not> dir
         then adj1(e_to e \<mapsto> adjGet adj1 (e_to e) @ [\<lparr>nb_key = e_from e, nb_cost = e_cost e\<rparr>])
         else adj1)"

definition adjacency :: "Graph \<Rightarrow> string \<rightharpoonup> Neighbor list" where
  "adjacency g = foldl (addEdge (directed g)) Map.empty (edges g)"

definition adapterOf :: "Environment \<Rightarrow> Adapter" where
  "adapterOf env =
     (if kind env = kind_grid then
        \<lparr>a_kind = adapter_grid, coordOfKey = coordOf,
         neighbors = gridNeighbors (grid env), edgeCostMode = cost_unit\<rparr>
      else
        \<lparr>a_kind = adapter_graph,
         coordOfKey = (\<lambda>k. case nodeAt (graph env) k of Some c \<Rightarrow> c | None \<Rightarrow> Coord 0 0),
         neighbors = adjGet (adjacency (graph env)), edgeCostMode = cost_weighted\<rparr>)"

definition sizeBasisOf :: "Environment \<Rightarrow> int" where
  "sizeBasisOf env =
     (if kind env = kind_grid then width (grid env) * height (grid env)
      else int (length (nodes (graph env))))"

section \<open>The trace engine (buildTrace.ts)\<close>

fun frontierKindFor :: "AlgorithmId \<Rightarrow> FrontierKind" where
  "frontierKindFor bfs = queue"
| "frontierKindFor dfs = stack"
| "frontierKindFor dijkstra = minheap"
| "frontierKindFor astar = minheap"

definition makeItem ::
  "Coord \<Rightarrow> string \<Rightarrow> AlgorithmId \<Rightarrow> real \<Rightarrow> real \<Rightarrow> nat \<Rightarrow> real \<Rightarrow> FrontierItem" where
  "makeItem at_c key alg g h depth w =
     (if alg = bfs \<or> alg = dfs then
        \<lparr>fi_key = key, fi_at = at_c, fi_g = None, fi_h = None, fi_f = None,
         fi_depth = Some depth, fi_priority = None\<rparr>
      else if alg = dijkstra then
        \<lparr>fi_key = key, fi_at = at_c, fi_g = Some g, fi_h = None, fi_f = None,
         fi_depth = None, fi_priority = Some g\<rparr>
      else (let f = g + w * h in
        \<lparr>fi_key = key, fi_at = at_c, fi_g = Some g, fi_h = Some h, fi_f = Some f,
         fi_depth = None, fi_priority = Some f\<rparr>))"

subsection \<open>Path reconstruction\<close>

text \<open>
  The loop \<^verbatim>\<open>while (cur !== startK)\<close> of \<^verbatim>\<open>reconstructPathCoords\<close>, which follows the
  parent links and stops at a missing or empty (\<^verbatim>\<open>!prev\<close>) parent. On a cyclic map it
  does not return: the value is \<open>None\<close>.
\<close>

partial_function (option) walkBack ::
  "(string \<rightharpoonup> string) \<Rightarrow> string \<Rightarrow> string \<Rightarrow> string list \<Rightarrow> string list option" where
  "walkBack cameFromMap startK cur out =
     (if cur \<noteq> startK then
        (case cameFromMap cur of
           None \<Rightarrow> Some out
         | Some prev \<Rightarrow>
             if prev = [] then Some out
             else walkBack cameFromMap startK prev (out @ [prev]))
      else Some out)"

declare walkBack.simps [code]

definition reconstructPathCoords ::
  "Adapter \<Rightarrow> (string \<rightharpoonup> string) \<Rightarrow> string \<Rightarrow> string \<Rightarrow> Coord list option" where
  "reconstructPathCoords a cameFromMap startK goalK =
     (if startK = goalK then Some [coordOfKey a startK]
      else if cameFromMap goalK = None then Some []
      else (case walkBack cameFromMap startK goalK [goalK] of
              None \<Rightarrow> None
            | Some out \<Rightarrow> Some (map (coordOfKey a) (rev out))))"

subsection \<open>The run: what the closures of one call share\<close>

text \<open>
  \<open>Run\<close> holds what one call of \<^verbatim>\<open>buildTrace\<close> fixes before its loop: the adapter, whether
  \<^verbatim>\<open>env.kind === "grid"\<close>, \<^verbatim>\<open>sizeBasis\<close>, the two keys and the options. \<open>Locals\<close> holds
  the variables the loop changes.
\<close>

record Run =
  r_adapter :: Adapter
  r_isGrid :: bool
  r_sizeBasis :: int
  r_startKey :: string
  r_goalKey :: string
  r_options :: RunOptions

record Locals =
  v_visited :: "string set"
  v_closed :: "string set"
  v_cameFrom :: "string \<rightharpoonup> string"
  v_gScore :: "string \<rightharpoonup> real"
  v_steps :: "StepSnapshot list"
  v_relaxations :: nat
  v_peakFrontier :: nat
  v_peakClosed :: nat
  v_queue :: "FrontierItem list"
  v_stack :: "FrontierItem list"
  v_heap :: "FrontierItem HeapNode list"

definition r_alg :: "Run \<Rightarrow> AlgorithmId" where
  "r_alg r = algorithm (r_options r)"

definition r_fk :: "Run \<Rightarrow> FrontierKind" where
  "r_fk r = frontierKindFor (algorithm (r_options r))"

definition frontierToArray :: "FrontierKind \<Rightarrow> Locals \<Rightarrow> FrontierItem list" where
  "frontierToArray fk v =
     (if fk = queue then v_queue v
      else if fk = stack then v_stack v
      else map hn_value (v_heap v))"

text \<open>The argument of \<^verbatim>\<open>pushStep\<close>: the fields a call site gives.\<close>

record StepPartial =
  p_phase :: Phase
  p_currentKey :: "string option"
  p_current :: "Coord option"
  p_selected :: "FrontierItem option"
  p_selectionReason :: "SelectionReason option"
  p_whyNot :: "RejectionReason list option"
  p_relaxation :: "RelaxationEvent option"
  p_path :: "Coord list option"
  p_warnings :: "string list option"

definition partialOf :: "Phase \<Rightarrow> string option \<Rightarrow> StepPartial" where
  "partialOf ph ck =
     \<lparr>p_phase = ph, p_currentKey = ck, p_current = None, p_selected = None,
      p_selectionReason = None, p_whyNot = None, p_relaxation = None, p_path = None,
      p_warnings = None\<rparr>"

definition partialAt :: "Phase \<Rightarrow> FrontierItem \<Rightarrow> SelectionReason \<Rightarrow> StepPartial" where
  "partialAt ph sel reason =
     (partialOf ph (Some (fi_key sel)))
       \<lparr>p_current := Some (fi_at sel), p_selected := Some sel, p_selectionReason := Some reason\<rparr>"

definition snapshotOf :: "FrontierKind \<Rightarrow> StepPartial \<Rightarrow> Locals \<Rightarrow> StepSnapshot" where
  "snapshotOf fk p v =
     \<lparr>s_index = length (v_steps v), s_phase = p_phase p,
      s_currentKey = p_currentKey p, s_current = p_current p,
      s_frontierKind = fk, s_frontier = frontierToArray fk v, s_selected = p_selected p,
      s_visited = v_visited v, s_closed = v_closed v,
      s_cameFrom = v_cameFrom v, s_gScore = v_gScore v,
      s_relaxation = p_relaxation p, s_selectionReason = p_selectionReason p,
      s_whyNot = p_whyNot p, s_path = p_path p, s_warnings = p_warnings p\<rparr>"

definition pushStep :: "FrontierKind \<Rightarrow> StepPartial \<Rightarrow> Locals \<Rightarrow> Locals" where
  "pushStep fk p v =
     v\<lparr>v_peakFrontier := max (v_peakFrontier v) (length (frontierToArray fk v)),
       v_peakClosed := max (v_peakClosed v) (card (v_closed v)),
       v_steps := v_steps v @ [snapshotOf fk p v]\<rparr>"

definition maxIterations :: "Run \<Rightarrow> int" where
  "maxIterations r = max 100 (min (r_sizeBasis r * 20) 10000)"

definition capWarning :: string where
  "capWarning = ''Stopped early to avoid an infinite/very long run (iteration cap hit).''"

definition weightedFoundWarning :: string where
  "weightedFoundWarning =
     ''This A* run uses a weighted heuristic (>1), which can be faster but may produce a suboptimal path.''"

text \<open>The dash and the quotation marks of the next three texts are written as UTF-8 bytes.\<close>

definition bfsWarningGrid :: string where
  "bfsWarningGrid = ''BFS frontier is growing large '' @ [CHR 0xE2, CHR 0x80, CHR 0x94]
     @ '' BFS can become memory-intensive on wide open maps.''"

definition bfsWarningGraph :: string where
  "bfsWarningGraph = ''BFS frontier is growing large '' @ [CHR 0xE2, CHR 0x80, CHR 0x94]
     @ '' BFS can become memory-intensive on wide/branchy graphs.''"

definition dfsWarning :: string where
  "dfsWarning = ''DFS is going very deep '' @ [CHR 0xE2, CHR 0x80, CHR 0x94]
     @ '' DFS can get '' @ [CHR 0xE2, CHR 0x80, CHR 0x9C] @ ''stuck'' @ [CHR 0xE2, CHR 0x80, CHR 0x9D]
     @ '' exploring long branches before finding a good route.''"

definition weightedWarning :: string where
  "weightedWarning = ''Weighted A*: heuristic is amplified '' @ [CHR 0xE2, CHR 0x80, CHR 0x94]
     @ '' may trade optimality for speed.''"

definition addWarning :: "string list \<Rightarrow> string \<Rightarrow> string list" where
  "addWarning stepWarnings msg = (if msg \<notin> set stepWarnings then stepWarnings @ [msg] else stepWarnings)"

subsection \<open>Selection\<close>

lemma length_pop: "length (snd (pop arr)) = length arr - 1"
  by (cases arr) (auto simp: pop_def Let_def)

lemma pop_Some_shorter: "pop arr = (Some n, arr') \<Longrightarrow> length arr' < length arr"
  using length_pop[of arr] by (cases arr) (auto simp: pop_def)

text \<open>
  The inner \<^verbatim>\<open>while (true)\<close> of the heap discipline: pop until the heap is empty or an
  entry is neither closed nor stale. It returns the selected item, if any, and the heap
  that is left.
\<close>

function popFresh ::
  "string set \<Rightarrow> (string \<rightharpoonup> real) \<Rightarrow> FrontierItem HeapNode list
     \<Rightarrow> FrontierItem option \<times> FrontierItem HeapNode list" where
  "popFresh cl gs hp =
     (case pop hp of
        (None, hp') \<Rightarrow> (None, hp')
      | (Some n, hp') \<Rightarrow>
          (let popped = hn_value n in
           if fi_key popped \<in> cl then popFresh cl gs hp'
           else (case (gs (fi_key popped), fi_g popped) of
                   (Some bestKnown, Some pg) \<Rightarrow>
                     if pg > bestKnown then popFresh cl gs hp' else (Some popped, hp')
                 | _ \<Rightarrow> (Some popped, hp'))))"
  by pat_completeness auto
termination
  by (relation "measure (\<lambda>(cl, gs, hp). length hp)") (auto dest: pop_Some_shorter[OF sym])

declare popFresh.simps [simp del]

definition selectNext :: "FrontierKind \<Rightarrow> Locals \<Rightarrow> FrontierItem option \<times> Locals" where
  "selectNext fk v =
     (if fk = queue then
        (case v_queue v of [] \<Rightarrow> (None, v) | it # rest \<Rightarrow> (Some it, v\<lparr>v_queue := rest\<rparr>))
      else if fk = stack then
        (if v_stack v = [] then (None, v)
         else (Some (last (v_stack v)), v\<lparr>v_stack := butlast (v_stack v)\<rparr>))
      else (let res = popFresh (v_closed v) (v_gScore v) (v_heap v)
            in (fst res, v\<lparr>v_heap := snd res\<rparr>)))"

definition selectionReasonOf :: "AlgorithmId \<Rightarrow> FrontierItem \<Rightarrow> SelectionReason" where
  "selectionReasonOf alg sel =
     (if alg = bfs then Fifo
      else if alg = dfs then Lifo
      else if alg = dijkstra then Min metric_g (case fi_g sel of Some g \<Rightarrow> g | None \<Rightarrow> 0)
      else Min metric_f
             (case fi_f sel of Some f \<Rightarrow> f
              | None \<Rightarrow> (case fi_priority sel of Some p \<Rightarrow> p | None \<Rightarrow> 0)))"

subsection \<open>One neighbour\<close>

text \<open>The body of \<^verbatim>\<open>for (const nb of neighborList)\<close>.\<close>

definition visitNeighbor ::
  "Run \<Rightarrow> FrontierItem \<Rightarrow> SelectionReason \<Rightarrow> real \<Rightarrow> nat \<Rightarrow> Locals \<Rightarrow> Neighbor \<Rightarrow> Locals" where
  "visitNeighbor r sel reason curG curDepth v nb =
     (let nbKey = nb_key nb; alg = r_alg r; fk = r_fk r in
      if nbKey \<in> v_closed v then v
      else
       (let nbCoord = coordOfKey (r_adapter r) nbKey;
            stepCost = (if alg = bfs \<or> alg = dfs then 1
                        else if edgeCostMode (r_adapter r) = cost_weighted then nb_cost nb
                        else 1)
        in
        if alg = bfs \<or> alg = dfs then
          (if nbKey \<in> v_visited v then v
           else
            (let v1 = v\<lparr>v_visited := insert nbKey (v_visited v),
                        v_cameFrom := (v_cameFrom v)(nbKey \<mapsto> fi_key sel)\<rparr>;
                 nbItem = makeItem nbCoord nbKey alg (curG + stepCost) 0 (curDepth + 1)
                            (heuristicWeight (r_options r));
                 v2 = pushStep fk
                        ((partialAt Enqueue sel reason)
                           \<lparr>p_relaxation := Some \<lparr>rx_from = fi_key sel, rx_to = nbKey, oldG = None,
                                                  newG = curG + stepCost, improved = True\<rparr>\<rparr>) v1;
                 v3 = (if fk = queue then v2\<lparr>v_queue := v_queue v2 @ [nbItem]\<rparr>
                       else v2\<lparr>v_stack := v_stack v2 @ [nbItem]\<rparr>)
             in pushStep fk (partialAt Enqueue sel reason) v3))
        else
          (let tentativeG = curG + stepCost;
               old = v_gScore v nbKey;
               isImproved = (case old of None \<Rightarrow> True | Some og \<Rightarrow> tentativeG < og)
           in
           if \<not> isImproved then v
           else
            (let v1 = v\<lparr>v_cameFrom := (v_cameFrom v)(nbKey \<mapsto> fi_key sel),
                        v_gScore := (v_gScore v)(nbKey \<mapsto> tentativeG),
                        v_visited := insert nbKey (v_visited v),
                        v_relaxations := v_relaxations v + 1\<rparr>;
                 h = (if alg = astar
                      then heuristicFn (heuristic (r_options r)) nbCoord
                             (coordOfKey (r_adapter r) (r_goalKey r))
                      else 0);
                 nbItem = makeItem nbCoord nbKey alg tentativeG h (curDepth + 1)
                            (heuristicWeight (r_options r));
                 v2 = pushStep fk
                        ((partialAt Relax sel reason)
                           \<lparr>p_relaxation := Some \<lparr>rx_from = fi_key sel, rx_to = nbKey, oldG = old,
                                                  newG = tentativeG, improved = True\<rparr>\<rparr>) v1;
                 v3 = v2\<lparr>v_heap := push (v_heap v2)
                            \<lparr>hn_id = nbKey, hn_value = nbItem,
                             hn_priority = (case fi_priority nbItem of Some p \<Rightarrow> p
                                            | None \<Rightarrow> tentativeG)\<rparr>\<rparr>
             in pushStep fk (partialAt Enqueue sel reason) v3))))"

subsection \<open>One iteration of the main loop\<close>

definition expandWarnings :: "Run \<Rightarrow> FrontierItem \<Rightarrow> Locals \<Rightarrow> string list" where
  "expandWarnings r sel v =
     (let frontierSize = length (frontierToArray (r_fk r) v);
          totalNodes = r_sizeBasis r;
          w0 = [];
          w1 = (if r_alg r = bfs \<and> real frontierSize > of_int totalNodes * (35 / 100)
                then addWarning w0 (if r_isGrid r then bfsWarningGrid else bfsWarningGraph)
                else w0);
          w2 = (if r_alg r = dfs
                     \<and> real (case fi_depth sel of Some d \<Rightarrow> d | None \<Rightarrow> 0)
                         > of_int totalNodes * (35 / 100)
                then addWarning w1 dfsWarning else w1);
          w3 = (if r_alg r = astar \<and> heuristicWeight (r_options r) > 1
                then addWarning w2 weightedWarning else w2)
      in w3)"

text \<open>
  How an iteration ends: \<^verbatim>\<open>continue\<close> (or the end of the body), \<^verbatim>\<open>break\<close>, or no end
  at all (the path reconstruction does not return).
\<close>

datatype Flow = Continue Locals | Break Locals | Diverge

definition iteration :: "Run \<Rightarrow> Locals \<Rightarrow> Flow" where
  "iteration r v =
     (let fk = r_fk r; alg = r_alg r; res = selectNext fk v; v1 = snd res in
      case fst res of
        None \<Rightarrow> Break v1
      | Some sel \<Rightarrow>
          if fi_key sel \<in> v_closed v1 then Continue v1
          else
           (let reason = selectionReasonOf alg sel;
                frontierNow = frontierToArray fk v1;
                whyNot = (if fk = minheap
                          then Some (compareWhyNot (sel # frontierNow) sel
                                       (if alg = dijkstra then metric_g else metric_f))
                          else None);
                v2 = pushStep fk ((partialAt Select sel reason)\<lparr>p_whyNot := whyNot\<rparr>) v1
            in
            if fi_key sel = r_goalKey r then
              (case reconstructPathCoords (r_adapter r) (v_cameFrom v2) (r_startKey r) (r_goalKey r) of
                 None \<Rightarrow> Diverge
               | Some pth \<Rightarrow>
                   Break (pushStep fk
                     ((partialAt Found sel Goal)
                        \<lparr>p_path := Some pth,
                         p_warnings := (if alg = astar \<and> heuristicWeight (r_options r) > 1
                                        then Some [weightedFoundWarning] else None)\<rparr>) v2))
            else
             (let v3 = v2\<lparr>v_closed := insert (fi_key sel) (v_closed v2)\<rparr>;
                  v4 = pushStep fk (partialAt Expand sel reason) v3;
                  ws = expandWarnings r sel v4;
                  v5 = (if ws \<noteq> []
                        then pushStep fk ((partialAt Expand sel reason)\<lparr>p_warnings := Some ws\<rparr>) v4
                        else v4);
                  curG = (case v_gScore v5 (fi_key sel) of Some g \<Rightarrow> g | None \<Rightarrow> 0);
                  curDepth = (case fi_depth sel of Some d \<Rightarrow> d | None \<Rightarrow> 0);
                  neighborList = neighbors (r_adapter r) (fi_key sel)
              in Continue (foldl (visitNeighbor r sel reason curG curDepth) v5 neighborList))))"

subsection \<open>The main loop and the result\<close>

text \<open>
  \<^verbatim>\<open>while (frontierToArray().length > 0)\<close>, with the counter \<^verbatim>\<open>iterations\<close>. The result
  is the final counter and the final variables.
\<close>

function mainLoop :: "Run \<Rightarrow> nat \<Rightarrow> Locals \<Rightarrow> (nat \<times> Locals) option" where
  "mainLoop r iterations v =
     (if 0 < length (frontierToArray (r_fk r) v) then
        (if maxIterations r < int (iterations + 1) then
           Some (iterations + 1,
                 pushStep (r_fk r) ((partialOf Exhausted None)\<lparr>p_warnings := Some [capWarning]\<rparr>) v)
         else (case iteration r v of
                 Diverge \<Rightarrow> None
               | Break v' \<Rightarrow> Some (iterations + 1, v')
               | Continue v' \<Rightarrow> mainLoop r (iterations + 1) v'))
      else Some (iterations, v))"
  by pat_completeness auto
termination
  by (relation "measure (\<lambda>(r, iterations, v). nat (maxIterations r) + 1 - iterations)") auto

declare mainLoop.simps [simp del]

text \<open>The seed: the statements before the loop, up to the \<^verbatim>\<open>init\<close> snapshot.\<close>

definition seed :: "Run \<Rightarrow> Locals" where
  "seed r =
     (let a = r_adapter r; fk = r_fk r;
          start = coordOfKey a (r_startKey r);
          goal = coordOfKey a (r_goalKey r);
          startItem = makeItem start (r_startKey r) (r_alg r) 0
                        (heuristicFn (heuristic (r_options r)) start goal) 0
                        (heuristicWeight (r_options r));
          v0 = \<lparr>v_visited = {r_startKey r}, v_closed = {}, v_cameFrom = Map.empty,
                v_gScore = [r_startKey r \<mapsto> 0], v_steps = [], v_relaxations = 0,
                v_peakFrontier = 0, v_peakClosed = 0,
                v_queue = (if fk = queue then [startItem] else []),
                v_stack = (if fk = stack then [startItem] else []),
                v_heap = (if fk = minheap
                          then push [] \<lparr>hn_id = r_startKey r, hn_value = startItem,
                                        hn_priority = (case fi_priority startItem of Some p \<Rightarrow> p
                                                       | None \<Rightarrow> 0)\<rparr>
                          else [])\<rparr>
      in pushStep fk (partialOf Init None) v0)"

text \<open>The statements after the loop: \<^verbatim>\<open>found\<close>, the path of the last found snapshot, the metrics.\<close>

definition lastFoundPath :: "StepSnapshot list \<Rightarrow> Coord list" where
  "lastFoundPath sts =
     (case find (\<lambda>s. s_phase s = Found \<and> s_path s \<noteq> None) (rev sts) of
        Some s \<Rightarrow> (case s_path s of Some pth \<Rightarrow> pth | None \<Rightarrow> [])
      | None \<Rightarrow> [])"

definition traceOf :: "Run \<Rightarrow> Locals \<Rightarrow> Trace" where
  "traceOf r v =
     (let fnd = list_ex (\<lambda>s. s_phase s = Found) (v_steps v)
      in \<lparr>t_options = r_options r, t_steps = v_steps v, t_found = fnd,
          t_path = (if fnd then lastFoundPath (v_steps v) else []),
          t_metrics = \<lparr>explored = card (v_closed v), relaxations = v_relaxations v,
                       peakFrontier = v_peakFrontier v, peakClosed = v_peakClosed v,
                       runtimeSteps = length (v_steps v)\<rparr>\<rparr>)"

definition runLoop :: "Run \<Rightarrow> (nat \<times> Locals) option" where
  "runLoop r = mainLoop r 0 (seed r)"

definition runTrace :: "Run \<Rightarrow> Trace option" where
  "runTrace r = (case runLoop r of None \<Rightarrow> None | Some res \<Rightarrow> Some (traceOf r (snd res)))"

definition runOf :: "Environment \<Rightarrow> string \<Rightarrow> string \<Rightarrow> RunOptions \<Rightarrow> Run" where
  "runOf env startKey goalKey opts =
     \<lparr>r_adapter = adapterOf env, r_isGrid = (kind env = kind_grid),
      r_sizeBasis = sizeBasisOf env, r_startKey = startKey, r_goalKey = goalKey,
      r_options = opts\<rparr>"

definition buildTrace :: "Environment \<Rightarrow> string \<Rightarrow> string \<Rightarrow> RunOptions \<Rightarrow> Trace option" where
  "buildTrace env startKey goalKey opts = runTrace (runOf env startKey goalKey opts)"

section \<open>Basic facts about the engine\<close>

lemma push_empty: "push [] n = [n]"
  by (simp add: push_def bubbleUp.simps)

lemma pop_single: "pop [n] = (Some n, [])"
  by (simp add: pop_def)

lemma maxIterations_ge: "100 \<le> maxIterations r"
  by (simp add: maxIterations_def)

lemma seed_steps: "map s_phase (v_steps (seed r)) = [Init]"
  by (simp add: seed_def pushStep_def snapshotOf_def Let_def partialOf_def)

lemma frontier_seed:
  "frontierToArray (r_fk r) (seed r) =
     [makeItem (coordOfKey (r_adapter r) (r_startKey r)) (r_startKey r) (r_alg r) 0
        (heuristicFn (heuristic (r_options r)) (coordOfKey (r_adapter r) (r_startKey r))
           (coordOfKey (r_adapter r) (r_goalKey r))) 0 (heuristicWeight (r_options r))]"
  by (cases "algorithm (r_options r)")
     (simp_all add: seed_def pushStep_def Let_def frontierToArray_def r_fk_def push_empty)

lemma selectNext_seed:
  "fst (selectNext (r_fk r) (seed r)) =
     Some (makeItem (coordOfKey (r_adapter r) (r_startKey r)) (r_startKey r) (r_alg r) 0
        (heuristicFn (heuristic (r_options r)) (coordOfKey (r_adapter r) (r_startKey r))
           (coordOfKey (r_adapter r) (r_goalKey r))) 0 (heuristicWeight (r_options r)))"
  by (cases "algorithm (r_options r)")
     (simp_all add: seed_def pushStep_def Let_def selectNext_def r_fk_def r_alg_def push_empty pop_single
        popFresh.simps makeItem_def)


lemma fi_key_makeItem [simp]: "fi_key (makeItem c k alg g h d w) = k"
  by (simp add: makeItem_def Let_def)

lemma fi_at_makeItem [simp]: "fi_at (makeItem c k alg g h d w) = c"
  by (simp add: makeItem_def Let_def)

lemma seed_closed [simp]: "v_closed (seed r) = {}"
  by (simp add: seed_def pushStep_def Let_def)

lemma selectNext_closed [simp]: "v_closed (snd (selectNext fk v)) = v_closed v"
  by (simp add: selectNext_def Let_def split: list.splits)

lemma selectNext_steps [simp]: "v_steps (snd (selectNext fk v)) = v_steps v"
  by (simp add: selectNext_def Let_def split: list.splits)

lemma selectNext_relaxations [simp]: "v_relaxations (snd (selectNext fk v)) = v_relaxations v"
  by (simp add: selectNext_def Let_def split: list.splits)

lemma selectNext_cameFrom [simp]: "v_cameFrom (snd (selectNext fk v)) = v_cameFrom v"
  by (simp add: selectNext_def Let_def split: list.splits)

lemma pushStep_closed [simp]: "v_closed (pushStep fk p v) = v_closed v"
  by (simp add: pushStep_def Let_def)

lemma pushStep_relaxations [simp]: "v_relaxations (pushStep fk p v) = v_relaxations v"
  by (simp add: pushStep_def Let_def)

lemma pushStep_cameFrom [simp]: "v_cameFrom (pushStep fk p v) = v_cameFrom v"
  by (simp add: pushStep_def Let_def)

lemma pushStep_phases [simp]:
  "map s_phase (v_steps (pushStep fk p v)) = map s_phase (v_steps v) @ [p_phase p]"
  by (simp add: pushStep_def snapshotOf_def)

lemma pushStep_currentKeys [simp]:
  "map s_currentKey (v_steps (pushStep fk p v)) = map s_currentKey (v_steps v) @ [p_currentKey p]"
  by (simp add: pushStep_def snapshotOf_def)

lemma pushStep_paths [simp]:
  "map s_path (v_steps (pushStep fk p v)) = map s_path (v_steps v) @ [p_path p]"
  by (simp add: pushStep_def snapshotOf_def)

lemma iteration_seed_goal:
  assumes "r_goalKey r = r_startKey r"
  shows "\<exists>v'. iteration r (seed r) = Break v'
            \<and> map s_phase (v_steps v') = [Init, Select, Found]
            \<and> map s_currentKey (v_steps v') = [None, Some (r_startKey r), Some (r_startKey r)]
            \<and> map s_path (v_steps v') = [None, None, Some [coordOfKey (r_adapter r) (r_startKey r)]]
            \<and> v_closed v' = {} \<and> v_relaxations v' = 0"
  using assms selectNext_seed[of r]
  apply (simp add: iteration_def Let_def reconstructPathCoords_def partialAt_def partialOf_def)
  apply (simp add: seed_def pushStep_def snapshotOf_def Let_def partialOf_def)
  done



lemma steps3:
  assumes ph: "map s_phase sts = [p1, p2, p3]"
  shows "\<exists>a b c. sts = [a, b, c]"
proof -
  from ph have "length (map s_phase sts) = 3" by simp
  then have "length sts = 3" by simp
  then show ?thesis
    by (auto simp: length_Suc_conv numeral_3_eq_3)
qed

lemma found_trace_facts:
  assumes ph: "map s_phase (v_steps v') = [Init, Select, Found]"
    and pa: "map s_path (v_steps v') = [None, None, Some [c0]]"
  shows "lastFoundPath (v_steps v') = [c0]" "list_ex (\<lambda>s. s_phase s = Found) (v_steps v')"
proof -
  from steps3[OF ph] obtain a b c where steps: "v_steps v' = [a, b, c]" by blast
  show "lastFoundPath (v_steps v') = [c0]" using ph pa unfolding steps by (simp add: lastFoundPath_def)
  show "list_ex (\<lambda>s. s_phase s = Found) (v_steps v')" using ph unfolding steps by simp
qed

lemma trace_of_immediate_find:
  assumes loop: "runLoop r = Some (1, v')"
    and ph: "map s_phase (v_steps v') = [Init, Select, Found]"
    and ck: "map s_currentKey (v_steps v') = [None, Some k, Some k]"
    and pa: "map s_path (v_steps v') = [None, None, Some [c0]]"
    and cl: "v_closed v' = {}" and rx: "v_relaxations v' = 0"
  shows "\<exists>t. runTrace r = Some t
      \<and> map s_phase (t_steps t) = [Init, Select, Found]
      \<and> map s_currentKey (t_steps t) = [None, Some k, Some k]
      \<and> map s_path (t_steps t) = [None, None, Some [c0]]
      \<and> t_found t
      \<and> t_path t = [c0]
      \<and> explored (t_metrics t) = 0
      \<and> relaxations (t_metrics t) = 0"
  unfolding runTrace_def loop
  using ph ck pa cl rx found_trace_facts[OF ph pa] by (simp add: traceOf_def Let_def)

subsection \<open>Frame facts\<close>

lemma pushStep_fields [simp]:
  "v_visited (pushStep fk p v) = v_visited v"
  "v_gScore (pushStep fk p v) = v_gScore v"
  "v_queue (pushStep fk p v) = v_queue v"
  "v_stack (pushStep fk p v) = v_stack v"
  "v_heap (pushStep fk p v) = v_heap v"
  "v_steps (pushStep fk p v) = v_steps v @ [snapshotOf fk p v]"
  "frontierToArray fk' (pushStep fk p v) = frontierToArray fk' v"
  by (simp_all add: pushStep_def frontierToArray_def)

lemma snapshotOf_fields [simp]:
  "s_index (snapshotOf fk p v) = length (v_steps v)"
  "s_phase (snapshotOf fk p v) = p_phase p"
  "s_currentKey (snapshotOf fk p v) = p_currentKey p"
  "s_current (snapshotOf fk p v) = p_current p"
  "s_frontierKind (snapshotOf fk p v) = fk"
  "s_frontier (snapshotOf fk p v) = frontierToArray fk v"
  "s_selected (snapshotOf fk p v) = p_selected p"
  "s_visited (snapshotOf fk p v) = v_visited v"
  "s_closed (snapshotOf fk p v) = v_closed v"
  "s_cameFrom (snapshotOf fk p v) = v_cameFrom v"
  "s_gScore (snapshotOf fk p v) = v_gScore v"
  "s_relaxation (snapshotOf fk p v) = p_relaxation p"
  "s_selectionReason (snapshotOf fk p v) = p_selectionReason p"
  "s_whyNot (snapshotOf fk p v) = p_whyNot p"
  "s_path (snapshotOf fk p v) = p_path p"
  "s_warnings (snapshotOf fk p v) = p_warnings p"
  by (simp_all add: snapshotOf_def)

lemma partialAt_fields [simp]:
  "p_phase (partialAt ph sel reason) = ph"
  "p_currentKey (partialAt ph sel reason) = Some (fi_key sel)"
  "p_current (partialAt ph sel reason) = Some (fi_at sel)"
  "p_selected (partialAt ph sel reason) = Some sel"
  "p_selectionReason (partialAt ph sel reason) = Some reason"
  "p_whyNot (partialAt ph sel reason) = None"
  "p_relaxation (partialAt ph sel reason) = None"
  "p_path (partialAt ph sel reason) = None"
  "p_warnings (partialAt ph sel reason) = None"
  by (simp_all add: partialAt_def partialOf_def)

lemma partialOf_fields [simp]:
  "p_phase (partialOf ph ck) = ph"
  "p_currentKey (partialOf ph ck) = ck"
  "p_current (partialOf ph ck) = None"
  "p_selected (partialOf ph ck) = None"
  "p_selectionReason (partialOf ph ck) = None"
  "p_whyNot (partialOf ph ck) = None"
  "p_relaxation (partialOf ph ck) = None"
  "p_path (partialOf ph ck) = None"
  "p_warnings (partialOf ph ck) = None"
  by (simp_all add: partialOf_def)

lemma selectNext_fields [simp]:
  "v_visited (snd (selectNext fk v)) = v_visited v"
  "v_gScore (snd (selectNext fk v)) = v_gScore v"
  "v_peakFrontier (snd (selectNext fk v)) = v_peakFrontier v"
  "v_peakClosed (snd (selectNext fk v)) = v_peakClosed v"
  by (simp_all add: selectNext_def Let_def split: list.splits)

subsection \<open>The branches of one neighbour and of one iteration\<close>

definition pushFrontier :: "FrontierKind \<Rightarrow> FrontierItem \<Rightarrow> Locals \<Rightarrow> Locals" where
  "pushFrontier fk it v =
     (if fk = queue then v\<lparr>v_queue := v_queue v @ [it]\<rparr> else v\<lparr>v_stack := v_stack v @ [it]\<rparr>)"

definition discover :: "Run \<Rightarrow> FrontierItem \<Rightarrow> SelectionReason \<Rightarrow> real \<Rightarrow> nat \<Rightarrow> Locals \<Rightarrow> Neighbor \<Rightarrow> Locals" where
  "discover r sel reason curG curDepth v nb =
     pushStep (r_fk r) (partialAt Enqueue sel reason)
       (pushFrontier (r_fk r)
          (makeItem (coordOfKey (r_adapter r) (nb_key nb)) (nb_key nb) (r_alg r) (curG + 1) 0
             (curDepth + 1) (heuristicWeight (r_options r)))
          (pushStep (r_fk r)
             ((partialAt Enqueue sel reason)
                \<lparr>p_relaxation := Some \<lparr>rx_from = fi_key sel, rx_to = nb_key nb, oldG = None,
                                       newG = curG + 1, improved = True\<rparr>\<rparr>)
             (v\<lparr>v_visited := insert (nb_key nb) (v_visited v),
                v_cameFrom := (v_cameFrom v)(nb_key nb \<mapsto> fi_key sel)\<rparr>)))"

lemma visitNeighbor_unweighted:
  assumes "r_alg r = bfs \<or> r_alg r = dfs"
  shows "visitNeighbor r sel reason curG curDepth v nb =
     (if nb_key nb \<in> v_closed v \<or> nb_key nb \<in> v_visited v then v
      else discover r sel reason curG curDepth v nb)"
  using assms by (auto simp: visitNeighbor_def discover_def pushFrontier_def Let_def)

definition stepCostOf :: "Run \<Rightarrow> Neighbor \<Rightarrow> real" where
  "stepCostOf r nb = (if edgeCostMode (r_adapter r) = cost_weighted then nb_cost nb else 1)"

definition relaxTo :: "Run \<Rightarrow> FrontierItem \<Rightarrow> SelectionReason \<Rightarrow> real \<Rightarrow> nat \<Rightarrow> Locals \<Rightarrow> Neighbor \<Rightarrow> Locals" where
  "relaxTo r sel reason curG curDepth v nb =
     (let tentativeG = curG + stepCostOf r nb;
          nbItem = makeItem (coordOfKey (r_adapter r) (nb_key nb)) (nb_key nb) (r_alg r) tentativeG
                     (if r_alg r = astar
                      then heuristicFn (heuristic (r_options r)) (coordOfKey (r_adapter r) (nb_key nb))
                             (coordOfKey (r_adapter r) (r_goalKey r))
                      else 0)
                     (curDepth + 1) (heuristicWeight (r_options r))
      in pushStep (r_fk r) (partialAt Enqueue sel reason)
           ((pushStep (r_fk r)
              ((partialAt Relax sel reason)
                 \<lparr>p_relaxation := Some \<lparr>rx_from = fi_key sel, rx_to = nb_key nb,
                                        oldG = v_gScore v (nb_key nb),
                                        newG = tentativeG, improved = True\<rparr>\<rparr>)
              (v\<lparr>v_cameFrom := (v_cameFrom v)(nb_key nb \<mapsto> fi_key sel),
                 v_gScore := (v_gScore v)(nb_key nb \<mapsto> tentativeG),
                 v_visited := insert (nb_key nb) (v_visited v),
                 v_relaxations := v_relaxations v + 1\<rparr>))
            \<lparr>v_heap := push (v_heap v)
               \<lparr>hn_id = nb_key nb, hn_value = nbItem,
                hn_priority = (case fi_priority nbItem of Some p \<Rightarrow> p | None \<Rightarrow> tentativeG)\<rparr>\<rparr>))"

definition improves :: "Run \<Rightarrow> real \<Rightarrow> Locals \<Rightarrow> Neighbor \<Rightarrow> bool" where
  "improves r curG v nb =
     (case v_gScore v (nb_key nb) of None \<Rightarrow> True | Some og \<Rightarrow> curG + stepCostOf r nb < og)"

lemma visitNeighbor_weighted:
  assumes "r_alg r = dijkstra \<or> r_alg r = astar"
  shows "visitNeighbor r sel reason curG curDepth v nb =
     (if nb_key nb \<in> v_closed v \<or> \<not> improves r curG v nb then v
      else relaxTo r sel reason curG curDepth v nb)"
proof -
  have "\<not> (r_alg r = bfs \<or> r_alg r = dfs)" using assms by auto
  then show ?thesis
    by (simp add: visitNeighbor_def relaxTo_def improves_def stepCostOf_def Let_def
        split: option.split)
qed


definition selectStep :: "Run \<Rightarrow> FrontierItem \<Rightarrow> Locals \<Rightarrow> Locals" where
  "selectStep r sel v =
     pushStep (r_fk r)
       ((partialAt Select sel (selectionReasonOf (r_alg r) sel))
          \<lparr>p_whyNot := (if r_fk r = minheap
                         then Some (compareWhyNot (sel # frontierToArray (r_fk r) v) sel
                                      (if r_alg r = dijkstra then metric_g else metric_f))
                         else None)\<rparr>) v"

definition foundStep :: "Run \<Rightarrow> FrontierItem \<Rightarrow> Coord list \<Rightarrow> Locals \<Rightarrow> Locals" where
  "foundStep r sel pth v =
     pushStep (r_fk r)
       ((partialAt Found sel Goal)
          \<lparr>p_path := Some pth,
           p_warnings := (if r_alg r = astar \<and> heuristicWeight (r_options r) > 1
                          then Some [weightedFoundWarning] else None)\<rparr>) v"

definition expandStart :: "Run \<Rightarrow> FrontierItem \<Rightarrow> Locals \<Rightarrow> Locals" where
  "expandStart r sel v =
     (let v4 = pushStep (r_fk r) (partialAt Expand sel (selectionReasonOf (r_alg r) sel))
                 (v\<lparr>v_closed := insert (fi_key sel) (v_closed v)\<rparr>);
          ws = expandWarnings r sel v4
      in if ws \<noteq> []
         then pushStep (r_fk r)
                ((partialAt Expand sel (selectionReasonOf (r_alg r) sel))\<lparr>p_warnings := Some ws\<rparr>) v4
         else v4)"

definition expandNode :: "Run \<Rightarrow> FrontierItem \<Rightarrow> Locals \<Rightarrow> Locals" where
  "expandNode r sel v =
     foldl (visitNeighbor r sel (selectionReasonOf (r_alg r) sel)
              (case v_gScore v (fi_key sel) of Some g \<Rightarrow> g | None \<Rightarrow> 0)
              (case fi_depth sel of Some d \<Rightarrow> d | None \<Rightarrow> 0))
       (expandStart r sel v) (neighbors (r_adapter r) (fi_key sel))"

lemma expandStart_gScore [simp]: "v_gScore (expandStart r sel v) = v_gScore v"
  by (simp add: expandStart_def Let_def)

lemma iteration_eq:
  "iteration r v =
     (case fst (selectNext (r_fk r) v) of
        None \<Rightarrow> Break (snd (selectNext (r_fk r) v))
      | Some sel \<Rightarrow>
          if fi_key sel \<in> v_closed v then Continue (snd (selectNext (r_fk r) v))
          else if fi_key sel = r_goalKey r then
            (case reconstructPathCoords (r_adapter r) (v_cameFrom v) (r_startKey r) (r_goalKey r) of
               None \<Rightarrow> Diverge
             | Some pth \<Rightarrow>
                 Break (foundStep r sel pth (selectStep r sel (snd (selectNext (r_fk r) v)))))
          else Continue (expandNode r sel (selectStep r sel (snd (selectNext (r_fk r) v)))))"
  by (simp add: iteration_def Let_def selectStep_def foundStep_def expandNode_def expandStart_def
      split: option.split)

definition exhaustedStep :: "Run \<Rightarrow> Locals \<Rightarrow> Locals" where
  "exhaustedStep r v =
     pushStep (r_fk r) ((partialOf Exhausted None)\<lparr>p_warnings := Some [capWarning]\<rparr>) v"

text \<open>How the loop ends: at a loop head \<open>(n', v')\<close> reached through full iterations.\<close>

lemma mainLoop_exit:
  assumes "I n v"
    and step: "\<And>n v v'. I n v \<Longrightarrow> frontierToArray (r_fk r) v \<noteq> [] \<Longrightarrow> int (n + 1) \<le> maxIterations r
                  \<Longrightarrow> iteration r v = Continue v' \<Longrightarrow> I (n + 1) v'"
  shows "(mainLoop r n v = None \<longrightarrow>
            (\<exists>n' v'. I n' v' \<and> frontierToArray (r_fk r) v' \<noteq> [] \<and> int (n' + 1) \<le> maxIterations r
                \<and> iteration r v' = Diverge))
       \<and> (\<forall>m w. mainLoop r n v = Some (m, w) \<longrightarrow>
            (\<exists>n' v'. I n' v' \<and>
               ((frontierToArray (r_fk r) v' = [] \<and> m = n' \<and> w = v')
              \<or> (frontierToArray (r_fk r) v' \<noteq> [] \<and> maxIterations r < int (n' + 1)
                    \<and> m = n' + 1 \<and> w = exhaustedStep r v')
              \<or> (frontierToArray (r_fk r) v' \<noteq> [] \<and> int (n' + 1) \<le> maxIterations r
                    \<and> m = n' + 1 \<and> iteration r v' = Break w))))"
  using assms
proof (induction r n v rule: mainLoop.induct)
  case (1 r n v)
  note inv = "1.prems"(1)
  note stp = "1.prems"(2)
  show ?case
  proof (cases "frontierToArray (r_fk r) v = []")
    case True
    then have "mainLoop r n v = Some (n, v)" by (subst mainLoop.simps) simp
    then show ?thesis using inv True by auto
  next
    case False
    note ne = this
    show ?thesis
    proof (cases "maxIterations r < int (n + 1)")
      case True
      then have "mainLoop r n v = Some (n + 1, exhaustedStep r v)"
        using ne by (subst mainLoop.simps) (simp add: exhaustedStep_def)
      then show ?thesis using inv True ne by auto
    next
      case False
      note cap = this
      then have cap': "int (n + 1) \<le> maxIterations r" by simp
      show ?thesis
      proof (cases "iteration r v")
        case (Continue v')
        have eq: "mainLoop r n v = mainLoop r (n + 1) v'"
          using ne cap Continue by (subst mainLoop.simps) simp
        have "I (n + 1) v'" using stp[OF inv ne cap' Continue] .
        from "1.IH"[OF _ cap Continue this stp] ne show ?thesis unfolding eq by simp
      next
        case (Break v')
        have "mainLoop r n v = Some (n + 1, v')"
          using ne cap Break by (subst mainLoop.simps) simp
        then show ?thesis using inv ne cap' Break by auto
      next
        case Diverge
        have "mainLoop r n v = None"
          using ne cap Diverge by (subst mainLoop.simps) simp
        then show ?thesis using inv ne cap' Diverge by auto
      qed
    qed
  qed
qed

subsection \<open>What compareWhyNot returns\<close>

lemma insort_key_map: "insort_key g (h x) (map h ys) = map h (insort_key (\<lambda>a. g (h a)) x ys)"
  by (induction ys) auto

lemma sort_key_map: "sort_key g (map h xs) = map h (sort_key (\<lambda>a. g (h a)) xs)"
  by (induction xs) (auto simp: insort_key_map)

definition whyNotCandidates :: "FrontierItem list \<Rightarrow> FrontierItem \<Rightarrow> Metric \<Rightarrow> FrontierItem list" where
  "whyNotCandidates frontier chosenItem m =
     filter (\<lambda>x. metricValue m x \<noteq> metricValue m chosenItem)
       (take 4 (sort_key (metricValue m) (filter (\<lambda>x. fi_key x \<noteq> fi_key chosenItem) frontier)))"

lemma compareWhyNot_eq:
  "compareWhyNot frontier c m =
     map (\<lambda>x. \<lparr>candidate = x, chosen = c, metric = m,
                 candidateValue = metricValue m x, chosenValue = metricValue m c\<rparr>)
       (whyNotCandidates frontier c m)"
  by (simp add: compareWhyNot_def whyNotCandidates_def Let_def sort_key_map take_map filter_map comp_def)

subsection \<open>The run always returns\<close>

text \<open>
  \<open>stopsIn C cf startK cur\<close>: following the parent links from \<open>cur\<close> ends, and every key
  whose link is read on the way lies in \<open>C\<close>.
\<close>

inductive stopsIn :: "string set \<Rightarrow> (string \<rightharpoonup> string) \<Rightarrow> string \<Rightarrow> string \<Rightarrow> bool"
  for C :: "string set" and cf :: "string \<rightharpoonup> string" and startK :: string where
  at_start: "stopsIn C cf startK startK"
| no_parent: "cur \<in> C \<Longrightarrow> cf cur = None \<Longrightarrow> stopsIn C cf startK cur"
| empty_parent: "cur \<in> C \<Longrightarrow> cf cur = Some [] \<Longrightarrow> stopsIn C cf startK cur"
| parent: "cur \<in> C \<Longrightarrow> cf cur = Some prev \<Longrightarrow> stopsIn C cf startK prev \<Longrightarrow> stopsIn C cf startK cur"

lemma stopsIn_walkBack: "stopsIn C cf startK cur \<Longrightarrow> \<exists>res. walkBack cf startK cur out = Some res"
proof (induction arbitrary: out rule: stopsIn.induct)
  case at_start
  show ?case by (subst walkBack.simps) simp
next
  case (no_parent cur)
  then show ?case by (subst walkBack.simps) simp
next
  case (empty_parent cur)
  then show ?case by (subst walkBack.simps) simp
next
  case (parent cur prev)
  show ?case
  proof (cases "cur = startK \<or> prev = []")
    case True
    then show ?thesis using parent.hyps(2) by (subst walkBack.simps) auto
  next
    case False
    then have "walkBack cf startK cur out = walkBack cf startK prev (out @ [prev])"
      using parent.hyps(2) by (subst walkBack.simps) simp
    then show ?thesis using parent.IH[of "out @ [prev]"] by simp
  qed
qed

lemma stopsIn_mono: "stopsIn C cf startK cur \<Longrightarrow> C \<subseteq> C' \<Longrightarrow> stopsIn C' cf startK cur"
  by (induction rule: stopsIn.induct) (auto intro: stopsIn.intros)

lemma stopsIn_update: "stopsIn C cf startK cur \<Longrightarrow> k \<notin> C \<Longrightarrow> stopsIn C (cf(k \<mapsto> p)) startK cur"
proof (induction rule: stopsIn.induct)
  case at_start
  show ?case by (rule stopsIn.at_start)
next
  case (no_parent cur)
  then show ?case by (intro stopsIn.no_parent) auto
next
  case (empty_parent cur)
  then show ?case by (intro stopsIn.empty_parent) auto
next
  case (parent cur prev)
  then have "(cf(k \<mapsto> p)) cur = Some prev" by auto
  then show ?case using parent by (blast intro: stopsIn.parent)
qed


definition chainInv :: "Run \<Rightarrow> Locals \<Rightarrow> bool" where
  "chainInv r v =
     ((\<forall>k p. v_cameFrom v k = Some p \<longrightarrow> p \<in> v_closed v)
      \<and> (\<forall>k \<in> v_closed v. stopsIn (v_closed v) (v_cameFrom v) (r_startKey r) k))"

lemma chainInv_D1: "chainInv r v \<Longrightarrow> v_cameFrom v a = Some p \<Longrightarrow> p \<in> v_closed v"
  unfolding chainInv_def by blast

lemma chainInv_D2: "chainInv r v \<Longrightarrow> a \<in> v_closed v \<Longrightarrow> stopsIn (v_closed v) (v_cameFrom v) (r_startKey r) a"
  unfolding chainInv_def by blast

lemma chainInv_I:
  "(\<And>a p. v_cameFrom v a = Some p \<Longrightarrow> p \<in> v_closed v) \<Longrightarrow>
   (\<And>a. a \<in> v_closed v \<Longrightarrow> stopsIn (v_closed v) (v_cameFrom v) (r_startKey r) a) \<Longrightarrow> chainInv r v"
  unfolding chainInv_def by blast


lemma chainInv_close:
  assumes "chainInv r v"
  shows "chainInv r (v\<lparr>v_closed := insert k (v_closed v)\<rparr>)"
proof (rule chainInv_I)
  let ?C = "v_closed v" and ?cf = "v_cameFrom v"
  have old: "stopsIn (insert k ?C) ?cf (r_startKey r) a" if "a \<in> ?C" for a
    by (rule stopsIn_mono[OF chainInv_D2[OF assms that]]) (rule subset_insertI)
  have new: "stopsIn (insert k ?C) ?cf (r_startKey r) k"
  proof (cases "?cf k")
    case None
    then show ?thesis by - (rule stopsIn.no_parent, simp_all)
  next
    case (Some p)
    have "stopsIn (insert k ?C) ?cf (r_startKey r) p" by (rule old[OF chainInv_D1[OF assms Some]])
    then show ?thesis using Some by - (rule stopsIn.parent[where prev = p], simp_all)
  qed
  show "p \<in> v_closed (v\<lparr>v_closed := insert k (v_closed v)\<rparr>)"
    if "v_cameFrom (v\<lparr>v_closed := insert k (v_closed v)\<rparr>) a = Some p" for a p
    using that chainInv_D1[OF assms, of a p] by simp
  show "stopsIn (v_closed (v\<lparr>v_closed := insert k (v_closed v)\<rparr>))
          (v_cameFrom (v\<lparr>v_closed := insert k (v_closed v)\<rparr>)) (r_startKey r) a"
    if "a \<in> v_closed (v\<lparr>v_closed := insert k (v_closed v)\<rparr>)" for a
    using that old[of a] new by (cases "a = k") simp_all
qed

lemma chainInv_link:
  assumes "chainInv r v" "k \<notin> v_closed v" "p \<in> v_closed v"
  shows "chainInv r (v\<lparr>v_cameFrom := (v_cameFrom v)(k \<mapsto> p)\<rparr>)"
proof (rule chainInv_I)
  show "q \<in> v_closed (v\<lparr>v_cameFrom := (v_cameFrom v)(k \<mapsto> p)\<rparr>)"
    if "v_cameFrom (v\<lparr>v_cameFrom := (v_cameFrom v)(k \<mapsto> p)\<rparr>) a = Some q" for a q
    using that chainInv_D1[OF assms(1), of a q] assms(3) by (cases "a = k") simp_all
  show "stopsIn (v_closed (v\<lparr>v_cameFrom := (v_cameFrom v)(k \<mapsto> p)\<rparr>))
          (v_cameFrom (v\<lparr>v_cameFrom := (v_cameFrom v)(k \<mapsto> p)\<rparr>)) (r_startKey r) a"
    if "a \<in> v_closed (v\<lparr>v_cameFrom := (v_cameFrom v)(k \<mapsto> p)\<rparr>)" for a
    using that stopsIn_update[OF chainInv_D2[OF assms(1)] assms(2), of a p] by simp
qed

lemma chainInv_cong:
  "v_cameFrom v' = v_cameFrom v \<Longrightarrow> v_closed v' = v_closed v \<Longrightarrow> chainInv r v' = chainInv r v"
  by (simp add: chainInv_def)

lemma chainInv_reconstruct:
  assumes "chainInv r v"
  shows "\<exists>pth. reconstructPathCoords a (v_cameFrom v) (r_startKey r) g = Some pth"
proof (cases "r_startKey r = g \<or> v_cameFrom v g = None")
  case True
  then show ?thesis by (auto simp: reconstructPathCoords_def)
next
  case False
  then obtain p where p: "v_cameFrom v g = Some p" by auto
  have "\<exists>res. walkBack (v_cameFrom v) (r_startKey r) g [g] = Some res"
  proof (cases "p = []")
    case True
    then show ?thesis using p False by (subst walkBack.simps) simp
  next
    case False
    note pne = this
    have "stopsIn (v_closed v) (v_cameFrom v) (r_startKey r) p"
      by (rule chainInv_D2[OF assms chainInv_D1[OF assms p]])
    from stopsIn_walkBack[OF this, of "[g] @ [p]"]
    show ?thesis using p pne \<open>\<not> (r_startKey r = g \<or> v_cameFrom v g = None)\<close>
      by (subst walkBack.simps) auto
  qed
  then show ?thesis using False by (auto simp: reconstructPathCoords_def)
qed


lemma pushFrontier_fields [simp]:
  "v_closed (pushFrontier fk it v) = v_closed v"
  "v_cameFrom (pushFrontier fk it v) = v_cameFrom v"
  "v_visited (pushFrontier fk it v) = v_visited v"
  "v_gScore (pushFrontier fk it v) = v_gScore v"
  "v_steps (pushFrontier fk it v) = v_steps v"
  "v_heap (pushFrontier fk it v) = v_heap v"
  "v_relaxations (pushFrontier fk it v) = v_relaxations v"
  by (simp_all add: pushFrontier_def)

lemma discover_fields [simp]:
  "v_closed (discover r sel reason curG curDepth v nb) = v_closed v"
  "v_cameFrom (discover r sel reason curG curDepth v nb) = (v_cameFrom v)(nb_key nb \<mapsto> fi_key sel)"
  "v_visited (discover r sel reason curG curDepth v nb) = insert (nb_key nb) (v_visited v)"
  "v_gScore (discover r sel reason curG curDepth v nb) = v_gScore v"
  "v_heap (discover r sel reason curG curDepth v nb) = v_heap v"
  "v_relaxations (discover r sel reason curG curDepth v nb) = v_relaxations v"
  by (simp_all add: discover_def)

lemma relaxTo_fields [simp]:
  "v_closed (relaxTo r sel reason curG curDepth v nb) = v_closed v"
  "v_cameFrom (relaxTo r sel reason curG curDepth v nb) = (v_cameFrom v)(nb_key nb \<mapsto> fi_key sel)"
  "v_visited (relaxTo r sel reason curG curDepth v nb) = insert (nb_key nb) (v_visited v)"
  "v_gScore (relaxTo r sel reason curG curDepth v nb) = (v_gScore v)(nb_key nb \<mapsto> curG + stepCostOf r nb)"
  "v_queue (relaxTo r sel reason curG curDepth v nb) = v_queue v"
  "v_stack (relaxTo r sel reason curG curDepth v nb) = v_stack v"
  "v_relaxations (relaxTo r sel reason curG curDepth v nb) = v_relaxations v + 1"
  by (simp_all add: relaxTo_def Let_def)

lemma visitNeighbor_eq:
  "visitNeighbor r sel reason curG curDepth v nb =
     (if r_alg r = bfs \<or> r_alg r = dfs then
        (if nb_key nb \<in> v_closed v \<or> nb_key nb \<in> v_visited v then v
         else discover r sel reason curG curDepth v nb)
      else
        (if nb_key nb \<in> v_closed v \<or> \<not> improves r curG v nb then v
         else relaxTo r sel reason curG curDepth v nb))"
proof (cases "r_alg r = bfs \<or> r_alg r = dfs")
  case True
  then show ?thesis by (simp add: visitNeighbor_unweighted)
next
  case False
  then have "r_alg r = dijkstra \<or> r_alg r = astar" by (cases "r_alg r") auto
  then show ?thesis using False by (simp add: visitNeighbor_weighted)
qed

lemma visitNeighbor_closed [simp]:
  "v_closed (visitNeighbor r sel reason curG curDepth v nb) = v_closed v"
  by (simp add: visitNeighbor_eq)

lemma foldl_visitNeighbor_closed [simp]:
  "v_closed (foldl (visitNeighbor r sel reason curG curDepth) v nbs) = v_closed v"
  by (induction nbs arbitrary: v) simp_all

lemma chainInv_visitNeighbor:
  assumes "chainInv r v" "fi_key sel \<in> v_closed v"
  shows "chainInv r (visitNeighbor r sel reason curG curDepth v nb)"
proof -
  have link: "chainInv r v'"
    if "nb_key nb \<notin> v_closed v" "v_closed v' = v_closed v"
       "v_cameFrom v' = (v_cameFrom v)(nb_key nb \<mapsto> fi_key sel)" for v'
  proof -
    have "chainInv r v' = chainInv r (v\<lparr>v_cameFrom := (v_cameFrom v)(nb_key nb \<mapsto> fi_key sel)\<rparr>)"
      by (rule chainInv_cong) (simp_all add: that)
    then show ?thesis using chainInv_link[OF assms(1) that(1) assms(2)] by simp
  qed
  show ?thesis
    unfolding visitNeighbor_eq using assms(1) by (auto intro!: link)
qed

lemma chainInv_foldl:
  assumes "chainInv r v" "fi_key sel \<in> v_closed v"
  shows "chainInv r (foldl (visitNeighbor r sel reason curG curDepth) v nbs)"
  using assms by (induction nbs arbitrary: v) (simp_all add: chainInv_visitNeighbor)

lemma selectStep_fields [simp]:
  "v_closed (selectStep r sel v) = v_closed v"
  "v_cameFrom (selectStep r sel v) = v_cameFrom v"
  "v_visited (selectStep r sel v) = v_visited v"
  "v_gScore (selectStep r sel v) = v_gScore v"
  "v_queue (selectStep r sel v) = v_queue v"
  "v_stack (selectStep r sel v) = v_stack v"
  "v_heap (selectStep r sel v) = v_heap v"
  "v_relaxations (selectStep r sel v) = v_relaxations v"
  by (simp_all add: selectStep_def)

lemma expandStart_fields [simp]:
  "v_closed (expandStart r sel v) = insert (fi_key sel) (v_closed v)"
  "v_cameFrom (expandStart r sel v) = v_cameFrom v"
  "v_visited (expandStart r sel v) = v_visited v"
  "v_queue (expandStart r sel v) = v_queue v"
  "v_stack (expandStart r sel v) = v_stack v"
  "v_heap (expandStart r sel v) = v_heap v"
  "v_relaxations (expandStart r sel v) = v_relaxations v"
  by (simp_all add: expandStart_def Let_def)

lemma chainInv_expandNode:
  assumes "chainInv r v"
  shows "chainInv r (expandNode r sel (selectStep r sel v))"
proof -
  have "chainInv r (expandStart r sel (selectStep r sel v))
          = chainInv r (v\<lparr>v_closed := insert (fi_key sel) (v_closed v)\<rparr>)"
    by (rule chainInv_cong) simp_all
  then have "chainInv r (expandStart r sel (selectStep r sel v))"
    using chainInv_close[OF assms] by simp
  then show ?thesis unfolding expandNode_def by (rule chainInv_foldl) simp
qed

lemma chainInv_selectNext: "chainInv r (snd (selectNext fk v)) = chainInv r v"
  by (rule chainInv_cong) simp_all

lemma chainInv_iteration:
  assumes "chainInv r v"
  shows "iteration r v \<noteq> Diverge" and "iteration r v = Continue v' \<Longrightarrow> chainInv r v'"
proof -
  show "iteration r v \<noteq> Diverge"
    using chainInv_reconstruct[OF assms, of "r_adapter r" "r_goalKey r"]
    by (auto simp: iteration_eq split: option.splits)
  show "chainInv r v'" if "iteration r v = Continue v'"
    using that assms chainInv_expandNode[of r "snd (selectNext (r_fk r) v)"]
    by (auto simp: iteration_eq chainInv_selectNext split: option.splits if_splits)
qed

lemma chainInv_seed: "chainInv r (seed r)"
  by (simp add: chainInv_def seed_def Let_def)

lemma mainLoop_total:
  assumes "chainInv r v"
  shows "\<exists>m w. mainLoop r n v = Some (m, w)"
proof -
  have "mainLoop r n v \<noteq> None"
    using mainLoop_exit[where I = "\<lambda>n v. chainInv r v" and r = r and n = n and v = v]
      assms chainInv_iteration by blast
  then show ?thesis by auto
qed

lemma runLoop_total: "\<exists>m w. runLoop r = Some (m, w)"
  unfolding runLoop_def by (rule mainLoop_total[OF chainInv_seed])

lemma runTrace_total: "\<exists>t. runTrace r = Some t"
  using runLoop_total[of r] by (auto simp: runTrace_def)


subsection \<open>The graph adapter keeps every edge\<close>

definition edgeEntries :: "bool \<Rightarrow> string \<Rightarrow> GraphEdge \<Rightarrow> Neighbor list" where
  "edgeEntries dir k e =
     (if e_from e = k then [\<lparr>nb_key = e_to e, nb_cost = e_cost e\<rparr>] else [])
     @ (if \<not> dir \<and> e_to e = k then [\<lparr>nb_key = e_from e, nb_cost = e_cost e\<rparr>] else [])"

lemma adjGet_addEdge: "adjGet (addEdge dir adj e) k = adjGet adj k @ edgeEntries dir k e"
  by (simp add: addEdge_def adjGet_def edgeEntries_def Let_def)

lemma adjGet_foldl:
  "adjGet (foldl (addEdge dir) adj es) k = adjGet adj k @ concat (map (edgeEntries dir k) es)"
  by (induction es arbitrary: adj) (simp_all add: adjGet_addEdge)

lemma adjGet_adjacency:
  "adjGet (adjacency g) k = concat (map (edgeEntries (directed g) k) (edges g))"
proof -
  have "adjGet Map.empty k = []" by (simp add: adjGet_def)
  then show ?thesis by (simp add: adjacency_def adjGet_foldl)
qed

lemma nodeAt_foldl_None:
  "foldl (\<lambda>m n. m(node_id n \<mapsto> node_at n)) m0 ns k = None
     \<longleftrightarrow> m0 k = None \<and> k \<notin> node_id ` set ns"
  by (induction ns arbitrary: m0) auto

lemma nodeAt_None: "nodeAt g k = None \<longleftrightarrow> k \<notin> node_id ` set (nodes g)"
  by (simp add: nodeAt_def nodeAt_foldl_None)


subsection \<open>What the snapshots of a run record\<close>

definition selectOK :: "Run \<Rightarrow> StepSnapshot \<Rightarrow> bool" where
  "selectOK r s =
     (\<exists>sel. s_selected s = Some sel \<and> s_currentKey s = Some (fi_key sel)
         \<and> fi_key sel \<notin> s_closed s
         \<and> s_frontierKind s = r_fk r
         \<and> s_whyNot s =
             (if r_fk r = minheap
              then Some (compareWhyNot (sel # s_frontier s) sel
                           (if r_alg r = dijkstra then metric_g else metric_f))
              else None))"

definition selectsOf :: "StepSnapshot list \<Rightarrow> nat" where
  "selectsOf sts = length (filter (\<lambda>s. s_phase s = Select) sts)"

text \<open>
  \<open>stepsFacts\<close>: what holds of the snapshots at every moment of a run.
  \<open>stepsInv\<close>: at a loop head, moreover, nothing is found or exhausted yet.
\<close>

definition stepsFacts :: "Run \<Rightarrow> Locals \<Rightarrow> bool" where
  "stepsFacts r v =
     ((\<forall>s \<in> set (v_steps v). s_closed s \<subseteq> v_closed v)
      \<and> sorted_wrt (\<lambda>a b. s_closed a \<subseteq> s_closed b) (v_steps v)
      \<and> (\<forall>s \<in> set (v_steps v). s_phase s = Select \<longrightarrow> selectOK r s)
      \<and> (\<forall>i < length (v_steps v). s_index (v_steps v ! i) = i))"

definition stepsInv :: "Run \<Rightarrow> Locals \<Rightarrow> bool" where
  "stepsInv r v =
     (stepsFacts r v
      \<and> (\<forall>s \<in> set (v_steps v). s_phase s \<noteq> Exhausted \<and> s_phase s \<noteq> Found))"

lemma stepsFacts_frame:
  assumes "stepsFacts r v" "v_steps v' = v_steps v" "v_closed v \<subseteq> v_closed v'"
  shows "stepsFacts r v'"
  using assms unfolding stepsFacts_def by auto

lemma stepsInv_frame:
  assumes "stepsInv r v" "v_steps v' = v_steps v" "v_closed v \<subseteq> v_closed v'"
  shows "stepsInv r v'"
  using assms stepsFacts_frame[of r v v'] unfolding stepsInv_def by auto

lemma stepsFacts_pushStep:
  assumes "stepsFacts r v" "p_phase p = Select \<longrightarrow> selectOK r (snapshotOf fk p v)"
  shows "stepsFacts r (pushStep fk p v)"
proof -
  have 1: "\<forall>s \<in> set (v_steps v). s_closed s \<subseteq> v_closed v"
    and 2: "sorted_wrt (\<lambda>a b. s_closed a \<subseteq> s_closed b) (v_steps v)"
    and 3: "\<forall>s \<in> set (v_steps v). s_phase s = Select \<longrightarrow> selectOK r s"
    and 4: "\<forall>i < length (v_steps v). s_index (v_steps v ! i) = i"
    using assms(1) by (simp_all add: stepsFacts_def)
  have "sorted_wrt (\<lambda>a b. s_closed a \<subseteq> s_closed b) (v_steps v @ [snapshotOf fk p v])"
    using 1 2 by (simp add: sorted_wrt_append)
  moreover have "\<forall>i < length (v_steps v @ [snapshotOf fk p v]).
      s_index ((v_steps v @ [snapshotOf fk p v]) ! i) = i"
    using 4 by (simp add: nth_append less_Suc_eq)
  ultimately show ?thesis using 1 3 assms(2) by (simp add: stepsFacts_def)
qed

lemma stepsInv_pushStep:
  assumes "stepsInv r v" "p_phase p = Select \<longrightarrow> selectOK r (snapshotOf fk p v)"
    "p_phase p \<noteq> Exhausted" "p_phase p \<noteq> Found"
  shows "stepsInv r (pushStep fk p v)"
  using assms stepsFacts_pushStep[of r v p fk] by (simp add: stepsInv_def)

lemma selectsOf_simps [simp]:
  "selectsOf [] = 0"
  "selectsOf (s # sts) = (if s_phase s = Select then 1 else 0) + selectsOf sts"
  "selectsOf (sts @ sts') = selectsOf sts + selectsOf sts'"
  by (simp_all add: selectsOf_def)

lemma stepsInv_discover:
  assumes "stepsInv r v"
  shows "stepsInv r (discover r sel reason curG curDepth v nb)"
    and "selectsOf (v_steps (discover r sel reason curG curDepth v nb)) = selectsOf (v_steps v)"
proof -
  let ?v1 = "v\<lparr>v_visited := insert (nb_key nb) (v_visited v),
                v_cameFrom := (v_cameFrom v)(nb_key nb \<mapsto> fi_key sel)\<rparr>"
  have a: "stepsInv r ?v1" by (rule stepsInv_frame[OF assms]) simp_all
  let ?v2 = "pushStep (r_fk r)
             ((partialAt Enqueue sel reason)
                \<lparr>p_relaxation := Some \<lparr>rx_from = fi_key sel, rx_to = nb_key nb, oldG = None,
                                       newG = curG + 1, improved = True\<rparr>\<rparr>) ?v1"
  have b: "stepsInv r ?v2" by (rule stepsInv_pushStep[OF a]) simp_all
  have c: "stepsInv r (pushFrontier (r_fk r) it ?v2)" for it
    by (rule stepsInv_frame[OF b]) simp_all
  show "stepsInv r (discover r sel reason curG curDepth v nb)"
    unfolding discover_def by (rule stepsInv_pushStep[OF c]) simp_all
  show "selectsOf (v_steps (discover r sel reason curG curDepth v nb)) = selectsOf (v_steps v)"
    by (simp add: discover_def)
qed

lemma stepsInv_relaxTo:
  assumes "stepsInv r v"
  shows "stepsInv r (relaxTo r sel reason curG curDepth v nb)"
    and "selectsOf (v_steps (relaxTo r sel reason curG curDepth v nb)) = selectsOf (v_steps v)"
proof -
  let ?v1 = "v\<lparr>v_cameFrom := (v_cameFrom v)(nb_key nb \<mapsto> fi_key sel),
                 v_gScore := (v_gScore v)(nb_key nb \<mapsto> curG + stepCostOf r nb),
                 v_visited := insert (nb_key nb) (v_visited v),
                 v_relaxations := v_relaxations v + 1\<rparr>"
  have a: "stepsInv r ?v1" by (rule stepsInv_frame[OF assms]) simp_all
  have b: "stepsInv r (pushStep (r_fk r) p ?v1)" if "p_phase p = Relax" for p
    by (rule stepsInv_pushStep[OF a]) (simp_all add: that)
  have c: "stepsInv r ((pushStep (r_fk r) p ?v1)\<lparr>v_heap := h\<rparr>)" if "p_phase p = Relax" for p h
    by (rule stepsInv_frame[OF b[OF that]]) simp_all
  show "stepsInv r (relaxTo r sel reason curG curDepth v nb)"
    unfolding relaxTo_def Let_def by (rule stepsInv_pushStep[OF c]) simp_all
  show "selectsOf (v_steps (relaxTo r sel reason curG curDepth v nb)) = selectsOf (v_steps v)"
    by (simp add: relaxTo_def Let_def)
qed

lemma stepsInv_visitNeighbor:
  assumes "stepsInv r v"
  shows "stepsInv r (visitNeighbor r sel reason curG curDepth v nb)
       \<and> selectsOf (v_steps (visitNeighbor r sel reason curG curDepth v nb)) = selectsOf (v_steps v)"
  using assms stepsInv_discover[OF assms] stepsInv_relaxTo[OF assms]
  by (simp add: visitNeighbor_eq)

lemma stepsInv_foldl:
  assumes "stepsInv r v"
  shows "stepsInv r (foldl (visitNeighbor r sel reason curG curDepth) v nbs)
       \<and> selectsOf (v_steps (foldl (visitNeighbor r sel reason curG curDepth) v nbs)) = selectsOf (v_steps v)"
  using assms
proof (induction nbs arbitrary: v)
  case Nil
  then show ?case by simp
next
  case (Cons nb nbs)
  from stepsInv_visitNeighbor[OF Cons.prems, of sel reason curG curDepth nb]
  show ?case using Cons.IH[of "visitNeighbor r sel reason curG curDepth v nb"] by simp
qed


lemma stepsInv_selectNext [simp]: "stepsInv r (snd (selectNext fk v)) = stepsInv r v"
  by (simp add: stepsInv_def stepsFacts_def)

lemma stepsInv_selectStep:
  assumes "stepsInv r v" "fi_key sel \<notin> v_closed v"
  shows "stepsInv r (selectStep r sel v)"
  unfolding selectStep_def
  by (rule stepsInv_pushStep[OF assms(1)]) (simp_all add: selectOK_def assms(2))

lemma selectsOf_selectStep [simp]:
  "selectsOf (v_steps (selectStep r sel v)) = selectsOf (v_steps v) + 1"
  by (simp add: selectStep_def)

lemma stepsInv_expandStart:
  assumes "stepsInv r v"
  shows "stepsInv r (expandStart r sel v)"
    and "selectsOf (v_steps (expandStart r sel v)) = selectsOf (v_steps v)"
proof -
  let ?v3 = "v\<lparr>v_closed := insert (fi_key sel) (v_closed v)\<rparr>"
  have a: "stepsInv r ?v3" by (rule stepsInv_frame[OF assms]) auto
  have b: "stepsInv r (pushStep (r_fk r) p ?v3)" if "p_phase p = Expand" for p
    by (rule stepsInv_pushStep[OF a]) (simp_all add: that)
  have c: "stepsInv r (pushStep (r_fk r) p' (pushStep (r_fk r) p ?v3))"
    if "p_phase p = Expand" "p_phase p' = Expand" for p p'
    by (rule stepsInv_pushStep[OF b[OF that(1)]]) (simp_all add: that)
  show "stepsInv r (expandStart r sel v)"
    unfolding expandStart_def Let_def using b c by simp
  show "selectsOf (v_steps (expandStart r sel v)) = selectsOf (v_steps v)"
    by (simp add: expandStart_def Let_def)
qed

lemma stepsInv_expandNode:
  assumes "stepsInv r v"
  shows "stepsInv r (expandNode r sel v)"
    and "selectsOf (v_steps (expandNode r sel v)) = selectsOf (v_steps v)"
  using stepsInv_foldl[OF stepsInv_expandStart(1)[OF assms, of sel]] stepsInv_expandStart(2)[OF assms, of sel]
  by (simp_all add: expandNode_def)

lemma stepsInv_iteration_Continue:
  assumes "stepsInv r v" "iteration r v = Continue v'"
  shows "stepsInv r v'" and "selectsOf (v_steps v') \<le> selectsOf (v_steps v) + 1"
proof -
  let ?v1 = "snd (selectNext (r_fk r) v)"
  have inv1: "stepsInv r ?v1" using assms(1) by simp
  from assms(2) consider
      (skip) sel where "fst (selectNext (r_fk r) v) = Some sel" "fi_key sel \<in> v_closed v" "v' = ?v1"
    | (expand) sel where "fst (selectNext (r_fk r) v) = Some sel" "fi_key sel \<notin> v_closed v"
        "v' = expandNode r sel (selectStep r sel ?v1)"
    by (auto simp: iteration_eq split: option.splits if_splits)
  then have "stepsInv r v' \<and> selectsOf (v_steps v') \<le> selectsOf (v_steps v) + 1"
  proof cases
    case skip
    then show ?thesis using inv1 by simp
  next
    case expand
    have "stepsInv r (selectStep r sel ?v1)"
      by (rule stepsInv_selectStep[OF inv1]) (simp add: expand(2))
    from stepsInv_expandNode[OF this, of sel] show ?thesis using expand(3) by simp
  qed
  then show "stepsInv r v'" and "selectsOf (v_steps v') \<le> selectsOf (v_steps v) + 1" by simp_all
qed

text \<open>A \<^verbatim>\<open>break\<close> inside an iteration: nothing was left to select, or the goal was found.\<close>

lemma iteration_Break:
  assumes "iteration r v = Break w"
  shows "(fst (selectNext (r_fk r) v) = None \<and> w = snd (selectNext (r_fk r) v))
       \<or> (\<exists>sel pth. fst (selectNext (r_fk r) v) = Some sel \<and> fi_key sel \<notin> v_closed v
             \<and> fi_key sel = r_goalKey r
             \<and> reconstructPathCoords (r_adapter r) (v_cameFrom v) (r_startKey r) (r_goalKey r) = Some pth
             \<and> w = foundStep r sel pth (selectStep r sel (snd (selectNext (r_fk r) v))))"
  using assms by (auto simp: iteration_eq split: option.splits if_splits)

lemma stepsFacts_foundStep:
  assumes "stepsInv r v"
  shows "stepsFacts r (foundStep r sel pth v)"
  unfolding foundStep_def using assms
  by (intro stepsFacts_pushStep) (simp_all add: stepsInv_def)

lemma foundStep_steps:
  "v_steps (foundStep r sel pth v) =
     v_steps v @ [snapshotOf (r_fk r)
        ((partialAt Found sel Goal)
          \<lparr>p_path := Some pth,
           p_warnings := (if r_alg r = astar \<and> heuristicWeight (r_options r) > 1
                          then Some [weightedFoundWarning] else None)\<rparr>) v]"
  by (simp add: foundStep_def)

lemma stepsInv_seed: "stepsInv r (seed r)"
  by (simp add: seed_def Let_def stepsInv_def stepsFacts_def)

lemma selectsOf_seed [simp]: "selectsOf (v_steps (seed r)) = 0"
  by (simp add: seed_def Let_def)

lemma mainLoop_exit_Some:
  assumes "mainLoop r n v = Some (m, w)" "I n v"
    and step: "\<And>n v v'. I n v \<Longrightarrow> frontierToArray (r_fk r) v \<noteq> [] \<Longrightarrow> int (n + 1) \<le> maxIterations r
                  \<Longrightarrow> iteration r v = Continue v' \<Longrightarrow> I (n + 1) v'"
  shows "\<exists>n' v'. I n' v' \<and>
               ((frontierToArray (r_fk r) v' = [] \<and> m = n' \<and> w = v')
              \<or> (frontierToArray (r_fk r) v' \<noteq> [] \<and> maxIterations r < int (n' + 1)
                    \<and> m = n' + 1 \<and> w = exhaustedStep r v')
              \<or> (frontierToArray (r_fk r) v' \<noteq> [] \<and> int (n' + 1) \<le> maxIterations r
                    \<and> m = n' + 1 \<and> iteration r v' = Break w))"
proof -
  have "(mainLoop r n v = None \<longrightarrow>
            (\<exists>n' v'. I n' v' \<and> frontierToArray (r_fk r) v' \<noteq> [] \<and> int (n' + 1) \<le> maxIterations r
                \<and> iteration r v' = Diverge))
       \<and> (\<forall>m w. mainLoop r n v = Some (m, w) \<longrightarrow>
            (\<exists>n' v'. I n' v' \<and>
               ((frontierToArray (r_fk r) v' = [] \<and> m = n' \<and> w = v')
              \<or> (frontierToArray (r_fk r) v' \<noteq> [] \<and> maxIterations r < int (n' + 1)
                    \<and> m = n' + 1 \<and> w = exhaustedStep r v')
              \<or> (frontierToArray (r_fk r) v' \<noteq> [] \<and> int (n' + 1) \<le> maxIterations r
                    \<and> m = n' + 1 \<and> iteration r v' = Break w))))"
    by (rule mainLoop_exit[where I = I, OF assms(2)]) (rule step)
  then show ?thesis using assms(1) by simp
qed

text \<open>The facts about a finished loop.\<close>

lemma runLoop_facts:
  assumes "runLoop r = Some (m, w)"
  shows "stepsFacts r w"
    and "selectsOf (v_steps w) \<le> m"
    and "int (selectsOf (v_steps w)) \<le> maxIterations r"
    and "int m \<le> maxIterations r + 1"
    and "maxIterations r < int m \<Longrightarrow> \<exists>v'. w = exhaustedStep r v' \<and> stepsInv r v'"
    and "int m \<le> maxIterations r \<Longrightarrow> \<forall>s \<in> set (v_steps w). s_phase s \<noteq> Exhausted"
proof -
  define I where "I = (\<lambda>n v. stepsInv r v \<and> selectsOf (v_steps v) \<le> n \<and> int n \<le> maxIterations r)"
  have I0: "I 0 (seed r)" using maxIterations_ge[of r] by (simp add: I_def stepsInv_seed)
  have Istep: "I (n + 1) v'"
    if "I n v" "frontierToArray (r_fk r) v \<noteq> []" "int (n + 1) \<le> maxIterations r"
       "iteration r v = Continue v'" for n v v'
    using that stepsInv_iteration_Continue[of r v v'] by (simp add: I_def)
  have ml: "mainLoop r 0 (seed r) = Some (m, w)" using assms by (simp add: runLoop_def)
  have "\<exists>n' v'. I n' v' \<and>
       ((frontierToArray (r_fk r) v' = [] \<and> m = n' \<and> w = v')
       \<or> (frontierToArray (r_fk r) v' \<noteq> [] \<and> maxIterations r < int (n' + 1)
             \<and> m = n' + 1 \<and> w = exhaustedStep r v')
       \<or> (frontierToArray (r_fk r) v' \<noteq> [] \<and> int (n' + 1) \<le> maxIterations r
             \<and> m = n' + 1 \<and> iteration r v' = Break w))"
    by (rule mainLoop_exit_Some[where I = I, OF ml I0]) (rule Istep)
  then obtain n' v' where inv: "I n' v'"
    and exit: "(frontierToArray (r_fk r) v' = [] \<and> m = n' \<and> w = v')
       \<or> (frontierToArray (r_fk r) v' \<noteq> [] \<and> maxIterations r < int (n' + 1)
             \<and> m = n' + 1 \<and> w = exhaustedStep r v')
       \<or> (frontierToArray (r_fk r) v' \<noteq> [] \<and> int (n' + 1) \<le> maxIterations r
             \<and> m = n' + 1 \<and> iteration r v' = Break w)"
    by blast
  have sv: "stepsInv r v'" and sel: "selectsOf (v_steps v') \<le> n'" and cap: "int n' \<le> maxIterations r"
    using inv by (simp_all add: I_def)
  have ex_facts: "stepsFacts r (exhaustedStep r v')"
    unfolding exhaustedStep_def using sv by (intro stepsFacts_pushStep) (simp_all add: stepsInv_def)
  have ex_sel: "selectsOf (v_steps (exhaustedStep r v')) = selectsOf (v_steps v')"
    by (simp add: exhaustedStep_def)
  have brk: "stepsFacts r w \<and> selectsOf (v_steps w) \<le> n' + 1
             \<and> (\<forall>s \<in> set (v_steps w). s_phase s \<noteq> Exhausted)"
    if b: "iteration r v' = Break w"
  proof -
    from iteration_Break[OF b] show ?thesis
    proof (elim disjE exE conjE)
      assume "w = snd (selectNext (r_fk r) v')"
      then show ?thesis using sv sel by (simp add: stepsInv_def stepsFacts_def)
    next
      fix sl pth
      assume k: "fi_key sl \<notin> v_closed v'"
        and w: "w = foundStep r sl pth (selectStep r sl (snd (selectNext (r_fk r) v')))"
      have s1: "stepsInv r (selectStep r sl (snd (selectNext (r_fk r) v')))"
        by (rule stepsInv_selectStep) (simp_all add: sv k)
      have "stepsFacts r w" unfolding w by (rule stepsFacts_foundStep[OF s1])
      moreover have "selectsOf (v_steps w) \<le> n' + 1" using sel by (simp add: w foundStep_steps)
      moreover have "\<forall>s \<in> set (v_steps w). s_phase s \<noteq> Exhausted"
        using s1 by (simp add: w foundStep_steps stepsInv_def)
      ultimately show ?thesis by simp
    qed
  qed
  show "stepsFacts r w" using exit sv ex_facts brk by (auto simp: stepsInv_def)
  show "selectsOf (v_steps w) \<le> m" using exit sel ex_sel brk by auto
  show "int (selectsOf (v_steps w)) \<le> maxIterations r" using exit sel cap ex_sel brk by auto
  show "int m \<le> maxIterations r + 1" using exit cap by auto
  show "\<exists>v'. w = exhaustedStep r v' \<and> stepsInv r v'" if "maxIterations r < int m"
    using exit cap sv that by auto
  show "\<forall>s \<in> set (v_steps w). s_phase s \<noteq> Exhausted" if "int m \<le> maxIterations r"
    using exit sv brk that by (auto simp: stepsInv_def)
qed

subsection \<open>The run whose start is its goal\<close>

lemma immediate_find_run:
  "\<exists>t. buildTrace env k k opts = Some t
      \<and> map s_phase (t_steps t) = [Init, Select, Found]
      \<and> map s_currentKey (t_steps t) = [None, Some k, Some k]
      \<and> map s_path (t_steps t) = [None, None, Some [coordOfKey (adapterOf env) k]]
      \<and> t_found t
      \<and> t_path t = [coordOfKey (adapterOf env) k]
      \<and> explored (t_metrics t) = 0
      \<and> relaxations (t_metrics t) = 0"
proof -
  define r where "r = runOf env k k opts"
  have k1: "r_goalKey r = r_startKey r" and k2: "r_startKey r = k"
    and k3: "r_adapter r = adapterOf env"
    by (simp_all add: r_def runOf_def)
  from iteration_seed_goal[OF k1] obtain v' where
    it: "iteration r (seed r) = Break v'"
    and ph: "map s_phase (v_steps v') = [Init, Select, Found]"
    and ck: "map s_currentKey (v_steps v') = [None, Some (r_startKey r), Some (r_startKey r)]"
    and pa: "map s_path (v_steps v') = [None, None, Some [coordOfKey (r_adapter r) (r_startKey r)]]"
    and cl: "v_closed v' = {}" and rx: "v_relaxations v' = 0"
    by (elim exE conjE)
  have loop: "runLoop r = Some (1, v')"
    using maxIterations_ge[of r] it
    by (subst runLoop_def, subst mainLoop.simps) (simp add: frontier_seed)
  show ?thesis
    using trace_of_immediate_find[OF loop ph ck pa cl rx]
    unfolding buildTrace_def r_def[symmetric] k2 k3 .
qed

subsection \<open>A small run, step by step\<close>

text \<open>
  Three nodes, edges from \<open>A\<close> to \<open>B\<close> (cost 1) and to \<open>C\<close> (cost 2); Dijkstra from
  \<open>A\<close> to \<open>B\<close>.
\<close>

definition exampleGraph :: Graph where
  "exampleGraph =
     \<lparr>directed = True,
      nodes = [\<lparr>node_id = ''A'', node_at = Coord 0 0, label = None, explanation = None\<rparr>,
               \<lparr>node_id = ''B'', node_at = Coord 1 0, label = None, explanation = None\<rparr>,
               \<lparr>node_id = ''C'', node_at = Coord 0 2, label = None, explanation = None\<rparr>],
      edges = [\<lparr>e_from = ''A'', e_to = ''B'', e_cost = 1\<rparr>,
               \<lparr>e_from = ''A'', e_to = ''C'', e_cost = 2\<rparr>]\<rparr>"

definition exampleEnv :: Environment where
  "exampleEnv =
     \<lparr>env_id = id_custom, env_name = ''example'', kind = kind_graph,
      grid = \<lparr>width = 0, height = 0, walls = {}\<rparr>, graph = exampleGraph,
      defaultStartKey = ''A'', defaultGoalKey = ''C'', explanationPoints = None\<rparr>"

definition exampleOpts :: "AlgorithmId \<Rightarrow> RunOptions" where
  "exampleOpts alg =
     \<lparr>environmentId = id_custom, algorithm = alg, heuristic = manhattan,
      heuristicWeight = 1, diagonal = False\<rparr>"

definition exRun :: Run where "exRun = runOf exampleEnv ''A'' ''B'' (exampleOpts dijkstra)"

lemma exRun_simps [simp]:
  "r_fk exRun = minheap" "r_alg exRun = dijkstra" "r_startKey exRun = ''A''" "r_goalKey exRun = ''B''"
  "r_isGrid exRun = False" "r_sizeBasis exRun = 3" "maxIterations exRun = 100"
  "heuristicWeight (r_options exRun) = 1" "heuristic (r_options exRun) = manhattan"
  "edgeCostMode (r_adapter exRun) = cost_weighted"
  "coordOfKey (r_adapter exRun) ''A'' = Coord 0 0"
  "coordOfKey (r_adapter exRun) ''B'' = Coord 1 0"
  "coordOfKey (r_adapter exRun) ''C'' = Coord 0 2"
  "neighbors (r_adapter exRun) ''A'' = [\<lparr>nb_key = ''B'', nb_cost = 1\<rparr>, \<lparr>nb_key = ''C'', nb_cost = 2\<rparr>]"
  by (simp_all add: exRun_def runOf_def r_fk_def r_alg_def exampleOpts_def exampleEnv_def exampleGraph_def
      sizeBasisOf_def maxIterations_def adapterOf_def nodeAt_def adjGet_adjacency edgeEntries_def)


lemma seed_ex:
  "v_heap (seed exRun) = [\<lparr>hn_id = ''A'', hn_value = makeItem (Coord 0 0) ''A'' dijkstra 0 1 0 1, hn_priority = 0\<rparr>]"
  "v_closed (seed exRun) = {}" "v_gScore (seed exRun) = [''A'' \<mapsto> 0]" "v_cameFrom (seed exRun) = Map.empty"
  "map s_phase (v_steps (seed exRun)) = [Init]"
  "map s_closed (v_steps (seed exRun)) = [{}]"
  "map (map_option (map candidate) \<circ> s_whyNot) (v_steps (seed exRun)) = [None]"
  "map (map_option fi_key \<circ> s_selected) (v_steps (seed exRun)) = [None]"
  "map s_path (v_steps (seed exRun)) = [None]"
  by (simp_all add: seed_def Let_def heuristicFn_def push_empty makeItem_def)

lemmas eval_rules = iteration_eq selectNext_def popFresh.simps pop_def push_def bubbleUp.simps bubbleDown.simps
  smallestOf_def expandNode_def expandStart_def expandWarnings_def visitNeighbor_eq relaxTo_def improves_def
  stepCostOf_def selectStep_def foundStep_def makeItem_def selectionReasonOf_def frontierToArray_def
  compareWhyNot_eq whyNotCandidates_def metricValue_def Let_def


definition itemOf :: "string \<Rightarrow> Coord \<Rightarrow> real \<Rightarrow> FrontierItem" where
  "itemOf k xc g = \<lparr>fi_key = k, fi_at = xc, fi_g = Some g, fi_h = None, fi_f = None,
                     fi_depth = None, fi_priority = Some g\<rparr>"

definition nodeOf :: "string \<Rightarrow> Coord \<Rightarrow> real \<Rightarrow> FrontierItem HeapNode" where
  "nodeOf k xc g = \<lparr>hn_id = k, hn_value = itemOf k xc g, hn_priority = g\<rparr>"

lemma it1:
  "\<exists>v1. iteration exRun (seed exRun) = Continue v1
     \<and> v_heap v1 = [nodeOf ''B'' (Coord 1 0) 1, nodeOf ''C'' (Coord 0 2) 2]
     \<and> v_closed v1 = {''A''}
     \<and> v_gScore v1 = [''A'' \<mapsto> 0, ''B'' \<mapsto> 1, ''C'' \<mapsto> 2]
     \<and> v_cameFrom v1 = [''B'' \<mapsto> ''A'', ''C'' \<mapsto> ''A'']
     \<and> map s_phase (v_steps v1) = [Init, Select, Expand, Relax, Enqueue, Relax, Enqueue]
     \<and> map s_closed (v_steps v1) = [{}, {}, {''A''}, {''A''}, {''A''}, {''A''}, {''A''}]
     \<and> map (map_option fi_key \<circ> s_selected) (v_steps v1)
           = [None, Some ''A'', Some ''A'', Some ''A'', Some ''A'', Some ''A'', Some ''A'']
     \<and> map (map_option (map candidate) \<circ> s_whyNot) (v_steps v1) = [None, Some [], None, None, None, None, None]
     \<and> map s_path (v_steps v1) = [None, None, None, None, None, None, None]"
  by (simp add: eval_rules seed_ex nodeOf_def itemOf_def)

lemma it2:
  assumes "v_heap v1 = [nodeOf ''B'' (Coord 1 0) 1, nodeOf ''C'' (Coord 0 2) 2]"
    "v_closed v1 = {''A''}"
    "v_gScore v1 = [''A'' \<mapsto> 0, ''B'' \<mapsto> 1, ''C'' \<mapsto> 2]"
    "v_cameFrom v1 = [''B'' \<mapsto> ''A'', ''C'' \<mapsto> ''A'']"
  shows "\<exists>w. iteration exRun v1 = Break w
     \<and> v_closed w = {''A''}
     \<and> v_steps w = v_steps v1 @ drop (length (v_steps v1)) (v_steps w)
     \<and> map s_phase (drop (length (v_steps v1)) (v_steps w)) = [Select, Found]
     \<and> map s_closed (drop (length (v_steps v1)) (v_steps w)) = [{''A''}, {''A''}]
     \<and> map (map_option fi_key \<circ> s_selected) (drop (length (v_steps v1)) (v_steps w)) = [Some ''B'', Some ''B'']
     \<and> map (map_option (map candidate) \<circ> s_whyNot) (drop (length (v_steps v1)) (v_steps w))
           = [Some [itemOf ''C'' (Coord 0 2) 2], None]
     \<and> map s_path (drop (length (v_steps v1)) (v_steps w)) = [None, Some [Coord 0 0, Coord 1 0]]"
  using assms
  by (simp add: eval_rules nodeOf_def itemOf_def reconstructPathCoords_def walkBack.simps)


lemma example_loop:
  "\<exists>w. runLoop exRun = Some (2, w)
     \<and> v_closed w = {''A''}
     \<and> map s_phase (v_steps w) = [Init, Select, Expand, Relax, Enqueue, Relax, Enqueue, Select, Found]
     \<and> map s_closed (v_steps w) = [{}, {}, {''A''}, {''A''}, {''A''}, {''A''}, {''A''}, {''A''}, {''A''}]
     \<and> map (map_option fi_key \<circ> s_selected) (v_steps w)
           = [None, Some ''A'', Some ''A'', Some ''A'', Some ''A'', Some ''A'', Some ''A'', Some ''B'', Some ''B'']
     \<and> map (map_option (map candidate) \<circ> s_whyNot) (v_steps w)
           = [None, Some [], None, None, None, None, None, Some [itemOf ''C'' (Coord 0 2) 2], None]
     \<and> map s_path (v_steps w)
           = [None, None, None, None, None, None, None, None, Some [Coord 0 0, Coord 1 0]]"
proof -
  from it1 obtain v1 where i1: "iteration exRun (seed exRun) = Continue v1"
    and h: "v_heap v1 = [nodeOf ''B'' (Coord 1 0) 1, nodeOf ''C'' (Coord 0 2) 2]"
    and c: "v_closed v1 = {''A''}"
    and g: "v_gScore v1 = [''A'' \<mapsto> 0, ''B'' \<mapsto> 1, ''C'' \<mapsto> 2]"
    and cf: "v_cameFrom v1 = [''B'' \<mapsto> ''A'', ''C'' \<mapsto> ''A'']"
    and p1: "map s_phase (v_steps v1) = [Init, Select, Expand, Relax, Enqueue, Relax, Enqueue]"
    and p2: "map s_closed (v_steps v1) = [{}, {}, {''A''}, {''A''}, {''A''}, {''A''}, {''A''}]"
    and p3: "map (map_option fi_key \<circ> s_selected) (v_steps v1)
           = [None, Some ''A'', Some ''A'', Some ''A'', Some ''A'', Some ''A'', Some ''A'']"
    and p4: "map (map_option (map candidate) \<circ> s_whyNot) (v_steps v1) = [None, Some [], None, None, None, None, None]"
    and p5: "map s_path (v_steps v1) = [None, None, None, None, None, None, None]"
    by (elim exE conjE)
  from it2[OF h c g cf] obtain w where i2: "iteration exRun v1 = Break w"
    and cw: "v_closed w = {''A''}"
    and sw: "v_steps w = v_steps v1 @ drop (length (v_steps v1)) (v_steps w)"
    and q1: "map s_phase (drop (length (v_steps v1)) (v_steps w)) = [Select, Found]"
    and q2: "map s_closed (drop (length (v_steps v1)) (v_steps w)) = [{''A''}, {''A''}]"
    and q3: "map (map_option fi_key \<circ> s_selected) (drop (length (v_steps v1)) (v_steps w)) = [Some ''B'', Some ''B'']"
    and q4: "map (map_option (map candidate) \<circ> s_whyNot) (drop (length (v_steps v1)) (v_steps w))
           = [Some [itemOf ''C'' (Coord 0 2) 2], None]"
    and q5: "map s_path (drop (length (v_steps v1)) (v_steps w)) = [None, Some [Coord 0 0, Coord 1 0]]"
    by (elim exE conjE)
  have f0: "frontierToArray (r_fk exRun) (seed exRun) \<noteq> []"
    by (simp add: frontierToArray_def seed_ex)
  have f1: "frontierToArray (r_fk exRun) v1 \<noteq> []"
    by (simp add: frontierToArray_def h)
  have "mainLoop exRun 1 v1 = Some (2, w)"
    using f1 i2 by (subst mainLoop.simps) simp
  then have "mainLoop exRun 0 (seed exRun) = Some (2, w)"
    using f0 i1 by (subst mainLoop.simps) simp
  then have rl: "runLoop exRun = Some (2, w)" by (simp add: runLoop_def)
  have mp: "map f (v_steps w) = map f (v_steps v1) @ map f (drop (length (v_steps v1)) (v_steps w))"
    for f :: "StepSnapshot \<Rightarrow> 'b"
    by (subst sw) (simp only: map_append)
  have r1: "map s_phase (v_steps w) = [Init, Select, Expand, Relax, Enqueue, Relax, Enqueue, Select, Found]"
    by (subst mp) (simp add: p1 q1)
  have r2: "map s_closed (v_steps w) = [{}, {}, {''A''}, {''A''}, {''A''}, {''A''}, {''A''}, {''A''}, {''A''}]"
    by (subst mp) (simp add: p2 q2)
  have r3: "map (map_option fi_key \<circ> s_selected) (v_steps w)
           = [None, Some ''A'', Some ''A'', Some ''A'', Some ''A'', Some ''A'', Some ''A'', Some ''B'', Some ''B'']"
    by (subst mp) (simp only: p3 q3 append.simps)
  have r4: "map (map_option (map candidate) \<circ> s_whyNot) (v_steps w)
           = [None, Some [], None, None, None, None, None, Some [itemOf ''C'' (Coord 0 2) 2], None]"
    by (subst mp) (simp only: p4 q4 append.simps)
  have r5: "map s_path (v_steps w)
           = [None, None, None, None, None, None, None, None, Some [Coord 0 0, Coord 1 0]]"
    by (subst mp) (simp add: p5 q5)
  show ?thesis using rl cw r1 r2 r3 r4 r5 by (intro exI[of _ w] conjI)
qed



lemma example_trace:
  "\<exists>t. buildTrace exampleEnv ''A'' ''B'' (exampleOpts dijkstra) = Some t
     \<and> map s_phase (t_steps t) = [Init, Select, Expand, Relax, Enqueue, Relax, Enqueue, Select, Found]
     \<and> map s_closed (t_steps t) = [{}, {}, {''A''}, {''A''}, {''A''}, {''A''}, {''A''}, {''A''}, {''A''}]
     \<and> map (map_option fi_key \<circ> s_selected) (t_steps t)
           = [None, Some ''A'', Some ''A'', Some ''A'', Some ''A'', Some ''A'', Some ''A'', Some ''B'', Some ''B'']
     \<and> map (map_option (map candidate) \<circ> s_whyNot) (t_steps t)
           = [None, Some [], None, None, None, None, None, Some [itemOf ''C'' (Coord 0 2) 2], None]
     \<and> explored (t_metrics t) = 1"
proof -
  from example_loop obtain w where rl: "runLoop exRun = Some (2, w)"
    and cw: "v_closed w = {''A''}"
    and r1: "map s_phase (v_steps w) = [Init, Select, Expand, Relax, Enqueue, Relax, Enqueue, Select, Found]"
    and r2: "map s_closed (v_steps w) = [{}, {}, {''A''}, {''A''}, {''A''}, {''A''}, {''A''}, {''A''}, {''A''}]"
    and r3: "map (map_option fi_key \<circ> s_selected) (v_steps w)
           = [None, Some ''A'', Some ''A'', Some ''A'', Some ''A'', Some ''A'', Some ''A'', Some ''B'', Some ''B'']"
    and r4: "map (map_option (map candidate) \<circ> s_whyNot) (v_steps w)
           = [None, Some [], None, None, None, None, None, Some [itemOf ''C'' (Coord 0 2) 2], None]"
    by (elim exE conjE)
  have bt: "buildTrace exampleEnv ''A'' ''B'' (exampleOpts dijkstra) = Some (traceOf exRun w)"
    by (simp add: buildTrace_def runTrace_def exRun_def[symmetric] rl)
  have st: "t_steps (traceOf exRun w) = v_steps w" by (simp add: traceOf_def Let_def)
  have ex: "explored (t_metrics (traceOf exRun w)) = 1" by (simp add: traceOf_def Let_def cw)
  show ?thesis
    by (intro exI[of _ "traceOf exRun w"] conjI) (simp_all only: bt st r1 r2 r3 r4 ex)
qed

subsection \<open>From the loop to the trace\<close>

lemma buildTrace_runLoop:
  "\<exists>m w. runLoop (runOf env startKey goalKey opts) = Some (m, w)
       \<and> buildTrace env startKey goalKey opts = Some (traceOf (runOf env startKey goalKey opts) w)"
  using runLoop_total[of "runOf env startKey goalKey opts"]
  by (auto simp: buildTrace_def runTrace_def)

lemma traceOf_steps [simp]: "t_steps (traceOf r w) = v_steps w"
  by (simp add: traceOf_def Let_def)

lemma stepsFacts_no_reselect:
  assumes "stepsFacts r w" "i < length (v_steps w)" "j \<le> i" "s_phase (v_steps w ! i) = Select"
  shows "\<exists>sel. s_selected (v_steps w ! i) = Some sel
            \<and> s_currentKey (v_steps w ! i) = Some (fi_key sel)
            \<and> fi_key sel \<notin> s_closed (v_steps w ! j)"
proof -
  have sw: "sorted_wrt (\<lambda>a b. s_closed a \<subseteq> s_closed b) (v_steps w)"
    and ok: "selectOK r (v_steps w ! i)"
    using assms(1,2,4) by (auto simp: stepsFacts_def)
  have sub: "s_closed (v_steps w ! j) \<subseteq> s_closed (v_steps w ! i)"
  proof (cases "j = i")
    case True then show ?thesis by simp
  next
    case False
    then have "j < i" using assms(3) by simp
    then show ?thesis using sorted_wrt_nth_less[OF sw _ assms(2)] by simp
  qed
  from ok obtain sel where "s_selected (v_steps w ! i) = Some sel"
    "s_currentKey (v_steps w ! i) = Some (fi_key sel)" "fi_key sel \<notin> s_closed (v_steps w ! i)"
    by (auto simp: selectOK_def)
  then show ?thesis using sub by blast
qed


lemma map_eq_nthD: "map f xs = ys \<Longrightarrow> i < length ys \<Longrightarrow> i < length xs \<and> f (xs ! i) = ys ! i"
  by auto

lemma maxIterations_runOf:
  "maxIterations (runOf env startKey goalKey opts) =
     max 100 (min ((if kind env = kind_grid then width (grid env) * height (grid env)
                    else int (length (nodes (graph env)))) * 20) 10000)"
  by (simp add: maxIterations_def runOf_def sizeBasisOf_def)

lemma exhaustedStep_steps:
  "v_steps (exhaustedStep r v) =
     v_steps v @ [snapshotOf (r_fk r) ((partialOf Exhausted None)\<lparr>p_warnings := Some [capWarning]\<rparr>) v]"
  by (simp add: exhaustedStep_def)

lemma traceOf_found: "t_found (traceOf r w) = (\<exists>s \<in> set (v_steps w). s_phase s = Found)"
  by (simp add: traceOf_def Let_def list_ex_iff)

subsection \<open>The why-not list, in the words of the specification\<close>

text \<open>
  \<open>whyNotSpec\<close> follows the words of the specification: of the frontier items other than
  the chosen one, leave out those whose value ties the chosen value, sort the rest
  ascending by the metric and take up to four. \<open>fourLeast\<close> and \<open>tiesAmongLeast\<close> describe
  what \<^verbatim>\<open>compareWhyNot\<close> cuts first: the four least other items, ties included, and the
  number of ties among them.
\<close>

definition otherItems :: "FrontierItem list \<Rightarrow> FrontierItem \<Rightarrow> FrontierItem list" where
  "otherItems frontier chosenItem = filter (\<lambda>x. fi_key x \<noteq> fi_key chosenItem) frontier"

definition tiesChosen :: "Metric \<Rightarrow> FrontierItem \<Rightarrow> FrontierItem \<Rightarrow> bool" where
  "tiesChosen m chosenItem x = (metricValue m x = metricValue m chosenItem)"

definition rejectionOf :: "FrontierItem \<Rightarrow> Metric \<Rightarrow> FrontierItem \<Rightarrow> RejectionReason" where
  "rejectionOf chosenItem m x =
     \<lparr>candidate = x, chosen = chosenItem, metric = m,
      candidateValue = metricValue m x, chosenValue = metricValue m chosenItem\<rparr>"

definition whyNotSpec :: "FrontierItem list \<Rightarrow> FrontierItem \<Rightarrow> Metric \<Rightarrow> RejectionReason list" where
  "whyNotSpec frontier chosenItem m =
     map (rejectionOf chosenItem m)
       (take 4 (sort_key (metricValue m)
          (filter (\<lambda>x. \<not> tiesChosen m chosenItem x) (otherItems frontier chosenItem))))"

definition fourLeast :: "FrontierItem list \<Rightarrow> FrontierItem \<Rightarrow> Metric \<Rightarrow> FrontierItem list" where
  "fourLeast frontier chosenItem m = take 4 (sort_key (metricValue m) (otherItems frontier chosenItem))"

definition tiesAmongLeast :: "FrontierItem list \<Rightarrow> FrontierItem \<Rightarrow> Metric \<Rightarrow> nat" where
  "tiesAmongLeast frontier chosenItem m =
     length (filter (tiesChosen m chosenItem) (fourLeast frontier chosenItem m))"

lemma compareWhyNot_fourLeast:
  "compareWhyNot frontier c m =
     map (rejectionOf c m) (filter (\<lambda>x. \<not> tiesChosen m c x) (fourLeast frontier c m))"
  by (simp add: compareWhyNot_eq whyNotCandidates_def fourLeast_def otherItems_def tiesChosen_def
      rejectionOf_def[abs_def])

lemma filter_take_prefix:
  "filter P (take n xs) = take (length (filter P (take n xs))) (filter P xs)"
proof -
  have "filter P xs = filter P (take n xs) @ filter P (drop n xs)"
    by (simp flip: filter_append)
  then show ?thesis by simp
qed

lemma length_filter_split: "length (filter P xs) + length (filter (\<lambda>x. \<not> P x) xs) = length xs"
  by (induction xs) auto

lemma compareWhyNot_prefix:
  "compareWhyNot frontier c m = take (4 - tiesAmongLeast frontier c m) (whyNotSpec frontier c m)"
proof -
  let ?S = "sort_key (metricValue m) (otherItems frontier c)"
  let ?U = "filter (\<lambda>x. \<not> tiesChosen m c x) ?S"
  let ?F = "take 4 ?S"
  let ?k = "length (filter (\<lambda>x. \<not> tiesChosen m c x) ?F)"
  let ?t = "length (filter (tiesChosen m c) ?F)"
  have U: "?U = sort_key (metricValue m) (filter (\<lambda>x. \<not> tiesChosen m c x) (otherItems frontier c))"
    by (rule filter_sort)
  have kt: "?t + ?k = length ?F" by (rule length_filter_split)
  have k4: "?k \<le> 4" using kt by simp
  have a: "filter (\<lambda>x. \<not> tiesChosen m c x) ?F = take ?k ?U" by (rule filter_take_prefix)
  have b: "take ?k ?U = take (4 - ?t) ?U"
  proof (cases "4 \<le> length ?S")
    case True
    then have "length ?F = 4" by simp
    then have "?k = 4 - ?t" using kt by simp
    then show ?thesis by simp
  next
    case False
    then have F: "?F = ?S" by simp
    have "length ?U = ?k" by (simp add: F)
    moreover have "length ?U \<le> 4 - ?t" using kt False by (simp add: F)
    ultimately show ?thesis by simp
  qed
  note ab = trans[OF a b]
  have "compareWhyNot frontier c m = map (rejectionOf c m) (take (4 - ?t) ?U)"
    unfolding compareWhyNot_fourLeast fourLeast_def by (rule arg_cong[OF ab])
  also have "\<dots> = take (4 - ?t) (map (rejectionOf c m) (take 4 ?U))"
    by (simp add: take_map min_def)
  finally show ?thesis
    by (simp add: whyNotSpec_def tiesAmongLeast_def fourLeast_def U)
qed

lemma compareWhyNot_drop_chosen: "compareWhyNot (sel # frontier) sel m = compareWhyNot frontier sel m"
  by (simp add: compareWhyNot_eq whyNotCandidates_def)

lemma selectOK_whyNot:
  assumes "selectOK r s"
  shows "\<exists>sel. s_selected s = Some sel
      \<and> (if r_fk r = minheap
          then s_whyNot s = Some (compareWhyNot (s_frontier s) sel (if r_alg r = dijkstra then metric_g else metric_f))
          else s_whyNot s = None)"
  using assms by (auto simp: selectOK_def compareWhyNot_drop_chosen)

subsection \<open>A run that meets the iteration cap\<close>

text \<open>
  A directed chain of 102 keys \<open>a\<close>, \<open>aa\<close>, \<open>aaa\<close>, ... with an empty node list, so that
  \<open>sizeBasis = 0\<close> and the cap is 100; breadth-first search from \<open>a\<close> for a goal \<open>z\<close> that
  is not there.
\<close>

definition chainKey :: "nat \<Rightarrow> string" where
  "chainKey i = replicate (Suc i) CHR ''a''"

definition chainGraph :: Graph where
  "chainGraph =
     \<lparr>directed = True, nodes = [],
      edges = map (\<lambda>i. \<lparr>e_from = chainKey i, e_to = chainKey (Suc i), e_cost = 1\<rparr>) [0..<101]\<rparr>"

definition chainEnv :: Environment where
  "chainEnv =
     \<lparr>env_id = id_custom, env_name = ''chain'', kind = kind_graph,
      grid = \<lparr>width = 0, height = 0, walls = {}\<rparr>, graph = chainGraph,
      defaultStartKey = ''a'', defaultGoalKey = ''z'', explanationPoints = None\<rparr>"

definition chainOpts :: RunOptions where
  "chainOpts = \<lparr>environmentId = id_custom, algorithm = bfs, heuristic = manhattan,
                 heuristicWeight = 1, diagonal = False\<rparr>"

definition chainRun :: Run where
  "chainRun = runOf chainEnv ''a'' ''z'' chainOpts"

lemma chainKey_inj [simp]: "chainKey i = chainKey j \<longleftrightarrow> i = j"
proof
  assume "chainKey i = chainKey j"
  then have "length (chainKey i) = length (chainKey j)" by simp
  then show "i = j" by (simp add: chainKey_def)
qed simp

lemma chainKey_not_goal [simp]: "chainKey i \<noteq> ''z''"
  by (simp add: chainKey_def)

lemma concat_single:
  "concat (map (\<lambda>i. if i = n then [f i] else []) [a..<b]) = (if a \<le> n \<and> n < b then [f n] else [])"
  by (induction b) auto

lemma chain_neighbors:
  assumes "n < 101"
  shows "neighbors (r_adapter chainRun) (chainKey n) = [\<lparr>nb_key = chainKey (Suc n), nb_cost = 1\<rparr>]"
proof -
  have "neighbors (r_adapter chainRun) (chainKey n)
      = concat (map (\<lambda>i. if i = n then [\<lparr>nb_key = chainKey (Suc i), nb_cost = 1\<rparr>] else []) [0..<101])"
    by (simp add: chainRun_def runOf_def chainEnv_def adapterOf_def adjGet_adjacency chainGraph_def
        edgeEntries_def comp_def del: upt_Suc cong: if_cong)
  then show ?thesis using assms by (simp only: concat_single) simp
qed

lemma chainRun_simps [simp]:
  "r_fk chainRun = queue" "r_alg chainRun = bfs" "r_startKey chainRun = ''a''" "r_goalKey chainRun = ''z''"
  "maxIterations chainRun = 100"
  by (simp_all add: chainRun_def runOf_def r_fk_def r_alg_def chainOpts_def chainEnv_def chainGraph_def
      sizeBasisOf_def maxIterations_def)

definition chainAt :: "nat \<Rightarrow> Locals \<Rightarrow> bool" where
  "chainAt n v =
     (\<exists>it. v_queue v = [it] \<and> fi_key it = chainKey n
        \<and> v_closed v = chainKey ` {..<n} \<and> v_visited v = chainKey ` {..n})"

lemma chainAt_seed: "chainAt 0 (seed chainRun)"
  by (simp add: chainAt_def seed_def Let_def chainKey_def)

lemma chainAt_step:
  assumes "chainAt n v" "n < 101"
  shows "\<exists>v'. iteration chainRun v = Continue v' \<and> chainAt (Suc n) v'"
proof -
  from assms(1) obtain it where q: "v_queue v = [it]" and k: "fi_key it = chainKey n"
    and c: "v_closed v = chainKey ` {..<n}" and vi: "v_visited v = chainKey ` {..n}"
    by (auto simp: chainAt_def)
  have sel: "selectNext queue v = (Some it, v\<lparr>v_queue := []\<rparr>)" by (simp add: selectNext_def q)
  have notcl: "chainKey n \<notin> chainKey ` {..<n}" by auto
  have nb1: "chainKey (Suc n) \<notin> insert (chainKey n) (chainKey ` {..<n})" by auto
  have nb2: "chainKey (Suc n) \<notin> chainKey ` {..n}" by auto
  have s1: "{..<Suc n} = insert n {..<n}" and s2: "{..Suc n} = insert (Suc n) {..n}" by auto
  show ?thesis
    using notcl nb1 nb2
    by (simp add: iteration_eq sel k c vi expandNode_def chain_neighbors[OF assms(2)]
        visitNeighbor_eq chainAt_def discover_def pushFrontier_def s1 s2)
qed

lemma chain_loop:
  assumes "chainAt n v" "n \<le> 100"
  shows "\<exists>w. mainLoop chainRun n v = Some (101, w)"
  using assms
proof (induction "100 - n" arbitrary: n v)
  case 0
  then have n: "n = 100" by simp
  have "frontierToArray queue v \<noteq> []" using "0.prems"(1) by (auto simp: chainAt_def frontierToArray_def)
  then show ?case unfolding n by (subst mainLoop.simps) simp
next
  case (Suc d)
  then have n: "n < 100" by simp
  from chainAt_step[OF Suc.prems(1)] n obtain v' where it: "iteration chainRun v = Continue v'"
    and at: "chainAt (Suc n) v'" by auto
  have ne: "frontierToArray queue v \<noteq> []" using Suc.prems(1) by (auto simp: chainAt_def frontierToArray_def)
  have "mainLoop chainRun n v = mainLoop chainRun (n + 1) v'"
    using ne n it by (subst mainLoop.simps) simp
  moreover have "\<exists>w. mainLoop chainRun (Suc n) v' = Some (101, w)"
    using Suc.hyps(1)[of "Suc n" v'] Suc.hyps(2) at n by simp
  ultimately show ?case by simp
qed

lemma chain_runLoop: "\<exists>w. runLoop chainRun = Some (101, w)"
  unfolding runLoop_def by (rule chain_loop[OF chainAt_seed]) simp

subsection \<open>A run with a tie on the frontier\<close>

text \<open>
  Six edges from \<open>S\<close>: to \<open>A\<close> and \<open>B\<close> (cost 1), \<open>C\<close> (2), \<open>D\<close> (3), \<open>E\<close> (4), \<open>F\<close> (5);
  Dijkstra from \<open>S\<close> to \<open>A\<close>. When \<open>A\<close> is selected, \<open>B\<close> ties with it.
\<close>

definition tieGraph :: Graph where
  "tieGraph =
     \<lparr>directed = True, nodes = [],
      edges = [\<lparr>e_from = ''S'', e_to = ''A'', e_cost = 1\<rparr>,
               \<lparr>e_from = ''S'', e_to = ''B'', e_cost = 1\<rparr>,
               \<lparr>e_from = ''S'', e_to = ''C'', e_cost = 2\<rparr>,
               \<lparr>e_from = ''S'', e_to = ''D'', e_cost = 3\<rparr>,
               \<lparr>e_from = ''S'', e_to = ''E'', e_cost = 4\<rparr>,
               \<lparr>e_from = ''S'', e_to = ''F'', e_cost = 5\<rparr>]\<rparr>"

definition tieEnv :: Environment where
  "tieEnv =
     \<lparr>env_id = id_custom, env_name = ''tie'', kind = kind_graph,
      grid = \<lparr>width = 0, height = 0, walls = {}\<rparr>, graph = tieGraph,
      defaultStartKey = ''S'', defaultGoalKey = ''A'', explanationPoints = None\<rparr>"

definition tieRun :: Run where "tieRun = runOf tieEnv ''S'' ''A'' (exampleOpts dijkstra)"

lemma tieRun_simps [simp]:
  "r_fk tieRun = minheap" "r_alg tieRun = dijkstra" "r_startKey tieRun = ''S''" "r_goalKey tieRun = ''A''"
  "r_isGrid tieRun = False" "r_sizeBasis tieRun = 0" "maxIterations tieRun = 100"
  "heuristicWeight (r_options tieRun) = 1" "heuristic (r_options tieRun) = manhattan"
  "edgeCostMode (r_adapter tieRun) = cost_weighted"
  "coordOfKey (r_adapter tieRun) k = Coord 0 0"
  "neighbors (r_adapter tieRun) ''S'' =
     [\<lparr>nb_key = ''A'', nb_cost = 1\<rparr>, \<lparr>nb_key = ''B'', nb_cost = 1\<rparr>, \<lparr>nb_key = ''C'', nb_cost = 2\<rparr>,
      \<lparr>nb_key = ''D'', nb_cost = 3\<rparr>, \<lparr>nb_key = ''E'', nb_cost = 4\<rparr>, \<lparr>nb_key = ''F'', nb_cost = 5\<rparr>]"
  by (simp_all add: tieRun_def runOf_def r_fk_def r_alg_def exampleOpts_def tieEnv_def tieGraph_def
      sizeBasisOf_def maxIterations_def adapterOf_def nodeAt_def adjGet_adjacency edgeEntries_def)

abbreviation tieItem :: "string \<Rightarrow> real \<Rightarrow> FrontierItem" where
  "tieItem k g \<equiv> itemOf k (Coord 0 0) g"

abbreviation tieNode :: "string \<Rightarrow> real \<Rightarrow> FrontierItem HeapNode" where
  "tieNode k g \<equiv> nodeOf k (Coord 0 0) g"

lemma seed_tie:
  "v_heap (seed tieRun) = [tieNode ''S'' 0]"
  "v_closed (seed tieRun) = {}" "v_gScore (seed tieRun) = [''S'' \<mapsto> 0]" "v_cameFrom (seed tieRun) = Map.empty"
  by (simp_all add: seed_def Let_def heuristicFn_def push_empty makeItem_def nodeOf_def itemOf_def)

lemma tie_it1:
  "\<exists>v1. iteration tieRun (seed tieRun) = Continue v1
     \<and> v_heap v1 = [tieNode ''A'' 1, tieNode ''B'' 1, tieNode ''C'' 2, tieNode ''D'' 3,
                     tieNode ''E'' 4, tieNode ''F'' 5]
     \<and> v_closed v1 = {''S''}
     \<and> v_gScore v1 ''A'' = Some 1
     \<and> v_cameFrom v1 ''A'' = Some ''S''"
  by (simp add: eval_rules seed_tie nodeOf_def itemOf_def)

lemma tie_it2:
  assumes "v_heap v1 = [tieNode ''A'' 1, tieNode ''B'' 1, tieNode ''C'' 2, tieNode ''D'' 3,
                     tieNode ''E'' 4, tieNode ''F'' 5]"
    "v_closed v1 = {''S''}" "v_gScore v1 ''A'' = Some 1" "v_cameFrom v1 ''A'' = Some ''S''"
  shows "\<exists>w s f. iteration tieRun v1 = Break w
     \<and> v_steps w = v_steps v1 @ [s, f]
     \<and> s_phase s = Select
     \<and> s_selected s = Some (tieItem ''A'' 1)
     \<and> s_frontier s = [tieItem ''B'' 1, tieItem ''D'' 3, tieItem ''C'' 2, tieItem ''F'' 5, tieItem ''E'' 4]
     \<and> s_whyNot s = Some (map (rejectionOf (tieItem ''A'' 1) metric_g)
                             [tieItem ''C'' 2, tieItem ''D'' 3, tieItem ''E'' 4])"
  using assms
  by (simp add: eval_rules nodeOf_def itemOf_def reconstructPathCoords_def walkBack.simps rejectionOf_def)

lemma tie_spec:
  "whyNotSpec [tieItem ''B'' 1, tieItem ''D'' 3, tieItem ''C'' 2, tieItem ''F'' 5, tieItem ''E'' 4]
      (tieItem ''A'' 1) metric_g
   = map (rejectionOf (tieItem ''A'' 1) metric_g)
       [tieItem ''C'' 2, tieItem ''D'' 3, tieItem ''E'' 4, tieItem ''F'' 5]"
  by (simp add: whyNotSpec_def otherItems_def tiesChosen_def itemOf_def metricValue_def)

lemma tie_trace:
  "\<exists>t s. buildTrace tieEnv ''S'' ''A'' (exampleOpts dijkstra) = Some t
     \<and> s \<in> set (t_steps t)
     \<and> s_phase s = Select
     \<and> s_selected s = Some (tieItem ''A'' 1)
     \<and> s_frontier s = [tieItem ''B'' 1, tieItem ''D'' 3, tieItem ''C'' 2, tieItem ''F'' 5, tieItem ''E'' 4]
     \<and> s_whyNot s = Some (map (rejectionOf (tieItem ''A'' 1) metric_g)
                             [tieItem ''C'' 2, tieItem ''D'' 3, tieItem ''E'' 4])"
proof -
  from tie_it1 obtain v1 where i1: "iteration tieRun (seed tieRun) = Continue v1"
    and h: "v_heap v1 = [tieNode ''A'' 1, tieNode ''B'' 1, tieNode ''C'' 2, tieNode ''D'' 3,
                     tieNode ''E'' 4, tieNode ''F'' 5]"
    and c: "v_closed v1 = {''S''}" and g: "v_gScore v1 ''A'' = Some 1"
    and cf: "v_cameFrom v1 ''A'' = Some ''S''"
    by (elim exE conjE)
  from tie_it2[OF h c g cf] obtain w s f where i2: "iteration tieRun v1 = Break w"
    and sw: "v_steps w = v_steps v1 @ [s, f]"
    and s: "s_phase s = Select" "s_selected s = Some (tieItem ''A'' 1)"
      "s_frontier s = [tieItem ''B'' 1, tieItem ''D'' 3, tieItem ''C'' 2, tieItem ''F'' 5, tieItem ''E'' 4]"
      "s_whyNot s = Some (map (rejectionOf (tieItem ''A'' 1) metric_g)
                             [tieItem ''C'' 2, tieItem ''D'' 3, tieItem ''E'' 4])"
    by (elim exE conjE)
  have f0: "frontierToArray (r_fk tieRun) (seed tieRun) \<noteq> []"
    by (simp add: frontierToArray_def seed_tie)
  have f1: "frontierToArray (r_fk tieRun) v1 \<noteq> []"
    by (simp add: frontierToArray_def h)
  have "mainLoop tieRun 1 v1 = Some (2, w)"
    using f1 i2 by (subst mainLoop.simps) simp
  then have "mainLoop tieRun 0 (seed tieRun) = Some (2, w)"
    using f0 i1 by (subst mainLoop.simps) simp
  then have rl: "runLoop tieRun = Some (2, w)" by (simp add: runLoop_def)
  have bt: "buildTrace tieEnv ''S'' ''A'' (exampleOpts dijkstra) = Some (traceOf tieRun w)"
    by (simp add: buildTrace_def runTrace_def tieRun_def[symmetric] rl)
  have mem: "s \<in> set (t_steps (traceOf tieRun w))" by (simp add: sw)
  show ?thesis using bt mem s by (intro exI[of _ "traceOf tieRun w"] exI[of _ s] conjI)
qed

section \<open>The memory of a run: who shares what\<close>

text \<open>
  The engine above passes values; whether a snapshot shares an object with the working
  state cannot be said there. Here the objects of one call of \<^verbatim>\<open>buildTrace\<close> live in a
  store, at addresses. The working objects (\<^verbatim>\<open>visited\<close>, \<^verbatim>\<open>closed\<close>, \<^verbatim>\<open>cameFrom\<close>,
  \<^verbatim>\<open>gScore\<close>, \<^verbatim>\<open>queue\<close>, \<^verbatim>\<open>stack\<close> and the array of \<^verbatim>\<open>heap\<close>) are created once, and their
  variables are \<^verbatim>\<open>const\<close>: their addresses are fixed. A snapshot holds five addresses.
  The frontier items, the path and the why-not list of a snapshot are never written
  after their creation and are left as values.
\<close>

datatype Obj =
    KeySet "string set"
  | ParentMap "string \<rightharpoonup> string"
  | CostMap "string \<rightharpoonup> real"
  | ItemArray "FrontierItem list"
  | NodeArray "FrontierItem HeapNode list"

record WorkingRefs =
  w_visited :: nat
  w_closed :: nat
  w_cameFrom :: nat
  w_gScore :: nat
  w_queue :: nat
  w_stack :: nat
  w_heapArr :: nat

record SnapshotRefs =
  ref_frontier :: nat
  ref_visited :: nat
  ref_closed :: nat
  ref_cameFrom :: nat
  ref_gScore :: nat

record EngineMem =
  cells :: "nat \<Rightarrow> Obj"
  nextFree :: nat
  emitted :: "SnapshotRefs list"

definition workingAddrs :: "WorkingRefs \<Rightarrow> nat set" where
  "workingAddrs W = {w_visited W, w_closed W, w_cameFrom W, w_gScore W, w_queue W, w_stack W, w_heapArr W}"

definition refsOf :: "SnapshotRefs \<Rightarrow> nat set" where
  "refsOf s = {ref_frontier s, ref_visited s, ref_closed s, ref_cameFrom s, ref_gScore s}"

text \<open>\<^verbatim>\<open>frontierToArray()\<close>: a new array in each of its three branches.\<close>

definition frontierCopy :: "WorkingRefs \<Rightarrow> FrontierKind \<Rightarrow> EngineMem \<Rightarrow> Obj" where
  "frontierCopy W fk m =
     (if fk = queue then (case cells m (w_queue W) of ItemArray q \<Rightarrow> ItemArray q | _ \<Rightarrow> ItemArray [])
      else if fk = stack then (case cells m (w_stack W) of ItemArray q \<Rightarrow> ItemArray q | _ \<Rightarrow> ItemArray [])
      else (case cells m (w_heapArr W) of NodeArray h \<Rightarrow> ItemArray (map hn_value h) | _ \<Rightarrow> ItemArray []))"

text \<open>
  \<^verbatim>\<open>pushStep\<close>: the frontier array, \<^verbatim>\<open>new Set(visited)\<close>, \<^verbatim>\<open>new Set(closed)\<close>,
  \<^verbatim>\<open>new Map(cameFrom)\<close> and \<^verbatim>\<open>new Map(gScore)\<close> are five allocations, and \<^verbatim>\<open>steps.push\<close>.
\<close>

definition pushStepMem :: "WorkingRefs \<Rightarrow> FrontierKind \<Rightarrow> EngineMem \<Rightarrow> EngineMem" where
  "pushStepMem W fk m =
     (let a = nextFree m in
      m\<lparr>cells := (cells m)
            (a := frontierCopy W fk m,
             a + 1 := cells m (w_visited W),
             a + 2 := cells m (w_closed W),
             a + 3 := cells m (w_cameFrom W),
             a + 4 := cells m (w_gScore W)),
        nextFree := a + 5,
        emitted := emitted m @ [\<lparr>ref_frontier = a, ref_visited = a + 1, ref_closed = a + 2,
                                 ref_cameFrom = a + 3, ref_gScore = a + 4\<rparr>]\<rparr>)"

text \<open>
  One step of memory: every statement of \<^verbatim>\<open>buildTrace\<close> that writes to memory, once its
  working objects exist. In order: \<^verbatim>\<open>visited.add\<close> (lines 211, 395, 441), \<^verbatim>\<open>closed.add\<close>
  (335), \<^verbatim>\<open>cameFrom.set\<close> (396, 439), \<^verbatim>\<open>gScore.set\<close> (212, 440), \<^verbatim>\<open>queue.push\<close> (222,
  420), \<^verbatim>\<open>queue.shift\<close> (262), \<^verbatim>\<open>stack.push\<close> (223, 421), \<^verbatim>\<open>stack.pop\<close> (263),
  \<^verbatim>\<open>heap.push\<close> (224, 470), \<^verbatim>\<open>heap.pop\<close> (267), a call of \<^verbatim>\<open>frontierToArray\<close> whose
  result is dropped (245, 296, 345, 498), and \<^verbatim>\<open>pushStep\<close>. A run of \<^verbatim>\<open>buildTrace\<close> is a
  sequence of such steps.
\<close>

inductive memStep :: "WorkingRefs \<Rightarrow> FrontierKind \<Rightarrow> EngineMem \<Rightarrow> EngineMem \<Rightarrow> bool"
  for W :: WorkingRefs and fk :: FrontierKind where
  visited_add:
    "cells m (w_visited W) = KeySet S \<Longrightarrow>
     memStep W fk m (m\<lparr>cells := (cells m)(w_visited W := KeySet (insert k S))\<rparr>)"
| closed_add:
    "cells m (w_closed W) = KeySet S \<Longrightarrow>
     memStep W fk m (m\<lparr>cells := (cells m)(w_closed W := KeySet (insert k S))\<rparr>)"
| cameFrom_set:
    "cells m (w_cameFrom W) = ParentMap cf \<Longrightarrow>
     memStep W fk m (m\<lparr>cells := (cells m)(w_cameFrom W := ParentMap (cf(k \<mapsto> p)))\<rparr>)"
| gScore_set:
    "cells m (w_gScore W) = CostMap gs \<Longrightarrow>
     memStep W fk m (m\<lparr>cells := (cells m)(w_gScore W := CostMap (gs(k \<mapsto> g)))\<rparr>)"
| queue_push:
    "cells m (w_queue W) = ItemArray q \<Longrightarrow>
     memStep W fk m (m\<lparr>cells := (cells m)(w_queue W := ItemArray (q @ [it]))\<rparr>)"
| queue_shift:
    "cells m (w_queue W) = ItemArray q \<Longrightarrow>
     memStep W fk m (m\<lparr>cells := (cells m)(w_queue W := ItemArray (tl q))\<rparr>)"
| stack_push:
    "cells m (w_stack W) = ItemArray q \<Longrightarrow>
     memStep W fk m (m\<lparr>cells := (cells m)(w_stack W := ItemArray (q @ [it]))\<rparr>)"
| stack_pop:
    "cells m (w_stack W) = ItemArray q \<Longrightarrow>
     memStep W fk m (m\<lparr>cells := (cells m)(w_stack W := ItemArray (butlast q))\<rparr>)"
| heap_push:
    "cells m (w_heapArr W) = NodeArray h \<Longrightarrow>
     memStep W fk m (m\<lparr>cells := (cells m)(w_heapArr W := NodeArray (push h n))\<rparr>)"
| heap_pop:
    "cells m (w_heapArr W) = NodeArray h \<Longrightarrow>
     memStep W fk m (m\<lparr>cells := (cells m)(w_heapArr W := NodeArray (snd (pop h)))\<rparr>)"
| frontier_read:
    "memStep W fk m (m\<lparr>cells := (cells m)(nextFree m := frontierCopy W fk m),
                        nextFree := nextFree m + 1\<rparr>)"
| push_step:
    "memStep W fk m (pushStepMem W fk m)"

text \<open>The state in which the loop starts: the working objects exist, at different addresses.\<close>

definition memOK :: "WorkingRefs \<Rightarrow> EngineMem \<Rightarrow> bool" where
  "memOK W m =
     ((\<forall>a \<in> workingAddrs W. a < nextFree m)
      \<and> (\<forall>s \<in> set (emitted m). \<forall>a \<in> refsOf s. a < nextFree m \<and> a \<notin> workingAddrs W))"

lemma memStep_frame:
  assumes "memStep W fk m m'" "memOK W m"
  shows "memOK W m'
       \<and> nextFree m \<le> nextFree m'
       \<and> (\<exists>new. emitted m' = emitted m @ new)
       \<and> (\<forall>a. a < nextFree m \<and> a \<notin> workingAddrs W \<longrightarrow> cells m' a = cells m a)"
  using assms
proof (induction rule: memStep.induct)
  case (frontier_read m)
  then show ?case by (auto simp: memOK_def intro: less_SucI)
next
  case (push_step m)
  have "memOK W (pushStepMem W fk m)"
    using push_step
    by (auto simp: memOK_def pushStepMem_def Let_def refsOf_def workingAddrs_def intro: less_SucI trans_less_add1)
  then show ?case by (auto simp: pushStepMem_def Let_def)
qed (auto simp: memOK_def workingAddrs_def)

lemma memSteps_frame:
  assumes "(memStep W fk)\<^sup>*\<^sup>* m m'" "memOK W m"
  shows "memOK W m'
       \<and> nextFree m \<le> nextFree m'
       \<and> (\<exists>new. emitted m' = emitted m @ new)
       \<and> (\<forall>a. a < nextFree m \<and> a \<notin> workingAddrs W \<longrightarrow> cells m' a = cells m a)"
  using assms
proof (induction rule: rtranclp_induct)
  case base
  then show ?case by simp
next
  case (step y z)
  from step.IH[OF step.prems] have ok: "memOK W y" and le: "nextFree m \<le> nextFree y"
    and em: "\<exists>new. emitted y = emitted m @ new"
    and fr: "\<forall>a. a < nextFree m \<and> a \<notin> workingAddrs W \<longrightarrow> cells y a = cells m a"
    by simp_all
  from memStep_frame[OF step.hyps(2) ok] have ok': "memOK W z" and le': "nextFree y \<le> nextFree z"
    and em': "\<exists>new. emitted z = emitted y @ new"
    and fr': "\<forall>a. a < nextFree y \<and> a \<notin> workingAddrs W \<longrightarrow> cells z a = cells y a"
    by simp_all
  have "\<exists>new. emitted z = emitted m @ new" using em em' by auto
  moreover have "\<forall>a. a < nextFree m \<and> a \<notin> workingAddrs W \<longrightarrow> cells z a = cells m a"
    using fr fr' le by auto
  ultimately show ?case using ok' le le' by simp
qed


text \<open>\<open>holds W m v\<close>: the working objects of the memory \<open>m\<close> hold the values of \<open>v\<close>.\<close>

definition holds :: "WorkingRefs \<Rightarrow> EngineMem \<Rightarrow> Locals \<Rightarrow> bool" where
  "holds W m v =
     (cells m (w_visited W) = KeySet (v_visited v)
      \<and> cells m (w_closed W) = KeySet (v_closed v)
      \<and> cells m (w_cameFrom W) = ParentMap (v_cameFrom v)
      \<and> cells m (w_gScore W) = CostMap (v_gScore v)
      \<and> cells m (w_queue W) = ItemArray (v_queue v)
      \<and> cells m (w_stack W) = ItemArray (v_stack v)
      \<and> cells m (w_heapArr W) = NodeArray (v_heap v))"

lemma frontierCopy_holds: "holds W m v \<Longrightarrow> frontierCopy W fk m = ItemArray (frontierToArray fk v)"
  by (simp add: holds_def frontierCopy_def frontierToArray_def)

lemma pushStepMem_facts:
  fixes W :: WorkingRefs and fk :: FrontierKind and m :: EngineMem
  assumes "memOK W m"
  defines "s \<equiv> last (emitted (pushStepMem W fk m))"
  shows "memOK W (pushStepMem W fk m)"
    and "emitted (pushStepMem W fk m) = emitted m @ [s]"
    and "refsOf s \<inter> workingAddrs W = {}"
    and "\<forall>t \<in> set (emitted m). refsOf t \<inter> refsOf s = {}"
    and "\<forall>a \<in> refsOf s. a < nextFree (pushStepMem W fk m)"
    and "cells (pushStepMem W fk m) (ref_frontier s) = frontierCopy W fk m"
    and "cells (pushStepMem W fk m) (ref_visited s) = cells m (w_visited W)"
    and "cells (pushStepMem W fk m) (ref_closed s) = cells m (w_closed W)"
    and "cells (pushStepMem W fk m) (ref_cameFrom s) = cells m (w_cameFrom W)"
    and "cells (pushStepMem W fk m) (ref_gScore s) = cells m (w_gScore W)"
proof -
  have s: "s = \<lparr>ref_frontier = nextFree m, ref_visited = nextFree m + 1, ref_closed = nextFree m + 2,
                 ref_cameFrom = nextFree m + 3, ref_gScore = nextFree m + 4\<rparr>"
    by (simp add: s_def pushStepMem_def Let_def)
  show "memOK W (pushStepMem W fk m)"
    using memStep_frame[OF memStep.push_step assms(1)] by simp
  show "emitted (pushStepMem W fk m) = emitted m @ [s]"
    by (simp add: s pushStepMem_def Let_def)
  show "refsOf s \<inter> workingAddrs W = {}"
    using assms(1) by (auto simp: s refsOf_def memOK_def)
  show "\<forall>t \<in> set (emitted m). refsOf t \<inter> refsOf s = {}"
    using assms(1) by (fastforce simp: s refsOf_def memOK_def)
  show "\<forall>a \<in> refsOf s. a < nextFree (pushStepMem W fk m)"
    by (auto simp: s refsOf_def pushStepMem_def Let_def)
  show "cells (pushStepMem W fk m) (ref_frontier s) = frontierCopy W fk m"
    "cells (pushStepMem W fk m) (ref_visited s) = cells m (w_visited W)"
    "cells (pushStepMem W fk m) (ref_closed s) = cells m (w_closed W)"
    "cells (pushStepMem W fk m) (ref_cameFrom s) = cells m (w_cameFrom W)"
    "cells (pushStepMem W fk m) (ref_gScore s) = cells m (w_gScore W)"
    by (simp_all add: s pushStepMem_def Let_def)
qed

section \<open>A* with weight 0 against Dijkstra\<close>

text \<open>
  With weight 0 the priority \<open>g + 0 * h\<close> of A* is \<open>g\<close>, the priority of Dijkstra. The two
  runs then go in lockstep; their variables differ only in the fields \<open>h\<close> and \<open>f\<close> of the
  items and in what is computed from them (the selection reason and the why-not list).
\<close>

paragraph \<open>The heap looks at priorities only\<close>

lemma bubbleUp_map:
  assumes "\<And>n. hn_priority (e n) = hn_priority n" "i < length arr"
  shows "bubbleUp (map e arr) i = map e (bubbleUp arr i)"
  using assms(2)
proof (induction arr i rule: bubbleUp.induct)
  case (1 arr i)
  let ?p = "(i - 1) div 2"
  show ?case
  proof (cases "0 < i \<and> \<not> hn_priority (arr ! ?p) \<le> hn_priority (arr ! i)")
    case False
    then show ?thesis using "1.prems" assms(1)
      by (subst bubbleUp.simps, subst (2) bubbleUp.simps) (auto simp: Let_def)
  next
    case True
    then have p: "?p < length arr" "?p < i" using "1.prems" by auto
    have swap: "(map e arr)[?p := map e arr ! i, i := map e arr ! ?p]
                 = map e (arr[?p := arr ! i, i := arr ! ?p])"
      using p "1.prems" by (simp add: map_update)
    have "bubbleUp (map e arr) i = bubbleUp ((map e arr)[?p := map e arr ! i, i := map e arr ! ?p]) ?p"
      using True p "1.prems" assms(1) by (subst bubbleUp.simps) (simp add: Let_def)
    also have "\<dots> = map e (bubbleUp (arr[?p := arr ! i, i := arr ! ?p]) ?p)"
      unfolding swap using "1.IH"[of ?p] True p by simp
    also have "\<dots> = map e (bubbleUp arr i)"
      using True by (subst (2) bubbleUp.simps) (simp add: Let_def)
    finally show ?thesis .
  qed
qed

lemma smallestOf_map:
  assumes "\<And>n. hn_priority (e n) = hn_priority n"
  shows "smallestOf (map e arr) i = smallestOf arr i"
  using assms by (auto simp: smallestOf_def Let_def)

lemma bubbleDown_map:
  assumes "\<And>n. hn_priority (e n) = hn_priority n"
  shows "bubbleDown (map e arr) i = map e (bubbleDown arr i)"
proof (induction arr i rule: bubbleDown.induct)
  case (1 arr i)
  let ?s = "smallestOf arr i"
  show ?case
  proof (cases "?s = i")
    case True
    then show ?thesis
      by (subst bubbleDown.simps, subst (2) bubbleDown.simps) (simp add: Let_def smallestOf_map[OF assms])
  next
    case False
    then have s: "?s < length arr" "i < ?s" using smallestOf_cases[of arr i] by auto
    have swap: "(map e arr)[i := map e arr ! ?s, ?s := map e arr ! i]
                 = map e (arr[i := arr ! ?s, ?s := arr ! i])"
      using s by (simp add: map_update)
    have "bubbleDown (map e arr) i = bubbleDown ((map e arr)[i := map e arr ! ?s, ?s := map e arr ! i]) ?s"
      using False by (subst bubbleDown.simps) (simp add: Let_def smallestOf_map[OF assms])
    also have "\<dots> = map e (bubbleDown (arr[i := arr ! ?s, ?s := arr ! i]) ?s)"
      unfolding swap using "1.IH"[OF refl False] .
    also have "\<dots> = map e (bubbleDown arr i)"
      using False by (subst (2) bubbleDown.simps) (simp add: Let_def)
    finally show ?thesis .
  qed
qed

lemma push_map:
  assumes "\<And>n. hn_priority (e n) = hn_priority n"
  shows "push (map e arr) (e n) = map e (push arr n)"
  using bubbleUp_map[OF assms, of "length arr" "arr @ [n]"] by (simp add: push_def)

lemma pop_map:
  assumes "\<And>n. hn_priority (e n) = hn_priority n"
  shows "pop (map e arr) = (map_option e (fst (pop arr)), map e (snd (pop arr)))"
proof (cases "length arr \<le> 1")
  case True
  then have "arr = [] \<or> (\<exists>a. arr = [a])" by (cases arr) auto
  then show ?thesis by (auto simp: pop_def)
next
  case False
  then have ne: "arr \<noteq> []" "butlast arr \<noteq> []" by (cases arr; auto)+
  have "(butlast (map e arr))[0 := last (map e arr)] = map e ((butlast arr)[0 := last arr])"
    using ne by (simp add: map_butlast[symmetric] last_map map_update)
  moreover have "butlast (map e arr) = map e (butlast arr)" by (simp add: map_butlast)
  ultimately show ?thesis using ne False
    by (simp add: pop_def Let_def bubbleDown_map[OF assms] nth_map)
qed


paragraph \<open>Erasing what only A* records\<close>

definition eraseItem :: "FrontierItem \<Rightarrow> FrontierItem" where
  "eraseItem it = it\<lparr>fi_h := None, fi_f := None\<rparr>"

definition eraseNode :: "FrontierItem HeapNode \<Rightarrow> FrontierItem HeapNode" where
  "eraseNode n = n\<lparr>hn_value := eraseItem (hn_value n)\<rparr>"

definition eraseStep :: "StepSnapshot \<Rightarrow> StepSnapshot" where
  "eraseStep s =
     s\<lparr>s_frontier := map eraseItem (s_frontier s),
       s_selected := map_option eraseItem (s_selected s),
       s_selectionReason := None, s_whyNot := None\<rparr>"

lemma eraseItem_fields [simp]:
  "fi_key (eraseItem it) = fi_key it" "fi_at (eraseItem it) = fi_at it"
  "fi_g (eraseItem it) = fi_g it" "fi_depth (eraseItem it) = fi_depth it"
  "fi_priority (eraseItem it) = fi_priority it"
  by (simp_all add: eraseItem_def)

lemma eraseItem_eqD:
  assumes "eraseItem a = eraseItem b"
  shows "fi_key a = fi_key b" "fi_at a = fi_at b" "fi_g a = fi_g b" "fi_depth a = fi_depth b"
    "fi_priority a = fi_priority b"
proof -
  have "fi_key (eraseItem a) = fi_key (eraseItem b)" "fi_at (eraseItem a) = fi_at (eraseItem b)"
    "fi_g (eraseItem a) = fi_g (eraseItem b)" "fi_depth (eraseItem a) = fi_depth (eraseItem b)"
    "fi_priority (eraseItem a) = fi_priority (eraseItem b)"
    using assms by simp_all
  then show "fi_key a = fi_key b" "fi_at a = fi_at b" "fi_g a = fi_g b" "fi_depth a = fi_depth b"
    "fi_priority a = fi_priority b" by simp_all
qed

lemma eraseNode_fields [simp]:
  "hn_priority (eraseNode n) = hn_priority n" "hn_id (eraseNode n) = hn_id n"
  "hn_value (eraseNode n) = eraseItem (hn_value n)"
  by (simp_all add: eraseNode_def)

lemma eraseStep_fields [simp]:
  "s_phase (eraseStep s) = s_phase s" "s_currentKey (eraseStep s) = s_currentKey s"
  "s_path (eraseStep s) = s_path s" "s_closed (eraseStep s) = s_closed s"
  by (simp_all add: eraseStep_def)

lemma popFresh_erase:
  "popFresh cl gs (map eraseNode h) =
     (map_option eraseItem (fst (popFresh cl gs h)), map eraseNode (snd (popFresh cl gs h)))"
proof (induction cl gs h rule: popFresh.induct)
  case (1 cl gs hp)
  have pm: "pop (map eraseNode hp) = (map_option eraseNode (fst (pop hp)), map eraseNode (snd (pop hp)))"
    by (rule pop_map) simp
  obtain top hp' where p: "pop hp = (top, hp')" by (cases "pop hp")
  have pe: "pop (map eraseNode hp) = (map_option eraseNode top, map eraseNode hp')"
    by (simp add: pm p)
  show ?case
  proof (cases top)
    case None
    show ?thesis
      by (subst popFresh.simps, subst (2 3) popFresh.simps) (simp add: p pe None)
  next
    case (Some n)
    let ?popped = "hn_value n"
    let ?stale = "fi_key ?popped \<in> cl \<or>
       (case (gs (fi_key ?popped), fi_g ?popped) of (Some bestKnown, Some pg) \<Rightarrow> pg > bestKnown | _ \<Rightarrow> False)"
    show ?thesis
    proof (cases ?stale)
      case True
      have l: "popFresh cl gs hp = popFresh cl gs hp'"
        using True by (subst popFresh.simps) (auto simp: p Some Let_def split: option.splits)
      have r: "popFresh cl gs (map eraseNode hp) = popFresh cl gs (map eraseNode hp')"
        using True by (subst popFresh.simps) (auto simp: pe Some Let_def split: option.splits)
      have "popFresh cl gs (map eraseNode hp') =
         (map_option eraseItem (fst (popFresh cl gs hp')), map eraseNode (snd (popFresh cl gs hp')))"
        using True "1.IH"(1)[OF p[symmetric, unfolded Some] refl]
          "1.IH"(2)[OF p[symmetric, unfolded Some] refl]
        by (auto split: option.splits)
      then show ?thesis unfolding l r .
    next
      case False
      have l: "popFresh cl gs hp = (Some ?popped, hp')"
        using False by (subst popFresh.simps) (auto simp: p Some Let_def split: option.splits)
      have r: "popFresh cl gs (map eraseNode hp) = (Some (eraseItem ?popped), map eraseNode hp')"
        using False by (subst popFresh.simps) (auto simp: pe Some Let_def split: option.splits)
      show ?thesis unfolding l r by simp
    qed
  qed
qed


paragraph \<open>Two runs side by side\<close>

text \<open>
  \<open>twins ra rd\<close>: the two runs differ in their options only; \<open>ra\<close> is A* with weight 0,
  \<open>rd\<close> is Dijkstra. \<open>sameRun va vd\<close>: the variables of the two runs agree, up to the
  erased fields.
\<close>

definition twins :: "Run \<Rightarrow> Run \<Rightarrow> bool" where
  "twins ra rd =
     (r_adapter ra = r_adapter rd \<and> r_isGrid ra = r_isGrid rd \<and> r_sizeBasis ra = r_sizeBasis rd
    \<and> r_startKey ra = r_startKey rd \<and> r_goalKey ra = r_goalKey rd
    \<and> algorithm (r_options ra) = astar \<and> heuristicWeight (r_options ra) = 0
    \<and> algorithm (r_options rd) = dijkstra)"

definition sameRun :: "Locals \<Rightarrow> Locals \<Rightarrow> bool" where
  "sameRun va vd =
     (v_visited va = v_visited vd \<and> v_closed va = v_closed vd \<and> v_cameFrom va = v_cameFrom vd
    \<and> v_gScore va = v_gScore vd \<and> v_relaxations va = v_relaxations vd
    \<and> v_peakFrontier va = v_peakFrontier vd \<and> v_peakClosed va = v_peakClosed vd
    \<and> v_queue va = v_queue vd \<and> v_stack va = v_stack vd
    \<and> map eraseNode (v_heap va) = map eraseNode (v_heap vd)
    \<and> map eraseStep (v_steps va) = map eraseStep (v_steps vd))"

definition samePartial :: "StepPartial \<Rightarrow> StepPartial \<Rightarrow> bool" where
  "samePartial pa pd =
     (p_phase pa = p_phase pd \<and> p_currentKey pa = p_currentKey pd \<and> p_current pa = p_current pd
    \<and> map_option eraseItem (p_selected pa) = map_option eraseItem (p_selected pd)
    \<and> p_relaxation pa = p_relaxation pd \<and> p_path pa = p_path pd
    \<and> p_warnings pa = p_warnings pd)"

lemma twins_fk: "twins ra rd \<Longrightarrow> r_fk ra = minheap \<and> r_fk rd = minheap"
  by (simp add: twins_def r_fk_def)

lemma twins_alg: "twins ra rd \<Longrightarrow> r_alg ra = astar \<and> r_alg rd = dijkstra"
  by (simp add: twins_def r_alg_def)

lemma sameRun_heap_values:
  assumes "sameRun va vd"
  shows "map eraseItem (map hn_value (v_heap va)) = map eraseItem (map hn_value (v_heap vd))"
proof -
  have "map hn_value (map eraseNode (v_heap va)) = map hn_value (map eraseNode (v_heap vd))"
    using assms by (simp add: sameRun_def)
  then show ?thesis by (simp add: comp_def)
qed

lemma sameRun_lengths:
  assumes "sameRun va vd"
  shows "length (v_heap va) = length (v_heap vd)" "length (v_steps va) = length (v_steps vd)"
proof -
  have "length (map eraseNode (v_heap va)) = length (map eraseNode (v_heap vd))"
    using assms by (simp add: sameRun_def)
  then show "length (v_heap va) = length (v_heap vd)" by simp
  have "length (map eraseStep (v_steps va)) = length (map eraseStep (v_steps vd))"
    using assms by (simp add: sameRun_def)
  then show "length (v_steps va) = length (v_steps vd)" by simp
qed

lemma sameRun_pushStep:
  assumes "sameRun va vd" "samePartial pa pd"
  shows "sameRun (pushStep minheap pa va) (pushStep minheap pd vd)"
proof -
  note L = sameRun_lengths[OF assms(1)] and H = sameRun_heap_values[OF assms(1)]
  have "eraseStep (snapshotOf minheap pa va) = eraseStep (snapshotOf minheap pd vd)"
    using assms L H by (simp add: eraseStep_def snapshotOf_def frontierToArray_def sameRun_def samePartial_def)
  then show ?thesis
    using assms(1) L by (simp add: sameRun_def pushStep_def frontierToArray_def)
qed


lemma sameRun_selectNext:
  assumes "sameRun va vd"
  shows "map_option eraseItem (fst (selectNext minheap va)) = map_option eraseItem (fst (selectNext minheap vd))"
    and "sameRun (snd (selectNext minheap va)) (snd (selectNext minheap vd))"
proof -
  have h: "map eraseNode (v_heap va) = map eraseNode (v_heap vd)"
    and c: "v_closed va = v_closed vd" and g: "v_gScore va = v_gScore vd"
    using assms by (simp_all add: sameRun_def)
  have "popFresh (v_closed va) (v_gScore va) (map eraseNode (v_heap va))
      = popFresh (v_closed vd) (v_gScore vd) (map eraseNode (v_heap vd))"
    by (simp add: h c g)
  then have eq: "(map_option eraseItem (fst (popFresh (v_closed va) (v_gScore va) (v_heap va))),
       map eraseNode (snd (popFresh (v_closed va) (v_gScore va) (v_heap va))))
     = (map_option eraseItem (fst (popFresh (v_closed vd) (v_gScore vd) (v_heap vd))),
       map eraseNode (snd (popFresh (v_closed vd) (v_gScore vd) (v_heap vd))))"
    by (simp only: popFresh_erase)
  show "map_option eraseItem (fst (selectNext minheap va)) = map_option eraseItem (fst (selectNext minheap vd))"
    using eq by (simp add: selectNext_def Let_def)
  show "sameRun (snd (selectNext minheap va)) (snd (selectNext minheap vd))"
    using eq assms by (simp add: selectNext_def Let_def sameRun_def)
qed

lemma samePartial_partialAt:
  assumes "eraseItem sa = eraseItem sd"
  shows "samePartial (partialAt ph sa reasonA) (partialAt ph sd reasonD)"
    and "samePartial ((partialAt ph sa reasonA)\<lparr>p_whyNot := wa\<rparr>) ((partialAt ph sd reasonD)\<lparr>p_whyNot := wd\<rparr>)"
    and "samePartial ((partialAt ph sa reasonA)\<lparr>p_relaxation := rx\<rparr>) ((partialAt ph sd reasonD)\<lparr>p_relaxation := rx\<rparr>)"
    and "samePartial ((partialAt ph sa reasonA)\<lparr>p_path := pth, p_warnings := ws\<rparr>)
           ((partialAt ph sd reasonD)\<lparr>p_path := pth, p_warnings := ws\<rparr>)"
  using assms eraseItem_eqD[OF assms] by (simp_all add: samePartial_def)

lemma sameRun_selectStep:
  assumes "twins ra rd" "sameRun va vd" "eraseItem sa = eraseItem sd"
  shows "sameRun (selectStep ra sa va) (selectStep rd sd vd)"
  unfolding selectStep_def using twins_fk[OF assms(1)]
  by (simp add: sameRun_pushStep[OF assms(2) samePartial_partialAt(2)[OF assms(3)]])

lemma sameRun_foundStep:
  assumes "twins ra rd" "sameRun va vd" "eraseItem sa = eraseItem sd"
  shows "sameRun (foundStep ra sa pth va) (foundStep rd sd pth vd)"
proof -
  have w: "heuristicWeight (r_options ra) = 0" "r_alg rd = dijkstra"
    using assms(1) by (simp_all add: twins_def r_alg_def)
  show ?thesis
    unfolding foundStep_def using twins_fk[OF assms(1)] w
    by (simp add: sameRun_pushStep[OF assms(2) samePartial_partialAt(4)[OF assms(3)]])
qed

lemma twins_expandWarnings:
  assumes "twins ra rd"
  shows "expandWarnings ra sa va = []" "expandWarnings rd sd vd = []"
  using assms by (simp_all add: expandWarnings_def twins_def r_alg_def Let_def)

lemma sameRun_close:
  assumes "sameRun va vd"
  shows "sameRun (va\<lparr>v_closed := insert k (v_closed va)\<rparr>) (vd\<lparr>v_closed := insert k (v_closed vd)\<rparr>)"
  using assms by (simp add: sameRun_def)

lemma sameRun_expandStart:
  assumes "twins ra rd" "sameRun va vd" "eraseItem sa = eraseItem sd"
  shows "sameRun (expandStart ra sa va) (expandStart rd sd vd)"
proof -
  have k: "fi_key sa = fi_key sd" using eraseItem_eqD(1)[OF assms(3)] .
  have "sameRun (va\<lparr>v_closed := insert (fi_key sa) (v_closed va)\<rparr>)
          (vd\<lparr>v_closed := insert (fi_key sd) (v_closed vd)\<rparr>)"
    unfolding k by (rule sameRun_close[OF assms(2)])
  from sameRun_pushStep[OF this samePartial_partialAt(1)[OF assms(3)]]
  show ?thesis
    unfolding expandStart_def using twins_fk[OF assms(1)]
    by (simp add: twins_expandWarnings[OF assms(1)] Let_def)
qed

lemma twins_makeItem:
  "eraseItem (makeItem c k astar g h d 0) = eraseItem (makeItem c k dijkstra g h' d w)"
  by (simp add: makeItem_def eraseItem_def Let_def)

lemma twins_priority:
  "fi_priority (makeItem c k astar g h d 0) = Some g"
  "fi_priority (makeItem c k dijkstra g h' d w) = Some g"
  by (simp_all add: makeItem_def Let_def)

lemma twins_stepCostOf: "twins ra rd \<Longrightarrow> stepCostOf ra nb = stepCostOf rd nb"
  by (simp add: stepCostOf_def twins_def)

lemma sameRun_relaxTo:
  assumes "twins ra rd" "sameRun va vd" "eraseItem sa = eraseItem sd"
  shows "sameRun (relaxTo ra sa reasonA curG curDepth va nb) (relaxTo rd sd reasonD curG curDepth vd nb)"
proof -
  note fk = twins_fk[OF assms(1)] and alg = twins_alg[OF assms(1)]
  have k: "fi_key sa = fi_key sd" using eraseItem_eqD(1)[OF assms(3)] .
  have ad: "r_adapter ra = r_adapter rd" and w0: "heuristicWeight (r_options ra) = 0"
    using assms(1) by (simp_all add: twins_def)
  have sc: "stepCostOf ra nb = stepCostOf rd nb" by (rule twins_stepCostOf[OF assms(1)])
  define tg where "tg = curG + stepCostOf rd nb"
  define c where "c = coordOfKey (r_adapter rd) (nb_key nb)"
  define ha where "ha = heuristicFn (heuristic (r_options ra)) c (coordOfKey (r_adapter rd) (r_goalKey ra))"
  define na where "na = \<lparr>hn_id = nb_key nb, hn_value = makeItem c (nb_key nb) astar tg ha (curDepth + 1) 0,
     hn_priority = tg\<rparr>"
  define nd where "nd = \<lparr>hn_id = nb_key nb,
     hn_value = makeItem c (nb_key nb) dijkstra tg 0 (curDepth + 1) (heuristicWeight (r_options rd)),
     hn_priority = tg\<rparr>"
  define ua where "ua = va\<lparr>v_cameFrom := (v_cameFrom va)(nb_key nb \<mapsto> fi_key sa),
                 v_gScore := (v_gScore va)(nb_key nb \<mapsto> tg),
                 v_visited := insert (nb_key nb) (v_visited va),
                 v_relaxations := v_relaxations va + 1\<rparr>"
  define ud where "ud = vd\<lparr>v_cameFrom := (v_cameFrom vd)(nb_key nb \<mapsto> fi_key sd),
                 v_gScore := (v_gScore vd)(nb_key nb \<mapsto> tg),
                 v_visited := insert (nb_key nb) (v_visited vd),
                 v_relaxations := v_relaxations vd + 1\<rparr>"
  define rx where "rx = Some \<lparr>rx_from = fi_key sd, rx_to = nb_key nb, oldG = v_gScore vd (nb_key nb),
                                        newG = tg, improved = True\<rparr>"
  have g: "v_gScore va = v_gScore vd" using assms(2) by (simp add: sameRun_def)
  have u: "sameRun ua ud" using assms(2) by (simp add: ua_def ud_def sameRun_def k)
  have p1: "sameRun (pushStep minheap ((partialAt Relax sa reasonA)\<lparr>p_relaxation := rx\<rparr>) ua)
     (pushStep minheap ((partialAt Relax sd reasonD)\<lparr>p_relaxation := rx\<rparr>) ud)"
    by (rule sameRun_pushStep[OF u samePartial_partialAt(3)[OF assms(3)]])
  have en: "eraseNode na = eraseNode nd"
    by (simp add: na_def nd_def eraseNode_def twins_makeItem)
  have hh: "map eraseNode (v_heap va) = map eraseNode (v_heap vd)"
    using assms(2) by (simp add: sameRun_def)
  have "map eraseNode (push (v_heap va) na) = push (map eraseNode (v_heap va)) (eraseNode na)"
    by (rule push_map[symmetric]) simp
  also have "\<dots> = push (map eraseNode (v_heap vd)) (eraseNode nd)" by (simp add: hh en)
  also have "\<dots> = map eraseNode (push (v_heap vd) nd)" by (rule push_map) simp
  finally have ph: "map eraseNode (push (v_heap va) na) = map eraseNode (push (v_heap vd) nd)" .
  have p2: "sameRun
     ((pushStep minheap ((partialAt Relax sa reasonA)\<lparr>p_relaxation := rx\<rparr>) ua)\<lparr>v_heap := push (v_heap va) na\<rparr>)
     ((pushStep minheap ((partialAt Relax sd reasonD)\<lparr>p_relaxation := rx\<rparr>) ud)\<lparr>v_heap := push (v_heap vd) nd\<rparr>)"
    using p1 ph by (simp add: sameRun_def)
  have A: "relaxTo ra sa reasonA curG curDepth va nb =
     pushStep minheap (partialAt Enqueue sa reasonA)
      ((pushStep minheap ((partialAt Relax sa reasonA)\<lparr>p_relaxation := rx\<rparr>) ua)\<lparr>v_heap := push (v_heap va) na\<rparr>)"
    using fk alg
    by (simp add: relaxTo_def Let_def sc tg_def c_def ha_def na_def ua_def rx_def ad w0 g k twins_priority)
  have D: "relaxTo rd sd reasonD curG curDepth vd nb =
     pushStep minheap (partialAt Enqueue sd reasonD)
      ((pushStep minheap ((partialAt Relax sd reasonD)\<lparr>p_relaxation := rx\<rparr>) ud)\<lparr>v_heap := push (v_heap vd) nd\<rparr>)"
    using fk alg
    by (simp add: relaxTo_def Let_def tg_def c_def nd_def ud_def rx_def twins_priority)
  show ?thesis unfolding A D
    by (rule sameRun_pushStep[OF p2 samePartial_partialAt(1)[OF assms(3)]])
qed

lemma sameRun_visitNeighbor:
  assumes "twins ra rd" "sameRun va vd" "eraseItem sa = eraseItem sd"
  shows "sameRun (visitNeighbor ra sa reasonA curG curDepth va nb)
           (visitNeighbor rd sd reasonD curG curDepth vd nb)"
proof -
  note alg = twins_alg[OF assms(1)]
  have c: "v_closed va = v_closed vd" and g: "v_gScore va = v_gScore vd"
    using assms(2) by (simp_all add: sameRun_def)
  have i: "improves ra curG va nb = improves rd curG vd nb"
    by (simp add: improves_def g twins_stepCostOf[OF assms(1)] cong: option.case_cong)
  show ?thesis
    using alg assms(2) sameRun_relaxTo[OF assms]
    by (simp add: visitNeighbor_weighted c i)
qed

lemma sameRun_foldl:
  assumes "twins ra rd" "eraseItem sa = eraseItem sd"
  shows "sameRun va vd \<Longrightarrow>
     sameRun (foldl (visitNeighbor ra sa reasonA curG curDepth) va nbs)
       (foldl (visitNeighbor rd sd reasonD curG curDepth) vd nbs)"
proof (induction nbs arbitrary: va vd)
  case Nil
  then show ?case by simp
next
  case (Cons nb nbs)
  show ?case
    by (simp, rule Cons.IH, rule sameRun_visitNeighbor[OF assms(1) Cons.prems assms(2)])
qed

lemma sameRun_expandNode:
  assumes "twins ra rd" "sameRun va vd" "eraseItem sa = eraseItem sd"
  shows "sameRun (expandNode ra sa va) (expandNode rd sd vd)"
proof -
  have k: "fi_key sa = fi_key sd" and d: "fi_depth sa = fi_depth sd"
    using eraseItem_eqD[OF assms(3)] by simp_all
  have g: "v_gScore va = v_gScore vd" using assms(2) by (simp add: sameRun_def)
  have ad: "r_adapter ra = r_adapter rd" using assms(1) by (simp add: twins_def)
  show ?thesis
    unfolding expandNode_def k d g ad
    by (rule sameRun_foldl[OF assms(1,3) sameRun_expandStart[OF assms]])
qed


fun sameFlow :: "Flow \<Rightarrow> Flow \<Rightarrow> bool" where
  "sameFlow (Continue a) (Continue d) = sameRun a d"
| "sameFlow (Break a) (Break d) = sameRun a d"
| "sameFlow Diverge Diverge = True"
| "sameFlow _ _ = False"

lemma sameRun_iteration:
  assumes "twins ra rd" "sameRun va vd"
  shows "sameFlow (iteration ra va) (iteration rd vd)"
proof -
  note fk = twins_fk[OF assms(1)]
  note S = sameRun_selectNext[OF assms(2)]
  have c: "v_closed va = v_closed vd" and cf: "v_cameFrom va = v_cameFrom vd"
    using assms(2) by (simp_all add: sameRun_def)
  have keys: "r_goalKey ra = r_goalKey rd" "r_startKey ra = r_startKey rd" "r_adapter ra = r_adapter rd"
    using assms(1) by (simp_all add: twins_def)
  show ?thesis
  proof (cases "fst (selectNext minheap va)")
    case None
    then have "fst (selectNext minheap vd) = None" using S(1) by simp
    then show ?thesis using None S(2) fk by (simp add: iteration_eq)
  next
    case (Some sa)
    then obtain sd where sd: "fst (selectNext minheap vd) = Some sd" and e: "eraseItem sa = eraseItem sd"
      using S(1) by (cases "fst (selectNext minheap vd)") auto
    have k: "fi_key sa = fi_key sd" using eraseItem_eqD(1)[OF e] .
    note sel = sameRun_selectStep[OF assms(1) S(2) e]
    show ?thesis
    proof (cases "fi_key sd \<in> v_closed vd")
      case True
      then show ?thesis using Some sd S(2) fk k c by (simp add: iteration_eq)
    next
      case False
      note nc = this
      show ?thesis
      proof (cases "fi_key sd = r_goalKey rd")
        case True
        show ?thesis
        proof (cases "reconstructPathCoords (r_adapter rd) (v_cameFrom vd) (r_startKey rd) (r_goalKey rd)")
          case None
          then show ?thesis using Some sd fk k c cf keys nc True by (simp add: iteration_eq)
        next
          case (Some pth)
          then show ?thesis
            using \<open>fst (selectNext minheap va) = Some sa\<close> sd fk k c cf keys nc True
              sameRun_foundStep[OF assms(1) sel e]
            by (simp add: iteration_eq)
        qed
      next
        case False
        then show ?thesis
          using Some sd fk k c keys nc sameRun_expandNode[OF assms(1) sel e]
          by (simp add: iteration_eq)
      qed
    qed
  qed
qed

lemma sameRun_exhaustedStep:
  assumes "twins ra rd" "sameRun va vd"
  shows "sameRun (exhaustedStep ra va) (exhaustedStep rd vd)"
  unfolding exhaustedStep_def using twins_fk[OF assms(1)]
  by (simp add: sameRun_pushStep[OF assms(2)] samePartial_def)

lemma twins_maxIterations: "twins ra rd \<Longrightarrow> maxIterations ra = maxIterations rd"
  by (simp add: maxIterations_def twins_def)

lemma sameRun_mainLoop:
  assumes "twins ra rd"
  shows "sameRun va vd \<Longrightarrow>
     (mainLoop ra n va = None \<and> mainLoop rd n vd = None)
   \<or> (\<exists>m wa wd. mainLoop ra n va = Some (m, wa) \<and> mainLoop rd n vd = Some (m, wd) \<and> sameRun wa wd)"
  using assms
proof (induction ra n va arbitrary: vd rule: mainLoop.induct)
  case (1 ra n va)
  note same = "1.prems"(1) and tw = "1.prems"(2)
  note fk = twins_fk[OF tw] and mx = twins_maxIterations[OF tw]
  have len: "length (frontierToArray minheap va) = length (frontierToArray minheap vd)"
    using sameRun_lengths(1)[OF same] by (simp add: frontierToArray_def)
  show ?case
  proof (cases "0 < length (frontierToArray minheap va)")
    case False
    then have "mainLoop ra n va = Some (n, va)" "mainLoop rd n vd = Some (n, vd)"
      using fk len by (subst mainLoop.simps, simp)+
    then show ?thesis using same by simp
  next
    case True
    note ne = this
    show ?thesis
    proof (cases "maxIterations ra < int (n + 1)")
      case True
      then have "mainLoop ra n va = Some (n + 1, exhaustedStep ra va)"
        "mainLoop rd n vd = Some (n + 1, exhaustedStep rd vd)"
        using fk len ne mx by (subst mainLoop.simps, simp add: exhaustedStep_def)+
      then show ?thesis using sameRun_exhaustedStep[OF tw same] by simp
    next
      case False
      note cap = this
      note it = sameRun_iteration[OF tw same]
      show ?thesis
      proof (cases "iteration ra va")
        case (Continue va')
        then obtain vd' where d: "iteration rd vd = Continue vd'" and s': "sameRun va' vd'"
          using it by (cases "iteration rd vd") simp_all
        have a: "mainLoop ra n va = mainLoop ra (n + 1) va'"
          using fk ne cap Continue by (subst mainLoop.simps) simp
        have b: "mainLoop rd n vd = mainLoop rd (n + 1) vd'"
          using fk ne len cap mx d by (subst mainLoop.simps) simp
        have ne': "0 < length (frontierToArray (r_fk ra) va)" using ne fk by simp
        show ?thesis unfolding a b by (rule "1.IH"[OF ne' cap Continue s' tw])
      next
        case (Break va')
        then obtain vd' where d: "iteration rd vd = Break vd'" and s': "sameRun va' vd'"
          using it by (cases "iteration rd vd") simp_all
        have "mainLoop ra n va = Some (n + 1, va')"
          using fk ne cap Break by (subst mainLoop.simps) simp
        moreover have "mainLoop rd n vd = Some (n + 1, vd')"
          using fk ne len cap mx d by (subst mainLoop.simps) simp
        ultimately show ?thesis using s' by simp
      next
        case Diverge
        then have d: "iteration rd vd = Diverge"
          using it by (cases "iteration rd vd") simp_all
        have "mainLoop ra n va = None"
          using fk ne cap Diverge by (subst mainLoop.simps) simp
        moreover have "mainLoop rd n vd = None"
          using fk ne len cap mx d by (subst mainLoop.simps) simp
        ultimately show ?thesis by simp
      qed
    qed
  qed
qed

lemma sameRun_seed:
  assumes "twins ra rd"
  shows "sameRun (seed ra) (seed rd)"
proof -
  note fk = twins_fk[OF assms] and alg = twins_alg[OF assms]
  have keys: "r_goalKey ra = r_goalKey rd" "r_startKey ra = r_startKey rd" "r_adapter ra = r_adapter rd"
    and w0: "heuristicWeight (r_options ra) = 0"
    using assms by (simp_all add: twins_def)
  define c where "c = coordOfKey (r_adapter rd) (r_startKey rd)"
  define ha where "ha = heuristicFn (heuristic (r_options ra)) c (coordOfKey (r_adapter rd) (r_goalKey rd))"
  define hd where "hd = heuristicFn (heuristic (r_options rd)) c (coordOfKey (r_adapter rd) (r_goalKey rd))"
  define na where "na = \<lparr>hn_id = r_startKey rd, hn_value = makeItem c (r_startKey rd) astar 0 ha 0 0,
     hn_priority = 0\<rparr>"
  define nd where "nd = \<lparr>hn_id = r_startKey rd,
     hn_value = makeItem c (r_startKey rd) dijkstra 0 hd 0 (heuristicWeight (r_options rd)),
     hn_priority = 0\<rparr>"
  define ua where "ua = \<lparr>v_visited = {r_startKey rd}, v_closed = {}, v_cameFrom = Map.empty,
                v_gScore = [r_startKey rd \<mapsto> 0], v_steps = [], v_relaxations = 0,
                v_peakFrontier = 0, v_peakClosed = 0, v_queue = [], v_stack = [], v_heap = [na]\<rparr>"
  define ud where "ud = \<lparr>v_visited = {r_startKey rd}, v_closed = {}, v_cameFrom = Map.empty,
                v_gScore = [r_startKey rd \<mapsto> 0], v_steps = [], v_relaxations = 0,
                v_peakFrontier = 0, v_peakClosed = 0, v_queue = [], v_stack = [], v_heap = [nd]\<rparr>"
  have en: "eraseNode na = eraseNode nd"
    by (simp add: na_def nd_def eraseNode_def twins_makeItem)
  have u: "sameRun ua ud" by (simp add: sameRun_def ua_def ud_def en)
  have A: "seed ra = pushStep minheap (partialOf Init None) ua"
    using fk alg by (simp add: seed_def Let_def keys w0 ua_def na_def c_def ha_def push_empty twins_priority)
  have D: "seed rd = pushStep minheap (partialOf Init None) ud"
    using fk alg by (simp add: seed_def Let_def ud_def nd_def c_def hd_def push_empty twins_priority)
  show ?thesis unfolding A D by (rule sameRun_pushStep[OF u]) (simp add: samePartial_def)
qed

lemma sameRun_runLoop:
  assumes "twins ra rd"
  shows "\<exists>m wa wd. runLoop ra = Some (m, wa) \<and> runLoop rd = Some (m, wd) \<and> sameRun wa wd"
  using sameRun_mainLoop[OF assms sameRun_seed[OF assms], of 0] runLoop_total[of ra]
  by (auto simp: runLoop_def)

paragraph \<open>What the two traces share\<close>

definition selectedKeys :: "Trace \<Rightarrow> string option list" where
  "selectedKeys t = map s_currentKey (filter (\<lambda>s. s_phase s = Select) (t_steps t))"

lemma filter_eraseStep:
  "map eraseStep (filter (\<lambda>s. P (s_phase s)) sts) = filter (\<lambda>s. P (s_phase s)) (map eraseStep sts)"
  by (induction sts) simp_all

lemma selectedKeys_erase:
  "map s_currentKey (filter (\<lambda>s. s_phase s = Select) sts)
     = map s_currentKey (filter (\<lambda>s. s_phase s = Select) (map eraseStep sts))"
  by (induction sts) simp_all

lemma list_ex_erase:
  "list_ex (\<lambda>s. s_phase s = Found) sts = list_ex (\<lambda>s. s_phase s = Found) (map eraseStep sts)"
  by (induction sts) simp_all

lemma find_erase:
  "map_option s_path (find (\<lambda>s. s_phase s = Found \<and> s_path s \<noteq> None) sts)
     = map_option s_path (find (\<lambda>s. s_phase s = Found \<and> s_path s \<noteq> None) (map eraseStep sts))"
  by (induction sts) auto

lemma lastFoundPath_alt:
  "lastFoundPath sts =
     (case map_option s_path (find (\<lambda>s. s_phase s = Found \<and> s_path s \<noteq> None) (rev sts)) of
        Some (Some pth) \<Rightarrow> pth | _ \<Rightarrow> [])"
  by (simp add: lastFoundPath_def split: option.splits)

lemma lastFoundPath_erase: "lastFoundPath sts = lastFoundPath (map eraseStep sts)"
  unfolding lastFoundPath_alt by (subst find_erase) (simp add: rev_map)

lemma sameRun_traceOf:
  assumes "sameRun wa wd"
  shows "selectedKeys (traceOf ra wa) = selectedKeys (traceOf rd wd)"
    and "t_found (traceOf ra wa) = t_found (traceOf rd wd)"
    and "t_path (traceOf ra wa) = t_path (traceOf rd wd)"
    and "t_metrics (traceOf ra wa) = t_metrics (traceOf rd wd)"
    and "map eraseStep (t_steps (traceOf ra wa)) = map eraseStep (t_steps (traceOf rd wd))"
proof -
  have st: "map eraseStep (v_steps wa) = map eraseStep (v_steps wd)"
    using assms by (simp add: sameRun_def)
  note L = sameRun_lengths[OF assms]
  show "selectedKeys (traceOf ra wa) = selectedKeys (traceOf rd wd)"
    unfolding selectedKeys_def traceOf_steps
    by (subst selectedKeys_erase, subst (2) selectedKeys_erase) (simp only: st)
  have f: "list_ex (\<lambda>s. s_phase s = Found) (v_steps wa) = list_ex (\<lambda>s. s_phase s = Found) (v_steps wd)"
    by (subst list_ex_erase, subst (2) list_ex_erase) (simp only: st)
  have p: "lastFoundPath (v_steps wa) = lastFoundPath (v_steps wd)"
    by (subst lastFoundPath_erase, subst (2) lastFoundPath_erase) (simp only: st)
  show "t_found (traceOf ra wa) = t_found (traceOf rd wd)"
    by (simp add: traceOf_def Let_def f)
  show "t_path (traceOf ra wa) = t_path (traceOf rd wd)"
    by (simp add: traceOf_def Let_def f p)
  show "t_metrics (traceOf ra wa) = t_metrics (traceOf rd wd)"
    using assms L by (simp add: traceOf_def Let_def sameRun_def)
  show "map eraseStep (t_steps (traceOf ra wa)) = map eraseStep (t_steps (traceOf rd wd))"
    by (simp add: st)
qed

section \<open>Breadth-first search\<close>

subsection \<open>Grid keys can be read back\<close>

lemma digitVal_digitChar: "d < 10 \<Longrightarrow> digitVal (digitChar d) = d"
  by (simp add: digitVal_def digitChar_def)

lemma isDigit_digitChar: "d < 10 \<Longrightarrow> isDigit (digitChar d)"
  by (simp add: isDigit_def digitChar_def)

lemma digitChar_literals:
  "digitChar 0 = CHR ''0''" "digitChar 1 = CHR ''1''" "digitChar 2 = CHR ''2''" "digitChar 3 = CHR ''3''"
  "digitChar 4 = CHR ''4''" "digitChar 5 = CHR ''5''" "digitChar 6 = CHR ''6''" "digitChar 7 = CHR ''7''"
  "digitChar 8 = CHR ''8''" "digitChar 9 = CHR ''9''" "digitChar (Suc 0) = CHR ''1''"
proof -
  have *: "char_of (of_char c :: nat) = c" for c by (rule char_of_char)
  show "digitChar 0 = CHR ''0''" using *[of "CHR ''0''"] by (simp add: digitChar_def)
  show "digitChar 1 = CHR ''1''" using *[of "CHR ''1''"] by (simp add: digitChar_def)
  show "digitChar 2 = CHR ''2''" using *[of "CHR ''2''"] by (simp add: digitChar_def)
  show "digitChar 3 = CHR ''3''" using *[of "CHR ''3''"] by (simp add: digitChar_def)
  show "digitChar 4 = CHR ''4''" using *[of "CHR ''4''"] by (simp add: digitChar_def)
  show "digitChar 5 = CHR ''5''" using *[of "CHR ''5''"] by (simp add: digitChar_def)
  show "digitChar 6 = CHR ''6''" using *[of "CHR ''6''"] by (simp add: digitChar_def)
  show "digitChar 7 = CHR ''7''" using *[of "CHR ''7''"] by (simp add: digitChar_def)
  show "digitChar 8 = CHR ''8''" using *[of "CHR ''8''"] by (simp add: digitChar_def)
  show "digitChar 9 = CHR ''9''" using *[of "CHR ''9''"] by (simp add: digitChar_def)
  show "digitChar (Suc 0) = CHR ''1''" using *[of "CHR ''1''"] by (simp add: digitChar_def)
qed

lemma natOfDigits_snoc: "natOfDigits (ds @ [c]) = 10 * natOfDigits ds + digitVal c"
  by (simp add: natOfDigits_def)

lemma showNat_digits:
  "list_all isDigit (showNat n) \<and> showNat n \<noteq> [] \<and> natOfDigits (showNat n) = n"
proof (induction n rule: showNat.induct)
  case (1 n)
  show ?case
  proof (cases "n < 10")
    case True
    then show ?thesis
      by (subst (1 2 3) showNat.simps) (simp add: isDigit_digitChar digitVal_digitChar natOfDigits_def)
  next
    case False
    have m: "n mod 10 < 10" by simp
    from "1.IH"[OF False] False show ?thesis
      by (subst (1 2 3) showNat.simps)
        (simp add: isDigit_digitChar[OF m] digitVal_digitChar[OF m] natOfDigits_snoc)
  qed
qed

lemma isDigit_not_sep: "isDigit c \<Longrightarrow> c \<noteq> CHR '','' \<and> c \<noteq> CHR ''-''"
  by (auto simp: isDigit_def)

lemma NumberOf_showNat: "NumberOf (showNat n) = int n"
proof -
  from showNat_digits[of n] obtain c ds where cs: "showNat n = c # ds"
    and d: "list_all isDigit (c # ds)" and v: "natOfDigits (c # ds) = n"
    by (cases "showNat n") auto
  have "c \<noteq> CHR ''-''" using d isDigit_not_sep[of c] by simp
  then show ?thesis using d v by (simp add: NumberOf_def cs)
qed

lemma NumberOf_showNum: "NumberOf (showNum i) = i"
proof (cases "i < 0")
  case True
  then show ?thesis
    using showNat_digits[of "nat (- i)"] by (simp add: showNum_def NumberOf_def)
next
  case False
  then show ?thesis by (simp add: showNum_def NumberOf_showNat)
qed

lemma showNum_no_sep: "\<forall>c \<in> set (showNum i). c \<noteq> CHR '',''"
proof -
  have "\<forall>c \<in> set (showNat n). c \<noteq> CHR '',''" for n
    using showNat_digits[of n] isDigit_not_sep by (auto simp: list_all_iff)
  then show ?thesis by (simp add: showNum_def)
qed

lemma showNum_nonempty: "showNum i \<noteq> []"
  using showNat_digits by (simp add: showNum_def)

lemma coordOfInt_gridKey [simp]: "coordOfInt (gridKey x y) = (x, y)"
proof -
  let ?P = "\<lambda>c. c \<noteq> CHR '',''"
  have t: "takeWhile ?P (showNum x @ CHR '','' # showNum y) = showNum x"
    using showNum_no_sep[of x] by (simp add: takeWhile_append2)
  have d: "dropWhile ?P (showNum x @ CHR '','' # showNum y) = CHR '','' # showNum y"
    using showNum_no_sep[of x] by (simp add: dropWhile_append2)
  have y: "takeWhile ?P (showNum y) = showNum y"
    using showNum_no_sep[of y] by (simp add: takeWhile_eq_all_conv)
  show ?thesis by (simp add: coordOfInt_def gridKey_def t d y NumberOf_showNum)
qed

lemma gridKey_inj [simp]: "gridKey x y = gridKey x' y' \<longleftrightarrow> x = x' \<and> y = y'"
proof
  assume "gridKey x y = gridKey x' y'"
  then have "coordOfInt (gridKey x y) = coordOfInt (gridKey x' y')" by simp
  then show "x = x' \<and> y = y'" by simp
qed simp

lemma gridKey_nonempty [simp]: "gridKey x y \<noteq> []"
  by (simp add: gridKey_def)

lemma gridNeighbors_gridKey:
  "gridNeighbors gr (gridKey x y) =
     concat (map (gridCandidate gr) [(x + 1, y), (x - 1, y), (x, y + 1), (x, y - 1)])"
  by (simp add: gridNeighbors_def)

lemma gridNeighbors_keys:
  "nb \<in> set (gridNeighbors gr k) \<Longrightarrow>
     \<exists>x y. nb_key nb = gridKey x y \<and> 0 \<le> x \<and> x < width gr \<and> 0 \<le> y \<and> y < height gr"
  by (auto simp: gridNeighbors_def gridCandidate_def Let_def split: if_splits)

subsection \<open>Hops and distances\<close>

text \<open>
  \<open>hop r k k'\<close>: \<open>k'\<close> is a neighbour of \<open>k\<close>, as the adapter of the run lists them.
  \<open>hopsTo r n k\<close>: \<open>n\<close> hops lead from the start key to \<open>k\<close>.
\<close>

definition hop :: "Run \<Rightarrow> string \<Rightarrow> string \<Rightarrow> bool" where
  "hop r k k' = (k' \<in> nb_key ` set (neighbors (r_adapter r) k))"

definition hopsTo :: "Run \<Rightarrow> nat \<Rightarrow> string \<Rightarrow> bool" where
  "hopsTo r n k = (hop r ^^ n) (r_startKey r) k"

definition reachableKeys :: "Run \<Rightarrow> string set" where
  "reachableKeys r = {k. \<exists>n. hopsTo r n k}"

definition hopDist :: "Run \<Rightarrow> string \<Rightarrow> nat" where
  "hopDist r k = (LEAST n. hopsTo r n k)"

lemma hopsTo_0 [simp]: "hopsTo r 0 k \<longleftrightarrow> k = r_startKey r"
  by (auto simp: hopsTo_def)

lemma hopsTo_Suc: "hopsTo r (Suc n) k \<longleftrightarrow> (\<exists>p. hopsTo r n p \<and> hop r p k)"
  by (auto simp: hopsTo_def)

lemma start_reachable [simp]: "r_startKey r \<in> reachableKeys r"
  unfolding reachableKeys_def using hopsTo_0[of r "r_startKey r"] by blast

lemma hopDist_le: "hopsTo r n k \<Longrightarrow> hopDist r k \<le> n"
  unfolding hopDist_def by (rule Least_le)

lemma hopDist_start [simp]: "hopDist r (r_startKey r) = 0"
  using hopDist_le[of r 0 "r_startKey r"] by simp

lemma hopDist_hopsTo: "k \<in> reachableKeys r \<Longrightarrow> hopsTo r (hopDist r k) k"
  unfolding hopDist_def reachableKeys_def by (auto intro: LeastI)

lemma reach_hop:
  assumes "k \<in> reachableKeys r" "hop r k k'"
  shows "k' \<in> reachableKeys r" "hopDist r k' \<le> hopDist r k + 1"
proof -
  have "hopsTo r (Suc (hopDist r k)) k'"
    using hopDist_hopsTo[OF assms(1)] assms(2) by (auto simp: hopsTo_Suc)
  then show "k' \<in> reachableKeys r" "hopDist r k' \<le> hopDist r k + 1"
    using hopDist_le[of r "Suc (hopDist r k)" k'] by (auto simp: reachableKeys_def)
qed

lemma hopDist_pred:
  assumes "k \<in> reachableKeys r" "hopDist r k = Suc m"
  shows "\<exists>p. p \<in> reachableKeys r \<and> hopDist r p = m \<and> hop r p k"
proof -
  from hopDist_hopsTo[OF assms(1)] assms(2) obtain p where p: "hopsTo r m p" "hop r p k"
    by (auto simp: hopsTo_Suc)
  then have pr: "p \<in> reachableKeys r" by (auto simp: reachableKeys_def)
  have "hopDist r p \<le> m" by (rule hopDist_le[OF p(1)])
  moreover have "Suc m \<le> hopDist r p + 1" using reach_hop(2)[OF pr p(2)] assms(2) by simp
  ultimately have "hopDist r p = m" by simp
  then show ?thesis using pr p(2) by blast
qed

lemma hopDist_0:
  assumes "k \<in> reachableKeys r" "hopDist r k = 0"
  shows "k = r_startKey r"
  using hopDist_hopsTo[OF assms(1)] assms(2) by simp

lemma reachable_closed:
  assumes "r_startKey r \<in> S" "\<And>k k'. k \<in> S \<Longrightarrow> hop r k k' \<Longrightarrow> k' \<in> S"
  shows "reachableKeys r \<subseteq> S"
proof -
  have "hopsTo r n k \<Longrightarrow> k \<in> S" for n k
  proof (induction n arbitrary: k)
    case 0
    then show ?case using assms(1) by simp
  next
    case (Suc n)
    then show ?case using assms(2) by (auto simp: hopsTo_Suc)
  qed
  then show ?thesis by (auto simp: reachableKeys_def)
qed

subsection \<open>The invariant of breadth-first search\<close>

text \<open>
  \<open>bfsExp r v d cur X\<close>: the state \<open>v\<close> of a breadth-first run at level \<open>d\<close>. Closed keys
  are at most \<open>d\<close> hops away, queued keys \<open>d\<close> or \<open>d + 1\<close> hops, in ascending order, each
  with its distance as its depth; every key up to \<open>d\<close> hops away is visited, every key
  less than \<open>d\<close> hops away is closed; the neighbours of a closed key are visited, those in
  \<open>X\<close> of the key \<open>cur\<close> excepted (they are still to be looked at); and every visited key
  but the start has a closed parent one hop nearer.
\<close>

definition bfsShape :: "Run \<Rightarrow> Locals \<Rightarrow> bool" where
  "bfsShape r v =
     (distinct (map fi_key (v_queue v))
    \<and> fi_key ` set (v_queue v) \<inter> v_closed v = {}
    \<and> v_visited v = v_closed v \<union> fi_key ` set (v_queue v)
    \<and> v_visited v \<subseteq> reachableKeys r
    \<and> r_startKey r \<in> v_visited v
    \<and> r_goalKey r \<notin> v_closed v)"

definition bfsLevels :: "Run \<Rightarrow> Locals \<Rightarrow> nat \<Rightarrow> bool" where
  "bfsLevels r v d =
     ((\<forall>k \<in> v_closed v. hopDist r k \<le> d)
    \<and> (\<forall>it \<in> set (v_queue v). fi_depth it = Some (hopDist r (fi_key it))
           \<and> d \<le> hopDist r (fi_key it) \<and> hopDist r (fi_key it) \<le> d + 1)
    \<and> sorted (map (\<lambda>it. hopDist r (fi_key it)) (v_queue v))
    \<and> (\<forall>k \<in> reachableKeys r. hopDist r k \<le> d \<longrightarrow> k \<in> v_visited v)
    \<and> (\<forall>k \<in> reachableKeys r. hopDist r k < d \<longrightarrow> k \<in> v_closed v))"

definition bfsLinks :: "Run \<Rightarrow> Locals \<Rightarrow> string \<Rightarrow> string set \<Rightarrow> bool" where
  "bfsLinks r v cur X =
     ((\<forall>k \<in> v_closed v. \<forall>k'. hop r k k' \<longrightarrow> k' \<in> v_visited v \<or> (k = cur \<and> k' \<in> X))
    \<and> v_cameFrom v (r_startKey r) = None
    \<and> (\<forall>k \<in> v_visited v. k \<noteq> r_startKey r \<longrightarrow>
          (\<exists>p. v_cameFrom v k = Some p \<and> p \<in> v_closed v \<and> hop r p k
              \<and> hopDist r k = hopDist r p + 1)))"

definition bfsExp :: "Run \<Rightarrow> Locals \<Rightarrow> nat \<Rightarrow> string \<Rightarrow> string set \<Rightarrow> bool" where
  "bfsExp r v d cur X = (bfsShape r v \<and> bfsLevels r v d \<and> bfsLinks r v cur X)"

lemma bfsShapeD:
  assumes "bfsShape r v"
  shows "distinct (map fi_key (v_queue v))"
    and "fi_key ` set (v_queue v) \<inter> v_closed v = {}"
    and "v_visited v = v_closed v \<union> fi_key ` set (v_queue v)"
    and "v_visited v \<subseteq> reachableKeys r"
    and "r_startKey r \<in> v_visited v"
    and "r_goalKey r \<notin> v_closed v"
  using assms unfolding bfsShape_def by blast+

lemma bfsLevelsD:
  assumes "bfsLevels r v d"
  shows "\<And>k. k \<in> v_closed v \<Longrightarrow> hopDist r k \<le> d"
    and "\<And>it. it \<in> set (v_queue v) \<Longrightarrow> fi_depth it = Some (hopDist r (fi_key it))"
    and "\<And>it. it \<in> set (v_queue v) \<Longrightarrow> d \<le> hopDist r (fi_key it)"
    and "\<And>it. it \<in> set (v_queue v) \<Longrightarrow> hopDist r (fi_key it) \<le> d + 1"
    and "sorted (map (\<lambda>it. hopDist r (fi_key it)) (v_queue v))"
    and "\<And>k. k \<in> reachableKeys r \<Longrightarrow> hopDist r k \<le> d \<Longrightarrow> k \<in> v_visited v"
    and "\<And>k. k \<in> reachableKeys r \<Longrightarrow> hopDist r k < d \<Longrightarrow> k \<in> v_closed v"
  using assms unfolding bfsLevels_def by blast+

lemma bfsLinksD:
  assumes "bfsLinks r v cur X"
  shows "\<And>k k'. k \<in> v_closed v \<Longrightarrow> hop r k k' \<Longrightarrow> k' \<in> v_visited v \<or> (k = cur \<and> k' \<in> X)"
    and "v_cameFrom v (r_startKey r) = None"
    and "\<And>k. k \<in> v_visited v \<Longrightarrow> k \<noteq> r_startKey r \<Longrightarrow>
          \<exists>p. v_cameFrom v k = Some p \<and> p \<in> v_closed v \<and> hop r p k
              \<and> hopDist r k = hopDist r p + 1"
  using assms unfolding bfsLinks_def by blast+

lemma bfsExp_cong:
  assumes "v_queue v' = v_queue v" "v_closed v' = v_closed v" "v_visited v' = v_visited v"
    "v_cameFrom v' = v_cameFrom v"
  shows "bfsExp r v' d cur X = bfsExp r v d cur X"
  by (simp add: bfsExp_def bfsShape_def bfsLevels_def bfsLinks_def assms)


lemma bfs_fk: "r_alg r = bfs \<Longrightarrow> r_fk r = queue"
  by (simp add: r_alg_def r_fk_def)

lemma discover_queue:
  assumes "r_fk r = queue"
  shows "v_queue (discover r sel reason curG curDepth v nb) =
     v_queue v @ [makeItem (coordOfKey (r_adapter r) (nb_key nb)) (nb_key nb) (r_alg r) (curG + 1) 0
                    (curDepth + 1) (heuristicWeight (r_options r))]"
  using assms by (simp add: discover_def pushFrontier_def)

lemma makeItem_bfs_depth: "fi_depth (makeItem c k bfs g h d w) = Some d"
  by (simp add: makeItem_def)

lemma bfs_seed:
  assumes "r_alg r = bfs"
  shows "bfsExp r (seed r) 0 c {}"
proof -
  have fk: "r_fk r = queue" by (rule bfs_fk[OF assms])
  define it where "it = makeItem (coordOfKey (r_adapter r) (r_startKey r)) (r_startKey r) bfs 0
       (heuristicFn (heuristic (r_options r)) (coordOfKey (r_adapter r) (r_startKey r))
          (coordOfKey (r_adapter r) (r_goalKey r))) 0 (heuristicWeight (r_options r))"
  have q: "v_queue (seed r) = [it]" and cl: "v_closed (seed r) = {}"
    and vi: "v_visited (seed r) = {r_startKey r}" and cf: "v_cameFrom (seed r) = Map.empty"
    using fk assms by (simp_all add: seed_def Let_def it_def)
  have k: "fi_key it = r_startKey r" and dp: "fi_depth it = Some 0"
    by (simp_all add: it_def makeItem_bfs_depth)
  have shape: "bfsShape r (seed r)" by (simp add: bfsShape_def q cl vi k)
  have levels: "bfsLevels r (seed r) 0"
    using hopDist_0 by (auto simp: bfsLevels_def q cl vi k dp)
  have links: "bfsLinks r (seed r) c {}" by (simp add: bfsLinks_def cl vi cf)
  show ?thesis using shape levels links by (simp add: bfsExp_def)
qed

lemma bfs_pop:
  assumes E: "bfsExp r v d0 c0 {}" and q: "v_queue v = it # rest"
    and g: "fi_key it \<noteq> r_goalKey r"
    and f: "v_queue v' = rest" "v_closed v' = insert (fi_key it) (v_closed v)"
      "v_visited v' = v_visited v" "v_cameFrom v' = v_cameFrom v"
  shows "bfsExp r v' (hopDist r (fi_key it)) (fi_key it)
           (nb_key ` set (neighbors (r_adapter r) (fi_key it)))"
proof -
  define k where "k = fi_key it"
  define d where "d = hopDist r k"
  from E have S: "bfsShape r v" and L: "bfsLevels r v d0" and K: "bfsLinks r v c0 {}"
    by (simp_all add: bfsExp_def)
  note s = bfsShapeD[OF S] and l = bfsLevelsD[OF L] and lk = bfsLinksD[OF K]
  have itq: "it \<in> set (v_queue v)" by (simp add: q)
  have d_lo: "d0 \<le> d" and d_hi: "d \<le> d0 + 1"
    using l(3)[OF itq] l(4)[OF itq] by (simp_all add: d_def k_def)
  have kv: "k \<in> v_visited v" using s(3) q by (simp add: k_def)
  have knc: "k \<notin> v_closed v" using s(2) q by (auto simp: k_def)
  have knr: "k \<notin> fi_key ` set rest" using s(1) q by (auto simp: k_def)
  have rest_ge: "d \<le> hopDist r (fi_key j)" if "j \<in> set rest" for j
    using l(5) that by (simp add: q d_def k_def)
  have queue_ge: "d \<le> hopDist r (fi_key j)" if "j \<in> set (v_queue v)" for j
    using that rest_ge by (auto simp: q d_def k_def)
  have star: "p \<in> v_closed v" if "p \<in> reachableKeys r" "hopDist r p < d" for p
  proof (cases "hopDist r p < d0")
    case True
    then show ?thesis by (rule l(7)[OF that(1)])
  next
    case False
    then have "hopDist r p \<le> d0" using that(2) d_hi by simp
    then have "p \<in> v_visited v" by (rule l(6)[OF that(1)])
    then have "p \<in> v_closed v \<or> p \<in> fi_key ` set (v_queue v)" using s(3) by auto
    then show ?thesis
    proof
      assume "p \<in> fi_key ` set (v_queue v)"
      then obtain j where "j \<in> set (v_queue v)" "p = fi_key j" by auto
      then have "d \<le> hopDist r p" using queue_ge by simp
      then show ?thesis using that(2) by simp
    qed
  qed
  have shape: "bfsShape r v'"
    unfolding bfsShape_def f
    using s q knr g by (auto simp: k_def)
  have lev1: "hopDist r x \<le> d" if "x \<in> v_closed v'" for x
    using that l(1)[of x] d_lo by (auto simp: f d_def k_def)
  have lev2: "fi_depth j = Some (hopDist r (fi_key j)) \<and> d \<le> hopDist r (fi_key j)
        \<and> hopDist r (fi_key j) \<le> d + 1" if "j \<in> set (v_queue v')" for j
  proof -
    have j: "j \<in> set rest" using that by (simp add: f)
    then have jq: "j \<in> set (v_queue v)" by (simp add: q)
    show ?thesis using l(2)[OF jq] l(4)[OF jq] rest_ge[OF j] d_lo by simp
  qed
  have lev3: "sorted (map (\<lambda>it. hopDist r (fi_key it)) (v_queue v'))"
    using l(5) by (simp add: q f)
  have lev4: "x \<in> v_visited v'" if "x \<in> reachableKeys r" "hopDist r x \<le> d" for x
  proof (cases "hopDist r x \<le> d0")
    case True
    then show ?thesis using l(6)[OF that(1)] by (simp add: f)
  next
    case False
    then have hx: "hopDist r x = Suc d0" and dd: "d = Suc d0" using that(2) d_hi by simp_all
    from hopDist_pred[OF that(1) hx] obtain p where
      p: "p \<in> reachableKeys r" "hopDist r p = d0" "hop r p x" by blast
    have "p \<in> v_closed v" using star[OF p(1)] p(2) dd by simp
    from lk(1)[OF this p(3)] show ?thesis by (simp add: f)
  qed
  have lev5: "x \<in> v_closed v'" if "x \<in> reachableKeys r" "hopDist r x < d" for x
    using star[OF that] by (simp add: f)
  have levels: "bfsLevels r v' d"
    unfolding bfsLevels_def using lev1 lev2 lev3 lev4 lev5 by blast
  have link1: "b \<in> v_visited v' \<or> (a = k \<and> b \<in> nb_key ` set (neighbors (r_adapter r) k))"
    if "a \<in> v_closed v'" "hop r a b" for a b
  proof (cases "a = k")
    case True
    then show ?thesis using that(2) by (simp add: hop_def)
  next
    case False
    then have "a \<in> v_closed v" using that(1) by (simp add: f k_def)
    from lk(1)[OF this that(2)] show ?thesis by (simp add: f)
  qed
  have link3: "\<exists>p. v_cameFrom v' x = Some p \<and> p \<in> v_closed v' \<and> hop r p x
              \<and> hopDist r x = hopDist r p + 1"
    if "x \<in> v_visited v'" "x \<noteq> r_startKey r" for x
    using lk(3)[of x] that by (auto simp: f)
  have links: "bfsLinks r v' k (nb_key ` set (neighbors (r_adapter r) k))"
    unfolding bfsLinks_def using link1 link3 lk(2) by (auto simp: f)
  show ?thesis using shape levels links unfolding bfsExp_def d_def k_def by simp
qed


lemma bfs_visit:
  assumes alg: "r_alg r = bfs"
    and E: "bfsExp r v d cur (insert (nb_key nb) X)"
    and cc: "cur \<in> v_closed v" and dc: "hopDist r cur = d"
    and hp: "hop r cur (nb_key nb)" and sk: "fi_key sel = cur"
  shows "bfsExp r (visitNeighbor r sel reason curG d v nb) d cur X"
proof -
  define x where "x = nb_key nb"
  note fk = bfs_fk[OF alg]
  from E have S: "bfsShape r v" and L: "bfsLevels r v d" and K: "bfsLinks r v cur (insert x X)"
    by (simp_all add: bfsExp_def x_def)
  note s = bfsShapeD[OF S] and l = bfsLevelsD[OF L] and lk = bfsLinksD[OF K]
  have cv: "v_closed v \<subseteq> v_visited v" using s(3) by auto
  show ?thesis
  proof (cases "x \<in> v_visited v")
    case True
    have same: "visitNeighbor r sel reason curG d v nb = v"
      using True alg by (simp add: visitNeighbor_eq x_def)
    have "bfsLinks r v cur X"
      unfolding bfsLinks_def using lk True by blast
    then show ?thesis unfolding same bfsExp_def using S L by simp
  next
    case False
    then have xnc: "x \<notin> v_closed v" using cv by auto
    define v' where "v' = discover r sel reason curG d v nb"
    have vn: "visitNeighbor r sel reason curG d v nb = v'"
      using False xnc alg by (simp add: visitNeighbor_eq x_def v'_def)
    define it where "it = makeItem (coordOfKey (r_adapter r) x) x bfs (curG + 1) 0 (d + 1)
        (heuristicWeight (r_options r))"
    have f: "v_queue v' = v_queue v @ [it]" "v_closed v' = v_closed v"
      "v_visited v' = insert x (v_visited v)" "v_cameFrom v' = (v_cameFrom v)(x \<mapsto> cur)"
      using discover_queue[OF fk, of sel reason curG d v nb]
      by (simp_all add: v'_def it_def x_def alg sk)
    have ik: "fi_key it = x" and idp: "fi_depth it = Some (d + 1)"
      by (simp_all add: it_def makeItem_bfs_depth)
    have cr: "cur \<in> reachableKeys r" using cc cv s(4) by auto
    have xr: "x \<in> reachableKeys r" and xle: "hopDist r x \<le> d + 1"
      using reach_hop[OF cr hp] dc by (simp_all add: x_def)
    have "\<not> hopDist r x \<le> d" using l(6)[OF xr] False by blast
    then have xd: "hopDist r x = d + 1" using xle by simp
    have xnq: "x \<notin> fi_key ` set (v_queue v)" using False s(3) by auto
    have xns: "x \<noteq> r_startKey r" using False s(5) by auto
    have shape: "bfsShape r v'"
      unfolding bfsShape_def f using s xnq xnc xr by (auto simp: ik)
    have lev2: "fi_depth j = Some (hopDist r (fi_key j)) \<and> d \<le> hopDist r (fi_key j)
        \<and> hopDist r (fi_key j) \<le> d + 1" if "j \<in> set (v_queue v')" for j
    proof (cases "j = it")
      case True
      then show ?thesis by (simp add: ik idp xd)
    next
      case False
      then have jq: "j \<in> set (v_queue v)" using that by (simp add: f)
      show ?thesis using l(2)[OF jq] l(3)[OF jq] l(4)[OF jq] by simp
    qed
    have lev3: "sorted (map (\<lambda>it. hopDist r (fi_key it)) (v_queue v'))"
      using l(5) l(4) by (auto simp: f sorted_append ik xd)
    have levels: "bfsLevels r v' d"
      unfolding bfsLevels_def using l(1) lev2 lev3 l(6) l(7) by (auto simp: f)
    have link1: "b \<in> v_visited v' \<or> (a = cur \<and> b \<in> X)" if "a \<in> v_closed v'" "hop r a b" for a b
      using lk(1)[of a b] that by (auto simp: f)
    have link3: "\<exists>p. v_cameFrom v' y = Some p \<and> p \<in> v_closed v' \<and> hop r p y
              \<and> hopDist r y = hopDist r p + 1"
      if "y \<in> v_visited v'" "y \<noteq> r_startKey r" for y
    proof (cases "y = x")
      case True
      then show ?thesis using cc hp xd dc by (simp add: f x_def)
    next
      case False
      then have "y \<in> v_visited v" using that(1) by (simp add: f)
      from lk(3)[OF this that(2)] False show ?thesis by (simp add: f)
    qed
    have links: "bfsLinks r v' cur X"
      unfolding bfsLinks_def using link1 link3 lk(2) xns by (auto simp: f)
    show ?thesis unfolding vn bfsExp_def using shape levels links by simp
  qed
qed

lemma bfs_fold:
  assumes alg: "r_alg r = bfs" and dc: "hopDist r cur = d" and sk: "fi_key sel = cur"
  shows "bfsExp r v d cur (nb_key ` set nbs) \<Longrightarrow> cur \<in> v_closed v \<Longrightarrow>
     (\<forall>nb \<in> set nbs. hop r cur (nb_key nb)) \<Longrightarrow>
     bfsExp r (foldl (visitNeighbor r sel reason curG d) v nbs) d cur {}"
proof (induction nbs arbitrary: v)
  case Nil
  then show ?case by simp
next
  case (Cons nb nbs)
  have E: "bfsExp r v d cur (insert (nb_key nb) (nb_key ` set nbs))" using Cons.prems(1) by simp
  have hp: "hop r cur (nb_key nb)" using Cons.prems(3) by simp
  have 1: "bfsExp r (visitNeighbor r sel reason curG d v nb) d cur (nb_key ` set nbs)"
    by (rule bfs_visit[OF alg E Cons.prems(2) dc hp sk])
  have 2: "cur \<in> v_closed (visitNeighbor r sel reason curG d v nb)" using Cons.prems(2) by simp
  have 3: "\<forall>nb \<in> set nbs. hop r cur (nb_key nb)" using Cons.prems(3) by simp
  show ?case using Cons.IH[OF 1 2 3] by simp
qed

lemma bfs_iteration:
  assumes alg: "r_alg r = bfs" and E: "bfsExp r v d0 c0 {}"
    and ne: "frontierToArray (r_fk r) v \<noteq> []" and it: "iteration r v = Continue v'"
  shows "\<exists>d c k. bfsExp r v' d c {} \<and> k \<notin> v_closed v \<and> v_closed v' = insert k (v_closed v)"
proof -
  note fk = bfs_fk[OF alg]
  from ne obtain sel rest where q: "v_queue v = sel # rest"
    by (cases "v_queue v") (simp_all add: frontierToArray_def fk)
  define v1 where "v1 = v\<lparr>v_queue := rest\<rparr>"
  have sn: "selectNext (r_fk r) v = (Some sel, v1)" by (simp add: selectNext_def fk q v1_def)
  from E have S: "bfsShape r v" and L: "bfsLevels r v d0" by (simp_all add: bfsExp_def)
  define k where "k = fi_key sel"
  define d where "d = hopDist r k"
  have knc: "k \<notin> v_closed v" using bfsShapeD(2)[OF S] q by (auto simp: k_def)
  have kg: "k \<noteq> r_goalKey r"
  proof
    assume "k = r_goalKey r"
    then have "iteration r v \<noteq> Continue v'"
      using knc by (simp add: iteration_eq sn k_def split: option.split)
    then show False using it by simp
  qed
  have v': "v' = expandNode r sel (selectStep r sel v1)"
    using it knc kg by (simp add: iteration_eq sn k_def)
  define v3 where "v3 = expandStart r sel (selectStep r sel v1)"
  have f: "v_queue v3 = rest" "v_closed v3 = insert (fi_key sel) (v_closed v)"
    "v_visited v3 = v_visited v" "v_cameFrom v3 = v_cameFrom v"
    by (simp_all add: v3_def v1_def)
  have E3: "bfsExp r v3 d k (nb_key ` set (neighbors (r_adapter r) k))"
    unfolding d_def k_def by (rule bfs_pop[OF E q kg[unfolded k_def] f])
  have dp: "fi_depth sel = Some d"
    using bfsLevelsD(2)[OF L, of sel] by (simp add: q d_def k_def)
  have c3: "k \<in> v_closed v3" by (simp add: f k_def)
  have hops: "\<forall>nb \<in> set (neighbors (r_adapter r) k). hop r k (nb_key nb)" by (simp add: hop_def)
  have "v' = foldl (visitNeighbor r sel (selectionReasonOf (r_alg r) sel)
              (case v_gScore (selectStep r sel v1) (fi_key sel) of Some g \<Rightarrow> g | None \<Rightarrow> 0) d)
            v3 (neighbors (r_adapter r) k)"
    by (simp add: v' expandNode_def v3_def dp k_def)
  moreover have "bfsExp r (foldl (visitNeighbor r sel (selectionReasonOf (r_alg r) sel)
              (case v_gScore (selectStep r sel v1) (fi_key sel) of Some g \<Rightarrow> g | None \<Rightarrow> 0) d)
            v3 (neighbors (r_adapter r) k)) d k {}"
    by (rule bfs_fold[OF alg d_def[symmetric] k_def[symmetric] E3 c3 hops])
  ultimately have "bfsExp r v' d k {}" by simp
  moreover have "v_closed v' = insert k (v_closed v)"
    by (simp add: v' expandNode_def k_def v1_def)
  ultimately show ?thesis using knc by blast
qed


subsection \<open>The path that is found\<close>

lemma bfs_walkBack:
  assumes S: "bfsShape r v" and K: "bfsLinks r v cur X" and ne: "[] \<notin> reachableKeys r"
  shows "k \<in> v_visited v \<Longrightarrow>
     \<exists>ks. walkBack (v_cameFrom v) (r_startKey r) k out = Some (out @ ks)
        \<and> length ks = hopDist r k
        \<and> successively (\<lambda>a b. hop r b a) (k # ks)
        \<and> last (k # ks) = r_startKey r"
proof (induction n \<equiv> "hopDist r k" arbitrary: k out)
  case 0
  have "k \<in> reachableKeys r" using bfsShapeD(4)[OF S] "0.prems" by auto
  then have k: "k = r_startKey r" using hopDist_0 "0.hyps" by simp
  have "walkBack (v_cameFrom v) (r_startKey r) k out = Some out"
    unfolding k by (subst walkBack.simps) simp
  then show ?case using "0.hyps" k by simp
next
  case (Suc n)
  have kns: "k \<noteq> r_startKey r" using Suc.hyps(2) by auto
  from bfsLinksD(3)[OF K Suc.prems kns] obtain p where
    p: "v_cameFrom v k = Some p" "p \<in> v_closed v" "hop r p k" "hopDist r k = hopDist r p + 1"
    by blast
  have pv: "p \<in> v_visited v" using p(2) bfsShapeD(3)[OF S] by auto
  then have "p \<in> reachableKeys r" using bfsShapeD(4)[OF S] by auto
  then have pne: "p \<noteq> []" using ne by auto
  have pn: "n = hopDist r p" using p(4) Suc.hyps(2) by simp
  from Suc.hyps(1)[OF pn pv, of "out @ [p]"] obtain ks where
    ks: "walkBack (v_cameFrom v) (r_startKey r) p (out @ [p]) = Some ((out @ [p]) @ ks)"
      "length ks = hopDist r p" "successively (\<lambda>a b. hop r b a) (p # ks)"
      "last (p # ks) = r_startKey r"
    by blast
  have "walkBack (v_cameFrom v) (r_startKey r) k out
          = walkBack (v_cameFrom v) (r_startKey r) p (out @ [p])"
    using kns p(1) pne by (subst walkBack.simps) simp
  then have "walkBack (v_cameFrom v) (r_startKey r) k out = Some (out @ (p # ks))"
    using ks(1) by simp
  moreover have "length (p # ks) = hopDist r k" using ks(2) p(4) by simp
  moreover have "successively (\<lambda>a b. hop r b a) (k # p # ks)" using ks(3) p(3) by simp
  moreover have "last (k # p # ks) = r_startKey r" using ks(4) by simp
  ultimately show ?case by blast
qed

lemma bfs_path:
  assumes S: "bfsShape r v" and K: "bfsLinks r v cur X" and ne: "[] \<notin> reachableKeys r"
    and g: "r_goalKey r \<in> v_visited v"
  shows "\<exists>ks. reconstructPathCoords (r_adapter r) (v_cameFrom v) (r_startKey r) (r_goalKey r)
               = Some (map (coordOfKey (r_adapter r)) ks)
        \<and> length ks = hopDist r (r_goalKey r) + 1
        \<and> successively (hop r) ks
        \<and> hd ks = r_startKey r \<and> last ks = r_goalKey r"
proof (cases "r_startKey r = r_goalKey r")
  case True
  have "reconstructPathCoords (r_adapter r) (v_cameFrom v) (r_startKey r) (r_goalKey r)
          = Some (map (coordOfKey (r_adapter r)) [r_startKey r])"
    using True by (simp add: reconstructPathCoords_def)
  moreover have "hopDist r (r_goalKey r) = 0" using True[symmetric] by simp
  ultimately show ?thesis using True by (intro exI[of _ "[r_startKey r]"]) simp
next
  case False
  then have gns: "r_goalKey r \<noteq> r_startKey r" by simp
  from bfsLinksD(3)[OF K g gns] have cf: "v_cameFrom v (r_goalKey r) \<noteq> None" by auto
  from bfs_walkBack[OF S K ne g, of "[r_goalKey r]"] obtain ks where
    ks: "walkBack (v_cameFrom v) (r_startKey r) (r_goalKey r) [r_goalKey r] = Some ([r_goalKey r] @ ks)"
      "length ks = hopDist r (r_goalKey r)"
      "successively (\<lambda>a b. hop r b a) (r_goalKey r # ks)"
      "last (r_goalKey r # ks) = r_startKey r"
    by blast
  let ?kl = "rev (r_goalKey r # ks)"
  have "reconstructPathCoords (r_adapter r) (v_cameFrom v) (r_startKey r) (r_goalKey r)
          = Some (map (coordOfKey (r_adapter r)) ?kl)"
    using False cf ks(1) by (simp add: reconstructPathCoords_def)
  moreover have "length ?kl = hopDist r (r_goalKey r) + 1" using ks(2) by simp
  moreover have "successively (hop r) ?kl"
    using ks(3) by (simp only: successively_rev)
  moreover have "hd ?kl = r_startKey r" using ks(4) by (simp only: hd_rev)
  moreover have "last ?kl = r_goalKey r" by (simp only: last_rev list.sel)
  ultimately show ?thesis by blast
qed

lemma lastFoundPath_snoc:
  assumes "s_phase s = Found" "s_path s = Some pth"
  shows "lastFoundPath (sts @ [s]) = pth"
  using assms by (simp add: lastFoundPath_def)

lemma bfs_finds:
  assumes alg: "r_alg r = bfs"
    and gr: "r_goalKey r \<in> reachableKeys r"
    and ne: "[] \<notin> reachableKeys r"
    and fin: "finite (reachableKeys r)"
    and cap: "int (card (reachableKeys r)) \<le> maxIterations r"
  shows "\<exists>m w ks. runLoop r = Some (m, w)
        \<and> t_found (traceOf r w)
        \<and> t_path (traceOf r w) = map (coordOfKey (r_adapter r)) ks
        \<and> length ks = hopDist r (r_goalKey r) + 1
        \<and> successively (hop r) ks
        \<and> hd ks = r_startKey r \<and> last ks = r_goalKey r"
proof -
  note fk = bfs_fk[OF alg]
  from runLoop_total[of r] obtain m w where rl: "runLoop r = Some (m, w)" by blast
  define I where "I = (\<lambda>n v. (\<exists>d c. bfsExp r v d c {}) \<and> n = card (v_closed v))"
  have I0: "I 0 (seed r)" using bfs_seed[OF alg, of "[]"] by (auto simp: I_def)
  have Istep: "I (n + 1) v'"
    if "I n v" "frontierToArray (r_fk r) v \<noteq> []" "int (n + 1) \<le> maxIterations r"
      "iteration r v = Continue v'" for n v v'
  proof -
    from that(1) obtain d c where E: "bfsExp r v d c {}" and n: "n = card (v_closed v)"
      by (auto simp: I_def)
    from bfs_iteration[OF alg E that(2,4)] obtain d' c' k where
      E': "bfsExp r v' d' c' {}" and k: "k \<notin> v_closed v" "v_closed v' = insert k (v_closed v)"
      by blast
    have "v_closed v \<subseteq> reachableKeys r"
      using E bfsShapeD(3,4)[of r v] by (auto simp: bfsExp_def)
    then have "finite (v_closed v)" using fin by (rule finite_subset)
    then have "card (v_closed v') = n + 1" using k n by simp
    then show ?thesis using E' by (auto simp: I_def)
  qed
  have "\<exists>n' v'. I n' v' \<and>
               ((frontierToArray (r_fk r) v' = [] \<and> m = n' \<and> w = v')
              \<or> (frontierToArray (r_fk r) v' \<noteq> [] \<and> maxIterations r < int (n' + 1)
                    \<and> m = n' + 1 \<and> w = exhaustedStep r v')
              \<or> (frontierToArray (r_fk r) v' \<noteq> [] \<and> int (n' + 1) \<le> maxIterations r
                    \<and> m = n' + 1 \<and> iteration r v' = Break w))"
    by (rule mainLoop_exit_Some[where I = I, OF rl[unfolded runLoop_def] I0]) (rule Istep)
  then obtain n' v' where Iv: "I n' v'"
    and ex: "(frontierToArray (r_fk r) v' = [] \<and> m = n' \<and> w = v')
              \<or> (frontierToArray (r_fk r) v' \<noteq> [] \<and> maxIterations r < int (n' + 1)
                    \<and> m = n' + 1 \<and> w = exhaustedStep r v')
              \<or> (frontierToArray (r_fk r) v' \<noteq> [] \<and> int (n' + 1) \<le> maxIterations r
                    \<and> m = n' + 1 \<and> iteration r v' = Break w)"
    by blast
  from Iv obtain d c where E: "bfsExp r v' d c {}" and n': "n' = card (v_closed v')"
    by (auto simp: I_def)
  from E have S: "bfsShape r v'" and K: "bfsLinks r v' c {}" by (simp_all add: bfsExp_def)
  note s = bfsShapeD[OF S]
  have fa: "frontierToArray (r_fk r) v' = v_queue v'" by (simp add: frontierToArray_def fk)
  have not_empty: "v_queue v' \<noteq> []"
  proof
    assume e: "v_queue v' = []"
    then have vc: "v_visited v' = v_closed v'" using s(3) by simp
    have "reachableKeys r \<subseteq> v_closed v'"
    proof (rule reachable_closed)
      show "r_startKey r \<in> v_closed v'" using s(5) vc by simp
      show "k' \<in> v_closed v'" if "k \<in> v_closed v'" "hop r k k'" for k k'
        using bfsLinksD(1)[OF K that] vc by simp
    qed
    then show False using gr s(6) by auto
  qed
  then obtain sel rest where q: "v_queue v' = sel # rest" by (cases "v_queue v'") auto
  have selv: "fi_key sel \<in> v_visited v'" and selc: "fi_key sel \<notin> v_closed v'"
    using s(2,3) q by auto
  have under: "int (n' + 1) \<le> maxIterations r"
  proof -
    have sub: "insert (fi_key sel) (v_closed v') \<subseteq> reachableKeys r"
      using s(3,4) selv by auto
    have "finite (v_closed v')" using sub fin by (auto intro: finite_subset)
    then have "card (insert (fi_key sel) (v_closed v')) = n' + 1" using selc n' by simp
    then have "n' + 1 \<le> card (reachableKeys r)" using card_mono[OF fin sub] by simp
    then show ?thesis using cap by simp
  qed
  from ex not_empty under have br: "iteration r v' = Break w" by (simp add: fa)
  have sn: "selectNext (r_fk r) v' = (Some sel, v'\<lparr>v_queue := rest\<rparr>)"
    by (simp add: selectNext_def fk q)
  from iteration_Break[OF br] obtain pth where
    g: "fi_key sel = r_goalKey r"
    and rc: "reconstructPathCoords (r_adapter r) (v_cameFrom v') (r_startKey r) (r_goalKey r) = Some pth"
    and w: "w = foundStep r sel pth (selectStep r sel (v'\<lparr>v_queue := rest\<rparr>))"
    by (auto simp: sn)
  have gv: "r_goalKey r \<in> v_visited v'" using selv g by simp
  from bfs_path[OF S K ne gv] rc obtain ks where
    ks: "pth = map (coordOfKey (r_adapter r)) ks" "length ks = hopDist r (r_goalKey r) + 1"
      "successively (hop r) ks" "hd ks = r_startKey r" "last ks = r_goalKey r"
    by auto
  obtain sts fs where st: "v_steps w = sts @ [fs]" and fp: "s_phase fs = Found" "s_path fs = Some pth"
    unfolding w foundStep_steps by simp
  have tf: "t_found (traceOf r w)" by (simp add: traceOf_found st fp)
  have tp: "t_path (traceOf r w) = pth"
    using tf by (simp add: traceOf_def Let_def st lastFoundPath_snoc[OF fp])
  show ?thesis using rl tf tp ks by blast
qed

subsection \<open>Breadth-first search on a grid\<close>

definition gridCells :: "Grid \<Rightarrow> string set" where
  "gridCells gr = (\<lambda>(x, y). gridKey x y) ` ({0..<width gr} \<times> {0..<height gr})"

lemma finite_gridCells [simp]: "finite (gridCells gr)"
  by (simp add: gridCells_def)

lemma card_gridCells: "card (gridCells gr) \<le> nat (width gr) * nat (height gr)"
proof -
  have "card (gridCells gr) \<le> card ({0..<width gr} \<times> {0..<height gr})"
    unfolding gridCells_def by (rule card_image_le) simp
  then show ?thesis by (simp add: card_cartesian_product)
qed

lemma gridCells_iff:
  "k \<in> gridCells gr \<longleftrightarrow>
     (\<exists>x y. k = gridKey x y \<and> 0 \<le> x \<and> x < width gr \<and> 0 \<le> y \<and> y < height gr)"
  by (force simp: gridCells_def)

lemma grid_hop_cell:
  assumes "kind env = kind_grid" "hop (runOf env s g opts) k k'"
  shows "k' \<in> gridCells (grid env)"
proof -
  from assms obtain nb where nb: "nb \<in> set (gridNeighbors (grid env) k)" "k' = nb_key nb"
    by (auto simp: hop_def runOf_def adapterOf_def)
  from gridNeighbors_keys[OF nb(1)] nb(2) show ?thesis
    unfolding gridCells_iff by auto
qed

lemma grid_reachable:
  assumes "kind env = kind_grid"
  shows "reachableKeys (runOf env s g opts) \<subseteq> insert s (gridCells (grid env))"
proof (rule reachable_closed)
  show "r_startKey (runOf env s g opts) \<in> insert s (gridCells (grid env))"
    by (simp add: runOf_def)
  show "k' \<in> insert s (gridCells (grid env))"
    if "k \<in> insert s (gridCells (grid env))" "hop (runOf env s g opts) k k'" for k k'
    using grid_hop_cell[OF assms that(2)] by simp
qed

lemma grid_reachable_finite:
  assumes "kind env = kind_grid"
  shows "finite (reachableKeys (runOf env s g opts))"
  by (rule finite_subset[OF grid_reachable[OF assms]]) simp

lemma grid_reachable_nonempty:
  assumes "kind env = kind_grid" "s \<noteq> []"
  shows "[] \<notin> reachableKeys (runOf env s g opts)"
proof
  assume "[] \<in> reachableKeys (runOf env s g opts)"
  then have "[] \<in> insert s (gridCells (grid env))" using grid_reachable[OF assms(1)] by blast
  then have "[] \<in> gridCells (grid env)" using assms(2) by auto
  then obtain x y where "[] = gridKey x y" unfolding gridCells_iff by blast
  then show False using gridKey_nonempty[of x y] by simp
qed

lemma small_grid_reachable:
  assumes "kind env = kind_grid" "width (grid env) * height (grid env) < 10000"
  shows "int (card (reachableKeys (runOf env s g opts))) \<le> maxIterations (runOf env s g opts)"
proof -
  let ?w = "width (grid env)" and ?h = "height (grid env)"
  let ?R = "reachableKeys (runOf env s g opts)"
  have "card ?R \<le> card (insert s (gridCells (grid env)))"
    by (rule card_mono[OF _ grid_reachable[OF assms(1)]]) simp
  also have "\<dots> \<le> card (gridCells (grid env)) + 1" by (simp add: card_insert_if)
  also have "\<dots> \<le> nat ?w * nat ?h + 1" using card_gridCells[of "grid env"] by simp
  finally have c: "card ?R \<le> nat ?w * nat ?h + 1" .
  have mx: "maxIterations (runOf env s g opts) = max 100 (min (?w * ?h * 20) 10000)"
    using assms(1) by (simp add: maxIterations_def runOf_def sizeBasisOf_def)
  show ?thesis
  proof (cases "0 \<le> ?w \<and> 0 \<le> ?h")
    case True
    then have "int (nat ?w * nat ?h) = ?w * ?h" by simp
    moreover have "int (card ?R) \<le> int (nat ?w * nat ?h) + 1" using c by linarith
    ultimately have "int (card ?R) \<le> ?w * ?h + 1" by simp
    then show ?thesis using assms(2) unfolding mx by linarith
  next
    case False
    then have z: "nat ?w * nat ?h = 0" by auto
    have "card ?R \<le> 1" using c unfolding z by simp
    then show ?thesis unfolding mx by linarith
  qed
qed

subsection \<open>A corridor\<close>

text \<open>
  A grid of height 1 without walls; \<open>cell n\<close> is the key of its \<open>n\<close>-th cell. Breadth-first
  search from cell 0.
\<close>

definition corridorEnv :: "int \<Rightarrow> Environment" where
  "corridorEnv w =
     \<lparr>env_id = id_grid, env_name = ''corridor'', kind = kind_grid,
      grid = \<lparr>width = w, height = 1, walls = {}\<rparr>,
      graph = \<lparr>directed = True, nodes = [], edges = []\<rparr>,
      defaultStartKey = ''0,0'', defaultGoalKey = ''0,0'', explanationPoints = None\<rparr>"

definition bfsOpts :: RunOptions where
  "bfsOpts = \<lparr>environmentId = id_grid, algorithm = bfs, heuristic = manhattan,
               heuristicWeight = 1, diagonal = False\<rparr>"

definition cell :: "nat \<Rightarrow> string" where
  "cell n = gridKey (int n) 0"

definition corridorRun :: "int \<Rightarrow> nat \<Rightarrow> Run" where
  "corridorRun w m = runOf (corridorEnv w) (cell 0) (cell m) bfsOpts"

lemma cell_inj [simp]: "cell i = cell j \<longleftrightarrow> i = j"
  by (simp add: cell_def)

lemma cell_literals: "cell 0 = ''0,0''" "cell 2 = ''2,0''" "cell 10000 = ''10000,0''"
  by (simp_all add: cell_def gridKey_def showNum_def showNat.simps digitChar_literals)

lemma corridorRun_simps [simp]:
  "r_fk (corridorRun w m) = queue" "r_alg (corridorRun w m) = bfs"
  "r_startKey (corridorRun w m) = cell 0" "r_goalKey (corridorRun w m) = cell m"
  "maxIterations (corridorRun w m) = max 100 (min (w * 20) 10000)"
  by (simp_all add: corridorRun_def runOf_def r_fk_def r_alg_def bfsOpts_def corridorEnv_def
      sizeBasisOf_def maxIterations_def)

lemma corridor_neighbors:
  assumes "int n < w"
  shows "neighbors (r_adapter (corridorRun w m)) (cell n) =
     (if int n + 1 < w then [\<lparr>nb_key = cell (Suc n), nb_cost = 1\<rparr>] else [])
     @ (if 0 < n then [\<lparr>nb_key = cell (n - 1), nb_cost = 1\<rparr>] else [])"
proof -
  have a: "int n + 1 = int (Suc n)" by simp
  have b: "0 < n \<Longrightarrow> int n - 1 = int (n - 1)" by simp
  show ?thesis
    using assms
    by (auto simp: corridorRun_def runOf_def adapterOf_def corridorEnv_def cell_def
        gridNeighbors_gridKey gridCandidate_def b simp del: of_nat_Suc)
qed

lemma corridor_hopsTo:
  assumes "int n < w"
  shows "hopsTo (corridorRun w m) n (cell n)"
  using assms
proof (induction n)
  case 0
  show ?case by simp
next
  case (Suc n)
  then have n: "int n < w" "int n + 1 < w" by simp_all
  have "hop (corridorRun w m) (cell n) (cell (Suc n))"
    using n(2) by (simp add: hop_def corridor_neighbors[OF n(1)])
  then show ?case using Suc.IH[OF n(1)] by (auto simp: hopsTo_Suc)
qed


text \<open>The corridor of 10001 cells, with the last cell as the goal: the cap is 10000.\<close>

definition longRun :: Run where
  "longRun = corridorRun 10001 10000"

lemma longRun_simps [simp]:
  "r_fk longRun = queue" "r_alg longRun = bfs" "r_startKey longRun = cell 0"
  "r_goalKey longRun = cell 10000" "maxIterations longRun = 10000"
  by (simp_all add: longRun_def)

definition corrAt :: "nat \<Rightarrow> Locals \<Rightarrow> bool" where
  "corrAt n v =
     (\<exists>it. v_queue v = [it] \<and> fi_key it = cell n
        \<and> v_closed v = cell ` {..<n} \<and> v_visited v = cell ` {..n})"

lemma corrAt_seed: "corrAt 0 (seed longRun)"
  by (simp add: corrAt_def seed_def Let_def)

lemma corrAt_step:
  assumes "corrAt n v" "n < 10000"
  shows "\<exists>v'. iteration longRun v = Continue v' \<and> corrAt (Suc n) v'"
proof -
  from assms(1) obtain it where q: "v_queue v = [it]" and k: "fi_key it = cell n"
    and c: "v_closed v = cell ` {..<n}" and vi: "v_visited v = cell ` {..n}"
    by (auto simp: corrAt_def)
  have sel: "selectNext queue v = (Some it, v\<lparr>v_queue := []\<rparr>)" by (simp add: selectNext_def q)
  have nb: "neighbors (r_adapter longRun) (cell n) =
     [\<lparr>nb_key = cell (Suc n), nb_cost = 1\<rparr>]
     @ (if 0 < n then [\<lparr>nb_key = cell (n - 1), nb_cost = 1\<rparr>] else [])"
    using assms(2) corridor_neighbors[of n 10001 10000] by (simp add: longRun_def)
  have notcl: "cell n \<notin> cell ` {..<n}" by auto
  have notgoal: "cell n \<noteq> cell 10000" using assms(2) by simp
  have nb1: "cell (Suc n) \<notin> insert (cell n) (cell ` {..<n})" by auto
  have nb2: "cell (Suc n) \<notin> cell ` {..n}" by auto
  have behind: "0 < n \<Longrightarrow> cell (n - 1) \<in> insert (cell n) (cell ` {..<n})" by auto
  have s1: "{..<Suc n} = insert n {..<n}" and s2: "{..Suc n} = insert (Suc n) {..n}" by auto
  show ?thesis
    using notcl notgoal nb1 nb2 behind
    by (simp add: iteration_eq sel k c vi expandNode_def nb
        visitNeighbor_eq corrAt_def discover_def pushFrontier_def s1 s2)
qed

lemma corridor_loop:
  assumes "corrAt n v" "n \<le> 10000"
  shows "\<exists>w. mainLoop longRun n v = Some (10001, w)"
  using assms
proof (induction "10000 - n" arbitrary: n v)
  case 0
  then have n: "n = 10000" by simp
  have "frontierToArray queue v \<noteq> []" using "0.prems"(1) by (auto simp: corrAt_def frontierToArray_def)
  then show ?case unfolding n by (subst mainLoop.simps) simp
next
  case (Suc d)
  then have n: "n < 10000" by simp
  from corrAt_step[OF Suc.prems(1) n] obtain v' where it: "iteration longRun v = Continue v'"
    and at: "corrAt (Suc n) v'" by auto
  have ne: "frontierToArray queue v \<noteq> []" using Suc.prems(1) by (auto simp: corrAt_def frontierToArray_def)
  have "mainLoop longRun n v = mainLoop longRun (n + 1) v'"
    using ne n it by (subst mainLoop.simps) simp
  moreover have "\<exists>w. mainLoop longRun (Suc n) v' = Some (10001, w)"
    using Suc.hyps(1)[of "Suc n" v'] Suc.hyps(2) at n by simp
  ultimately show ?case by simp
qed

lemma corridor_not_found:
  "\<exists>t. buildTrace (corridorEnv 10001) (cell 0) (cell 10000) bfsOpts = Some t
      \<and> \<not> t_found t \<and> t_path t = []"
proof -
  from corridor_loop[OF corrAt_seed] obtain w where rl: "runLoop longRun = Some (10001, w)"
    by (auto simp: runLoop_def)
  from runLoop_facts(5)[OF rl] obtain v' where w: "w = exhaustedStep longRun v'"
    and inv: "stepsInv longRun v'" by auto
  have nf: "\<forall>s \<in> set (v_steps v'). s_phase s \<noteq> Found" using inv by (simp add: stepsInv_def)
  have tf: "\<not> t_found (traceOf longRun w)"
    using nf by (simp add: traceOf_found w exhaustedStep_steps)
  then have tp: "t_path (traceOf longRun w) = []" by (simp add: traceOf_def Let_def)
  have "buildTrace (corridorEnv 10001) (cell 0) (cell 10000) bfsOpts = Some (traceOf longRun w)"
    using rl by (simp add: buildTrace_def runTrace_def longRun_def corridorRun_def)
  then show ?thesis using tf tp by blast
qed

section \<open>The claims\<close>

subsection \<open>C10: the contract of MinHeap\<close>

text \<open>
  Claim C10. After any sequence of \<^verbatim>\<open>push\<close> and \<^verbatim>\<open>pop\<close> calls on a new heap:
  \<^verbatim>\<open>pop\<close> on an empty heap returns none and leaves it empty; \<^verbatim>\<open>pop\<close> on a non-empty
  heap returns a stored node whose priority is least among the stored nodes (priorities
  only are compared) and removes exactly that node; and \<^verbatim>\<open>toArray\<close> returns a new array
  \<open>r\<close>, different from the heap's own, with the heap's contents, which no later heap
  operation changes and whose overwriting does not change the heap.
\<close>

theorem MinHeap_contract:
  fixes st :: "'a HeapStore" and ops :: "'a HeapOp list"
  defines "this \<equiv> fst (MinHeap_new st)"
  defines "st1 \<equiv> runOps (snd (MinHeap_new st)) this ops"
  defines "r \<equiv> fst (MinHeap_toArray st1 this)"
  defines "st2 \<equiv> snd (MinHeap_toArray st1 this)"
  shows "(MinHeap_size st1 this = 0 \<longrightarrow>
            fst (MinHeap_pop st1 this) = None \<and> MinHeap_size (snd (MinHeap_pop st1 this)) this = 0)
       \<and> (MinHeap_size st1 this \<noteq> 0 \<longrightarrow>
            (\<exists>top. fst (MinHeap_pop st1 this) = Some top
                 \<and> top \<in> set (objs st1 this)
                 \<and> (\<forall>x \<in> set (objs st1 this). hn_priority top \<le> hn_priority x)
                 \<and> mset (objs (snd (MinHeap_pop st1 this)) this) + {#top#} = mset (objs st1 this)))
       \<and> r \<noteq> this
       \<and> objs st2 r = objs st1 this
       \<and> objs st2 this = objs st1 this
       \<and> (\<forall>ops'. objs (runOps st2 this ops') r = objs st1 this)
       \<and> (\<forall>xs. objs (st2\<lparr>objs := (objs st2)(r := xs)\<rparr>) this = objs st1 this)"
proof -
  have this_lt: "this < fresh st1"
    by (simp add: st1_def this_def runOps_fresh MinHeap_new_def)
  have r_eq: "r = fresh st1" by (simp add: r_def MinHeap_toArray_def)
  have ne: "r \<noteq> this" using this_lt r_eq by simp
  have ok: "heap_ok (objs st1 this)"
    unfolding st1_def by (rule runOps_heap_ok) (simp add: this_def MinHeap_new_def heap_ok_def)
  have c1: "MinHeap_size st1 this = 0 \<longrightarrow>
      fst (MinHeap_pop st1 this) = None \<and> MinHeap_size (snd (MinHeap_pop st1 this)) this = 0"
    by (simp add: MinHeap_size_def MinHeap_pop_def pop_def)
  have c2: "MinHeap_size st1 this \<noteq> 0 \<longrightarrow>
      (\<exists>top. fst (MinHeap_pop st1 this) = Some top \<and> top \<in> set (objs st1 this)
         \<and> (\<forall>x \<in> set (objs st1 this). hn_priority top \<le> hn_priority x)
         \<and> mset (objs (snd (MinHeap_pop st1 this)) this) + {#top#} = mset (objs st1 this))"
  proof
    assume "MinHeap_size st1 this \<noteq> 0"
    then have nonempty: "objs st1 this \<noteq> []" by (simp add: MinHeap_size_def)
    let ?top = "objs st1 this ! 0"
    have "fst (MinHeap_pop st1 this) = Some ?top"
      using pop_nonempty[OF nonempty] by (simp add: MinHeap_pop_def)
    moreover have "?top \<in> set (objs st1 this)" using nonempty by simp
    moreover have "\<forall>x \<in> set (objs st1 this). hn_priority ?top \<le> hn_priority x"
      using heap_ok_min[OF ok] by blast
    moreover have "mset (objs (snd (MinHeap_pop st1 this)) this) + {#?top#} = mset (objs st1 this)"
      using pop_nonempty[OF nonempty] by (simp add: MinHeap_pop_def)
    ultimately show "\<exists>top. fst (MinHeap_pop st1 this) = Some top \<and> top \<in> set (objs st1 this)
         \<and> (\<forall>x \<in> set (objs st1 this). hn_priority top \<le> hn_priority x)
         \<and> mset (objs (snd (MinHeap_pop st1 this)) this) + {#top#} = mset (objs st1 this)"
      by blast
  qed
  have c4: "objs st2 r = objs st1 this" by (simp add: st2_def r_def MinHeap_toArray_def)
  have c5: "objs st2 this = objs st1 this" using ne by (simp add: st2_def r_eq MinHeap_toArray_def)
  have c6: "\<forall>ops'. objs (runOps st2 this ops') r = objs st1 this"
    by (simp add: runOps_frame[OF ne] c4)
  have c7: "\<forall>xs. objs (st2\<lparr>objs := (objs st2)(r := xs)\<rparr>) this = objs st1 this"
    using ne c5 by simp
  show ?thesis using c1 c2 ne c4 c5 c6 c7 by blast
qed


definition exampleStore :: "string HeapStore" where
  "exampleStore = \<lparr>objs = (\<lambda>_. []), fresh = 0\<rparr>"

definition exampleNode :: "string \<Rightarrow> real \<Rightarrow> string HeapNode" where
  "exampleNode k p = \<lparr>hn_id = k, hn_value = k, hn_priority = p\<rparr>"

definition exampleOps :: "string HeapOp list" where
  "exampleOps = [Push (exampleNode ''a'' 3), Push (exampleNode ''b'' 1),
                 Push (exampleNode ''c'' 2), Pop, Push (exampleNode ''d'' 0)]"

theorem MinHeap_contract_witness:
  "MinHeap_size (runOps (snd (MinHeap_new exampleStore)) 0 exampleOps) 0 \<noteq> 0
   \<and> (\<exists>top. fst (MinHeap_pop (runOps (snd (MinHeap_new exampleStore)) 0 exampleOps) 0) = Some top
          \<and> (\<forall>x \<in> set (objs (runOps (snd (MinHeap_new exampleStore)) 0 exampleOps) 0).
                hn_priority top \<le> hn_priority x))
   \<and> MinHeap_size (runOps (snd (MinHeap_new exampleStore)) 0 [Pop]) 0 = 0
   \<and> fst (MinHeap_pop (runOps (snd (MinHeap_new exampleStore)) 0 [Pop]) 0) = None"
proof -
  have this0: "fst (MinHeap_new exampleStore) = 0"
    by (simp add: MinHeap_new_def exampleStore_def)
  have size1: "MinHeap_size (runOps (snd (MinHeap_new exampleStore)) 0 exampleOps) 0 \<noteq> 0"
    by (simp add: MinHeap_new_def exampleStore_def exampleOps_def exampleNode_def MinHeap_size_def
        MinHeap_push_def MinHeap_pop_def push_def pop_def bubbleUp.simps bubbleDown.simps
        smallestOf_def Let_def)
  have size2: "MinHeap_size (runOps (snd (MinHeap_new exampleStore)) 0 [Pop]) 0 = 0"
    by (simp add: MinHeap_new_def exampleStore_def MinHeap_size_def MinHeap_pop_def pop_def)
  show ?thesis
    using MinHeap_contract[of exampleStore exampleOps] MinHeap_contract[of exampleStore "[Pop]"]
      size1 size2
    unfolding this0 by blast
qed

subsection \<open>C9: start equals goal\<close>


subsection \<open>C2: edges to unknown nodes\<close>

text \<open>
  Claim C2 says that the adapter drops an edge whose endpoint is not in the node list,
  so that no neighbour lies outside the node set. The adjacency construction of
  \<^verbatim>\<open>buildTrace\<close> does not look at the node list. What holds instead, for every graph
  environment: \<open>neighbors k\<close> lists, in edge order, the target of every edge from \<open>k\<close>
  (and, in an undirected graph, the source of every edge to \<open>k\<close>), whether or not it
  is a node; a key that is no node has the coordinate \<open>(0, 0)\<close>; and the run returns.
\<close>

theorem graph_adapter_keeps_edges:
  assumes "kind env \<noteq> kind_grid"
  shows "neighbors (adapterOf env) k =
           concat (map (\<lambda>e. (if e_from e = k then [\<lparr>nb_key = e_to e, nb_cost = e_cost e\<rparr>] else [])
                           @ (if \<not> directed (graph env) \<and> e_to e = k
                              then [\<lparr>nb_key = e_from e, nb_cost = e_cost e\<rparr>] else []))
                       (edges (graph env)))
       \<and> (k \<notin> node_id ` set (nodes (graph env)) \<longrightarrow> coordOfKey (adapterOf env) k = Coord 0 0)
       \<and> (\<exists>t. buildTrace env startKey goalKey opts = Some t)"
proof -
  have "neighbors (adapterOf env) k = concat (map (edgeEntries (directed (graph env)) k) (edges (graph env)))"
    using assms by (simp add: adapterOf_def adjGet_adjacency)
  moreover have "coordOfKey (adapterOf env) k = Coord 0 0" if "k \<notin> node_id ` set (nodes (graph env))"
    using assms that nodeAt_None[of "graph env" k] by (simp add: adapterOf_def)
  moreover have "\<exists>t. buildTrace env startKey goalKey opts = Some t"
    unfolding buildTrace_def by (rule runTrace_total)
  ultimately show ?thesis by (simp add: edgeEntries_def[abs_def])
qed

definition danglingGraph :: Graph where
  "danglingGraph =
     \<lparr>directed = True,
      nodes = [\<lparr>node_id = ''A'', node_at = Coord 3 4, label = None, explanation = None\<rparr>],
      edges = [\<lparr>e_from = ''A'', e_to = ''Z'', e_cost = 1\<rparr>]\<rparr>"

definition danglingEnv :: Environment where
  "danglingEnv =
     \<lparr>env_id = id_custom, env_name = ''dangling'', kind = kind_graph,
      grid = \<lparr>width = 0, height = 0, walls = {}\<rparr>, graph = danglingGraph,
      defaultStartKey = ''A'', defaultGoalKey = ''A'', explanationPoints = None\<rparr>"

text \<open>
  The claim as stated fails: one node \<open>A\<close> and one edge from \<open>A\<close> to the unknown \<open>Z\<close>;
  the neighbours of \<open>A\<close> contain \<open>Z\<close>.
\<close>

theorem dangling_edge_is_kept:
  "\<exists>nb \<in> set (neighbors (adapterOf danglingEnv) ''A'').
      nb_key nb \<notin> node_id ` set (nodes (graph danglingEnv))"
  by (simp add: adapterOf_def danglingEnv_def danglingGraph_def adjacency_def addEdge_def adjGet_def)

definition danglingOpts :: RunOptions where
  "danglingOpts = \<lparr>environmentId = id_custom, algorithm = bfs, heuristic = manhattan,
                    heuristicWeight = 1, diagonal = False\<rparr>"

theorem graph_adapter_keeps_edges_witness:
  "kind danglingEnv \<noteq> kind_grid
   \<and> neighbors (adapterOf danglingEnv) ''A'' = [\<lparr>nb_key = ''Z'', nb_cost = 1\<rparr>]
   \<and> coordOfKey (adapterOf danglingEnv) ''Z'' = Coord 0 0
   \<and> (\<exists>t. buildTrace danglingEnv ''A'' ''Z'' danglingOpts = Some t)"
proof -
  have k: "kind danglingEnv \<noteq> kind_grid" by (simp add: danglingEnv_def)
  have z: "''Z'' \<notin> node_id ` set (nodes (graph danglingEnv))"
    by (simp add: danglingEnv_def danglingGraph_def)
  show ?thesis
    using graph_adapter_keeps_edges[OF k, of "''A''" "''A''" "''Z''" danglingOpts]
      graph_adapter_keeps_edges[OF k, of "''Z''" "''A''" "''Z''" danglingOpts] k z
    by (simp add: danglingEnv_def danglingGraph_def)
qed

subsection \<open>C8: a closed key is never selected again\<close>

text \<open>
  Claim C8. The run returns a trace in which, for every snapshot \<open>i\<close> of phase
  \<open>select\<close> and every snapshot \<open>j\<close> up to and including \<open>i\<close>, the item selected at \<open>i\<close>
  has a key that is not in the closed set recorded at \<open>j\<close>. It holds for all four
  algorithms, stale heap entries or not.
\<close>

theorem closed_never_reselected:
  "\<exists>t. buildTrace env startKey goalKey opts = Some t
      \<and> (\<forall>i j. i < length (t_steps t) \<and> j \<le> i \<and> s_phase (t_steps t ! i) = Select
            \<longrightarrow> (\<exists>sel. s_selected (t_steps t ! i) = Some sel
                    \<and> s_currentKey (t_steps t ! i) = Some (fi_key sel)
                    \<and> fi_key sel \<notin> s_closed (t_steps t ! j)))"
proof -
  from buildTrace_runLoop[of env startKey goalKey opts] obtain m w where
    rl: "runLoop (runOf env startKey goalKey opts) = Some (m, w)"
    and bt: "buildTrace env startKey goalKey opts = Some (traceOf (runOf env startKey goalKey opts) w)"
    by (elim exE conjE)
  have "stepsFacts (runOf env startKey goalKey opts) w" by (rule runLoop_facts(1)[OF rl])
  then show ?thesis using bt stepsFacts_no_reselect by simp
qed

theorem closed_never_reselected_witness:
  "\<exists>t. buildTrace exampleEnv ''A'' ''B'' (exampleOpts dijkstra) = Some t
      \<and> 7 < length (t_steps t) \<and> s_phase (t_steps t ! 7) = Select
      \<and> s_closed (t_steps t ! 2) = {''A''}
      \<and> (\<exists>sel. s_selected (t_steps t ! 7) = Some sel \<and> fi_key sel = ''B''
             \<and> fi_key sel \<notin> s_closed (t_steps t ! 2))"
proof -
  from closed_never_reselected[of exampleEnv "''A''" "''B''" "exampleOpts dijkstra"]
  obtain t where t: "buildTrace exampleEnv ''A'' ''B'' (exampleOpts dijkstra) = Some t"
    and all: "\<forall>i j. i < length (t_steps t) \<and> j \<le> i \<and> s_phase (t_steps t ! i) = Select
            \<longrightarrow> (\<exists>sel. s_selected (t_steps t ! i) = Some sel
                    \<and> s_currentKey (t_steps t ! i) = Some (fi_key sel)
                    \<and> fi_key sel \<notin> s_closed (t_steps t ! j))"
    by (elim exE conjE)
  from example_trace t have
    ph: "map s_phase (t_steps t) = [Init, Select, Expand, Relax, Enqueue, Relax, Enqueue, Select, Found]"
    and cl: "map s_closed (t_steps t) = [{}, {}, {''A''}, {''A''}, {''A''}, {''A''}, {''A''}, {''A''}, {''A''}]"
    and sl: "map (map_option fi_key \<circ> s_selected) (t_steps t)
           = [None, Some ''A'', Some ''A'', Some ''A'', Some ''A'', Some ''A'', Some ''A'', Some ''B'', Some ''B'']"
    by auto
  have len: "7 < length (t_steps t)" and p7: "s_phase (t_steps t ! 7) = Select"
    using map_eq_nthD[OF ph, of 7] by simp_all
  have c2: "s_closed (t_steps t ! 2) = {''A''}" using map_eq_nthD[OF cl, of 2] by simp
  have k7: "map_option fi_key (s_selected (t_steps t ! 7)) = Some ''B''"
    using map_eq_nthD[OF sl, of 7] by simp
  have "(2::nat) \<le> 7" by simp
  with all len p7 have "\<exists>sel. s_selected (t_steps t ! 7) = Some sel
      \<and> s_currentKey (t_steps t ! 7) = Some (fi_key sel)
      \<and> fi_key sel \<notin> s_closed (t_steps t ! 2)"
    by (elim allE[of _ 7] allE[of _ 2]) (erule mp, intro conjI)
  then obtain sel where "s_selected (t_steps t ! 7) = Some sel"
    "fi_key sel \<notin> s_closed (t_steps t ! 2)"
    by (elim exE conjE)
  then show ?thesis using t len p7 c2 k7 by auto
qed

subsection \<open>C1: the why-not list of a selection\<close>

text \<open>
  Claim C1 says that the why-not list of a selection under the heap discipline holds up
  to four of the other frontier items that do not tie the chosen value, those of least
  value, ascending (\<open>whyNotSpec\<close>). The code cuts to four before it drops the ties, so
  a tie among the four least other items costs the list an entry: in the run below, with
  five other items of which one ties, the list has three entries where the claim's has
  four.
\<close>

theorem tie_shortens_whyNot:
  "\<exists>t s sel. buildTrace tieEnv ''S'' ''A'' (exampleOpts dijkstra) = Some t
     \<and> frontierKindFor (algorithm (exampleOpts dijkstra)) = minheap
     \<and> s \<in> set (t_steps t) \<and> s_phase s = Select \<and> s_selected s = Some sel
     \<and> map fi_key (s_frontier s) = [''B'', ''D'', ''C'', ''F'', ''E'']
     \<and> map_option (map (fi_key \<circ> candidate)) (s_whyNot s) = Some [''C'', ''D'', ''E'']
     \<and> map (fi_key \<circ> candidate) (whyNotSpec (s_frontier s) sel metric_g) = [''C'', ''D'', ''E'', ''F'']
     \<and> s_whyNot s \<noteq> Some (whyNotSpec (s_frontier s) sel metric_g)"
proof -
  from tie_trace obtain t s where
    t: "buildTrace tieEnv ''S'' ''A'' (exampleOpts dijkstra) = Some t"
    and s: "s \<in> set (t_steps t)" "s_phase s = Select" "s_selected s = Some (tieItem ''A'' 1)"
    and fr: "s_frontier s = [tieItem ''B'' 1, tieItem ''D'' 3, tieItem ''C'' 2, tieItem ''F'' 5, tieItem ''E'' 4]"
    and wn: "s_whyNot s = Some (map (rejectionOf (tieItem ''A'' 1) metric_g)
                             [tieItem ''C'' 2, tieItem ''D'' 3, tieItem ''E'' 4])"
    by (elim exE conjE)
  have 1: "map fi_key (s_frontier s) = [''B'', ''D'', ''C'', ''F'', ''E'']"
    by (simp add: fr itemOf_def)
  have 2: "map_option (map (fi_key \<circ> candidate)) (s_whyNot s) = Some [''C'', ''D'', ''E'']"
    by (simp add: wn rejectionOf_def itemOf_def)
  have 3: "map (fi_key \<circ> candidate) (whyNotSpec (s_frontier s) (tieItem ''A'' 1) metric_g)
             = [''C'', ''D'', ''E'', ''F'']"
    unfolding fr tie_spec by (simp add: rejectionOf_def itemOf_def)
  have 4: "s_whyNot s \<noteq> Some (whyNotSpec (s_frontier s) (tieItem ''A'' 1) metric_g)"
    using 2 3 by auto
  have fk: "frontierKindFor (algorithm (exampleOpts dijkstra)) = minheap"
    by (simp add: exampleOpts_def)
  show ?thesis
    using t fk s 1 2 3 4
    by (intro exI[of _ t] exI[of _ s] exI[of _ "tieItem ''A'' 1"] conjI)
qed

text \<open>
  Claim C1, amended. Let the four least be the first four of the other frontier items
  in ascending order of the metric (equal values in frontier order), and \<open>t\<close> the number
  of them that tie the chosen value. What \<^verbatim>\<open>compareWhyNot\<close> returns is the list of the
  untied ones among the four least; it is the first \<open>4 - t\<close> entries of the claim's list
  \<open>whyNotSpec\<close>. In every trace, a \<open>select\<close> snapshot under the heap discipline carries
  that list for the frontier it records and the item it selects, under \<open>g\<close> for Dijkstra
  and \<open>f\<close> for A*; under the queue and the stack discipline it carries none.
\<close>

theorem whyNot_lists:
  fixes env :: Environment and startKey goalKey :: string and opts :: RunOptions
    and frontier :: "FrontierItem list" and chosenItem :: FrontierItem and m0 :: Metric
  defines "m \<equiv> (if algorithm opts = dijkstra then metric_g else metric_f)"
  shows "compareWhyNot frontier chosenItem m0
           = map (rejectionOf chosenItem m0)
               (filter (\<lambda>x. \<not> tiesChosen m0 chosenItem x) (fourLeast frontier chosenItem m0))
       \<and> compareWhyNot frontier chosenItem m0
           = take (4 - tiesAmongLeast frontier chosenItem m0) (whyNotSpec frontier chosenItem m0)
       \<and> (\<exists>t. buildTrace env startKey goalKey opts = Some t
            \<and> (\<forall>s \<in> set (t_steps t). s_phase s = Select \<longrightarrow>
                  (\<exists>sel. s_selected s = Some sel
                     \<and> (if frontierKindFor (algorithm opts) = minheap
                         then s_whyNot s
                                = Some (map (rejectionOf sel m)
                                    (filter (\<lambda>x. \<not> tiesChosen m sel x) (fourLeast (s_frontier s) sel m)))
                            \<and> s_whyNot s
                                = Some (take (4 - tiesAmongLeast (s_frontier s) sel m)
                                          (whyNotSpec (s_frontier s) sel m))
                         else s_whyNot s = None))))"
proof -
  define r where "r = runOf env startKey goalKey opts"
  from buildTrace_runLoop[of env startKey goalKey opts] obtain n w where
    rl: "runLoop r = Some (n, w)"
    and bt: "buildTrace env startKey goalKey opts = Some (traceOf r w)"
    unfolding r_def by (elim exE conjE)
  have fk: "r_fk r = frontierKindFor (algorithm opts)" and alg: "r_alg r = algorithm opts"
    by (simp_all add: r_def runOf_def r_fk_def r_alg_def)
  have ok: "\<forall>s \<in> set (v_steps w). s_phase s = Select \<longrightarrow> selectOK r s"
    using runLoop_facts(1)[OF rl] by (simp add: stepsFacts_def)
  have "\<exists>sel. s_selected s = Some sel
          \<and> (if frontierKindFor (algorithm opts) = minheap
              then s_whyNot s
                     = Some (map (rejectionOf sel m)
                         (filter (\<lambda>x. \<not> tiesChosen m sel x) (fourLeast (s_frontier s) sel m)))
                 \<and> s_whyNot s
                     = Some (take (4 - tiesAmongLeast (s_frontier s) sel m)
                               (whyNotSpec (s_frontier s) sel m))
              else s_whyNot s = None)"
    if "s \<in> set (v_steps w)" "s_phase s = Select" for s
  proof -
    from ok that have "selectOK r s" by blast
    from selectOK_whyNot[OF this] obtain sel where sel: "s_selected s = Some sel"
      and wn: "if r_fk r = minheap then s_whyNot s = Some (compareWhyNot (s_frontier s) sel m)
               else s_whyNot s = None"
      unfolding alg m_def by (elim exE conjE)
    show ?thesis
    proof (cases "frontierKindFor (algorithm opts) = minheap")
      case True
      then have "s_whyNot s = Some (compareWhyNot (s_frontier s) sel m)" using wn fk by simp
      then show ?thesis
        using sel True compareWhyNot_fourLeast[of "s_frontier s" sel m]
          compareWhyNot_prefix[of "s_frontier s" sel m]
        by (intro exI[of _ sel]) simp
    next
      case False
      then show ?thesis using sel wn fk by (intro exI[of _ sel]) simp
    qed
  qed
  then have "\<forall>s \<in> set (t_steps (traceOf r w)). s_phase s = Select \<longrightarrow>
       (\<exists>sel. s_selected s = Some sel
          \<and> (if frontierKindFor (algorithm opts) = minheap
              then s_whyNot s
                     = Some (map (rejectionOf sel m)
                         (filter (\<lambda>x. \<not> tiesChosen m sel x) (fourLeast (s_frontier s) sel m)))
                 \<and> s_whyNot s
                     = Some (take (4 - tiesAmongLeast (s_frontier s) sel m)
                               (whyNotSpec (s_frontier s) sel m))
              else s_whyNot s = None))"
    by simp
  with bt have "\<exists>t. buildTrace env startKey goalKey opts = Some t
            \<and> (\<forall>s \<in> set (t_steps t). s_phase s = Select \<longrightarrow>
                  (\<exists>sel. s_selected s = Some sel
                     \<and> (if frontierKindFor (algorithm opts) = minheap
                         then s_whyNot s
                                = Some (map (rejectionOf sel m)
                                    (filter (\<lambda>x. \<not> tiesChosen m sel x) (fourLeast (s_frontier s) sel m)))
                            \<and> s_whyNot s
                                = Some (take (4 - tiesAmongLeast (s_frontier s) sel m)
                                          (whyNotSpec (s_frontier s) sel m))
                         else s_whyNot s = None)))"
    by (intro exI[of _ "traceOf r w"] conjI)
  then show ?thesis
    using compareWhyNot_fourLeast[of frontier chosenItem m0] compareWhyNot_prefix[of frontier chosenItem m0]
    by (intro conjI)
qed


theorem whyNot_lists_witness:
  "(\<exists>t s sel. buildTrace tieEnv ''S'' ''A'' (exampleOpts dijkstra) = Some t
       \<and> s \<in> set (t_steps t) \<and> s_phase s = Select \<and> s_selected s = Some sel
       \<and> frontierKindFor (algorithm (exampleOpts dijkstra)) = minheap
       \<and> tiesAmongLeast (s_frontier s) sel metric_g = 1
       \<and> s_whyNot s = Some (take 3 (whyNotSpec (s_frontier s) sel metric_g))
       \<and> map_option (map (fi_key \<circ> candidate)) (s_whyNot s) = Some [''C'', ''D'', ''E''])
   \<and> (\<exists>t s. buildTrace tieEnv ''S'' ''S'' (exampleOpts bfs) = Some t
       \<and> s \<in> set (t_steps t) \<and> s_phase s = Select
       \<and> frontierKindFor (algorithm (exampleOpts bfs)) = queue
       \<and> s_whyNot s = None)"
proof -
  have A: "\<exists>t s sel. buildTrace tieEnv ''S'' ''A'' (exampleOpts dijkstra) = Some t
       \<and> s \<in> set (t_steps t) \<and> s_phase s = Select \<and> s_selected s = Some sel
       \<and> frontierKindFor (algorithm (exampleOpts dijkstra)) = minheap
       \<and> tiesAmongLeast (s_frontier s) sel metric_g = 1
       \<and> s_whyNot s = Some (take 3 (whyNotSpec (s_frontier s) sel metric_g))
       \<and> map_option (map (fi_key \<circ> candidate)) (s_whyNot s) = Some [''C'', ''D'', ''E'']"
  proof -
    note inst = whyNot_lists[where env = tieEnv and startKey = "''S''" and goalKey = "''A''"
        and opts = "exampleOpts dijkstra" and frontier = "[]" and chosenItem = "tieItem ''A'' 1"
        and ?m0.0 = metric_g]
    from inst obtain t where t: "buildTrace tieEnv ''S'' ''A'' (exampleOpts dijkstra) = Some t"
      and all: "\<forall>s \<in> set (t_steps t). s_phase s = Select \<longrightarrow>
                  (\<exists>sel. s_selected s = Some sel
                     \<and> (if frontierKindFor (algorithm (exampleOpts dijkstra)) = minheap
                         then s_whyNot s
                                = Some (map (rejectionOf sel (if algorithm (exampleOpts dijkstra) = dijkstra then metric_g else metric_f))
                                    (filter (\<lambda>x. \<not> tiesChosen (if algorithm (exampleOpts dijkstra) = dijkstra then metric_g else metric_f) sel x)
                                      (fourLeast (s_frontier s) sel (if algorithm (exampleOpts dijkstra) = dijkstra then metric_g else metric_f))))
                            \<and> s_whyNot s
                                = Some (take (4 - tiesAmongLeast (s_frontier s) sel (if algorithm (exampleOpts dijkstra) = dijkstra then metric_g else metric_f))
                                          (whyNotSpec (s_frontier s) sel (if algorithm (exampleOpts dijkstra) = dijkstra then metric_g else metric_f)))
                         else s_whyNot s = None))"
      by (elim exE conjE)
    from tie_trace t obtain s where
      s: "s \<in> set (t_steps t)" "s_phase s = Select" "s_selected s = Some (tieItem ''A'' 1)"
      and fr: "s_frontier s = [tieItem ''B'' 1, tieItem ''D'' 3, tieItem ''C'' 2, tieItem ''F'' 5, tieItem ''E'' 4]"
      and wn: "s_whyNot s = Some (map (rejectionOf (tieItem ''A'' 1) metric_g)
                             [tieItem ''C'' 2, tieItem ''D'' 3, tieItem ''E'' 4])"
      by auto
    have fk: "frontierKindFor (algorithm (exampleOpts dijkstra)) = minheap"
      and al: "algorithm (exampleOpts dijkstra) = dijkstra"
      by (simp_all add: exampleOpts_def)
    have ties: "tiesAmongLeast (s_frontier s) (tieItem ''A'' 1) metric_g = 1"
      by (simp add: fr tiesAmongLeast_def fourLeast_def otherItems_def tiesChosen_def itemOf_def metricValue_def)
    from all s(1,2) obtain sel where "s_selected s = Some sel"
      and w: "s_whyNot s = Some (take (4 - tiesAmongLeast (s_frontier s) sel metric_g)
                                          (whyNotSpec (s_frontier s) sel metric_g))"
      unfolding fk al by auto
    then have sel: "sel = tieItem ''A'' 1" using s(3) by simp
    have w3: "s_whyNot s = Some (take 3 (whyNotSpec (s_frontier s) (tieItem ''A'' 1) metric_g))"
      using w unfolding sel ties by simp
    have keys: "map_option (map (fi_key \<circ> candidate)) (s_whyNot s) = Some [''C'', ''D'', ''E'']"
      by (simp add: wn rejectionOf_def itemOf_def)
    show ?thesis
      using t s fk ties w3 keys
      by (intro exI[of _ t] exI[of _ s] exI[of _ "tieItem ''A'' 1"] conjI)
  qed
  have B: "\<exists>t s. buildTrace tieEnv ''S'' ''S'' (exampleOpts bfs) = Some t
       \<and> s \<in> set (t_steps t) \<and> s_phase s = Select
       \<and> frontierKindFor (algorithm (exampleOpts bfs)) = queue
       \<and> s_whyNot s = None"
  proof -
    note inst = whyNot_lists[where env = tieEnv and startKey = "''S''" and goalKey = "''S''"
        and opts = "exampleOpts bfs" and frontier = "[]" and chosenItem = "tieItem ''A'' 1"
        and ?m0.0 = metric_g]
    have fk: "frontierKindFor (algorithm (exampleOpts bfs)) = queue"
      by (simp add: exampleOpts_def)
    from inst obtain t where t: "buildTrace tieEnv ''S'' ''S'' (exampleOpts bfs) = Some t"
      and all: "\<forall>s \<in> set (t_steps t). s_phase s = Select \<longrightarrow>
                  (\<exists>sel. s_selected s = Some sel \<and> s_whyNot s = None)"
      unfolding fk by auto
    from immediate_find_run[of tieEnv "''S''" "exampleOpts bfs"] t
    have ph: "map s_phase (t_steps t) = [Init, Select, Found]" by auto
    have len: "1 < length (t_steps t)" and p1: "s_phase (t_steps t ! 1) = Select"
      using map_eq_nthD[OF ph, of 1] by simp_all
    have mem: "t_steps t ! 1 \<in> set (t_steps t)" using len by simp
    from all mem p1 have "s_whyNot (t_steps t ! 1) = None" by blast
    then show ?thesis
      using t mem p1 fk by (intro exI[of _ t] exI[of _ "t_steps t ! 1"] conjI)
  qed
  show ?thesis using A B by (rule conjI)
qed

subsection \<open>C6: the iteration cap\<close>

text \<open>
  Claim C6. With \<open>sizeBasis\<close> the cell count \<open>width * height\<close> of a grid environment and the
  node count of a graph environment, and \<open>cap = max 100 (min (sizeBasis * 20) 10000)\<close>,
  every run returns; the final value of its counter \<^verbatim>\<open>iterations\<close> is at most \<open>cap + 1\<close>,
  and it has at most \<open>cap\<close> snapshots of phase \<open>select\<close>, one for each iteration that got
  as far as selecting. When the counter exceeds the cap, the last snapshot is the only
  one of phase \<open>exhausted\<close>, it carries the warning text and no current key, and nothing
  was found; otherwise no snapshot is of phase \<open>exhausted\<close>.
\<close>

theorem iteration_cap:
  fixes env :: Environment and startKey goalKey :: string and opts :: RunOptions
  defines "r \<equiv> runOf env startKey goalKey opts"
  defines "sizeBasis \<equiv> (if kind env = kind_grid then width (grid env) * height (grid env)
                          else int (length (nodes (graph env))))"
  defines "cap \<equiv> max 100 (min (sizeBasis * 20) 10000)"
  shows "\<exists>iterations w.
           runLoop r = Some (iterations, w)
         \<and> buildTrace env startKey goalKey opts = Some (traceOf r w)
         \<and> int iterations \<le> cap + 1
         \<and> int (selectsOf (v_steps w)) \<le> cap
         \<and> (cap < int iterations \<longrightarrow>
               (\<exists>sts e. v_steps w = sts @ [e] \<and> s_phase e = Exhausted
                   \<and> s_warnings e = Some [capWarning] \<and> s_currentKey e = None
                   \<and> (\<forall>s \<in> set sts. s_phase s \<noteq> Exhausted \<and> s_phase s \<noteq> Found)
                   \<and> \<not> t_found (traceOf r w)))
         \<and> (int iterations \<le> cap \<longrightarrow> (\<forall>s \<in> set (v_steps w). s_phase s \<noteq> Exhausted))"
proof -
  have cap: "maxIterations r = cap"
    unfolding r_def cap_def sizeBasis_def by (rule maxIterations_runOf)
  from buildTrace_runLoop[of env startKey goalKey opts] obtain n w where
    rl: "runLoop r = Some (n, w)"
    and bt: "buildTrace env startKey goalKey opts = Some (traceOf r w)"
    unfolding r_def by (elim exE conjE)
  note F = runLoop_facts[OF rl, unfolded cap]
  have ex: "\<exists>sts e. v_steps w = sts @ [e] \<and> s_phase e = Exhausted
                   \<and> s_warnings e = Some [capWarning] \<and> s_currentKey e = None
                   \<and> (\<forall>s \<in> set sts. s_phase s \<noteq> Exhausted \<and> s_phase s \<noteq> Found)
                   \<and> \<not> t_found (traceOf r w)" if "cap < int n"
  proof -
    from F(5)[OF that] obtain v' where w: "w = exhaustedStep r v'" and inv: "stepsInv r v'" by blast
    let ?e = "snapshotOf (r_fk r) ((partialOf Exhausted None)\<lparr>p_warnings := Some [capWarning]\<rparr>) v'"
    have nf: "\<forall>s \<in> set (v_steps v'). s_phase s \<noteq> Exhausted \<and> s_phase s \<noteq> Found"
      using inv by (simp add: stepsInv_def)
    have "v_steps w = v_steps v' @ [?e]" by (simp add: w exhaustedStep_steps)
    moreover have "s_phase ?e = Exhausted" "s_warnings ?e = Some [capWarning]" "s_currentKey ?e = None"
      by simp_all
    moreover have "\<not> t_found (traceOf r w)"
      using nf by (simp add: traceOf_found w exhaustedStep_steps)
    ultimately show ?thesis using nf by blast
  qed
  show ?thesis
    using rl bt F(3,4,6) ex by (intro exI[of _ n] exI[of _ w]) simp
qed


theorem iteration_cap_witness:
  "(\<exists>w sts e. runLoop (runOf chainEnv ''a'' ''z'' chainOpts) = Some (101, w)
        \<and> v_steps w = sts @ [e] \<and> s_phase e = Exhausted \<and> s_warnings e = Some [capWarning])
   \<and> (\<exists>w. runLoop (runOf exampleEnv ''A'' ''B'' (exampleOpts dijkstra)) = Some (2, w)
        \<and> (\<forall>s \<in> set (v_steps w). s_phase s \<noteq> Exhausted))"
proof -
  have capc: "max 100 (min ((if kind chainEnv = kind_grid then width (grid chainEnv) * height (grid chainEnv)
                    else int (length (nodes (graph chainEnv)))) * 20) 10000) = 100"
    by (simp add: chainEnv_def chainGraph_def)
  have cape: "max 100 (min ((if kind exampleEnv = kind_grid then width (grid exampleEnv) * height (grid exampleEnv)
                    else int (length (nodes (graph exampleEnv)))) * 20) 10000) = 100"
    by (simp add: exampleEnv_def exampleGraph_def)
  from chain_runLoop obtain w1 where w1: "runLoop (runOf chainEnv ''a'' ''z'' chainOpts) = Some (101, w1)"
    unfolding chainRun_def by (elim exE)
  from example_loop obtain w2 where w2: "runLoop (runOf exampleEnv ''A'' ''B'' (exampleOpts dijkstra)) = Some (2, w2)"
    unfolding exRun_def by (elim exE conjE)
  have "\<exists>sts e. v_steps w1 = sts @ [e] \<and> s_phase e = Exhausted \<and> s_warnings e = Some [capWarning]"
    using iteration_cap[of chainEnv "''a''" "''z''" chainOpts] unfolding capc w1 by auto
  moreover have "\<forall>s \<in> set (v_steps w2). s_phase s \<noteq> Exhausted"
    using iteration_cap[of exampleEnv "''A''" "''B''" "exampleOpts dijkstra"] unfolding cape w2 by auto
  ultimately show ?thesis using w1 w2 by blast
qed

subsection \<open>C7: snapshots are independent copies\<close>

text \<open>
  Claim C7. Take any memory \<open>m\<close> that a run reaches, holding the working values \<open>v\<close>, and
  the snapshot \<open>s\<close> that \<^verbatim>\<open>pushStep\<close> emits there. In every memory \<open>m'\<close> reached later, by
  any number of further writes and further snapshots, \<open>s\<close> is still the snapshot at its
  index; its five objects are none of the working objects and none of an earlier
  snapshot's; and they hold the frontier, the visited set, the closed set, the parent
  map and the cost map that the snapshot recorded, those of \<open>v\<close>.
\<close>

theorem snapshots_are_independent:
  fixes W :: WorkingRefs and fk :: FrontierKind and m0 m m' :: EngineMem and v :: Locals
    and p :: StepPartial
  assumes "memOK W m0" and "(memStep W fk)\<^sup>*\<^sup>* m0 m" and "holds W m v"
    and "(memStep W fk)\<^sup>*\<^sup>* (pushStepMem W fk m) m'"
  defines "s \<equiv> last (emitted (pushStepMem W fk m))"
  shows "length (emitted m) < length (emitted m') \<and> emitted m' ! length (emitted m) = s
       \<and> refsOf s \<inter> workingAddrs W = {}
       \<and> (\<forall>t \<in> set (emitted m). refsOf t \<inter> refsOf s = {})
       \<and> cells m' (ref_frontier s) = ItemArray (s_frontier (snapshotOf fk p v))
       \<and> cells m' (ref_visited s) = KeySet (s_visited (snapshotOf fk p v))
       \<and> cells m' (ref_closed s) = KeySet (s_closed (snapshotOf fk p v))
       \<and> cells m' (ref_cameFrom s) = ParentMap (s_cameFrom (snapshotOf fk p v))
       \<and> cells m' (ref_gScore s) = CostMap (s_gScore (snapshotOf fk p v))"
proof -
  have ok: "memOK W m" using memSteps_frame[OF assms(2,1)] by simp
  note P = pushStepMem_facts[OF ok, of fk, folded s_def]
  from memSteps_frame[OF assms(4) P(1)] obtain new where
    em: "emitted m' = emitted (pushStepMem W fk m) @ new"
    and fr: "\<forall>a. a < nextFree (pushStepMem W fk m) \<and> a \<notin> workingAddrs W
               \<longrightarrow> cells m' a = cells (pushStepMem W fk m) a"
    by blast
  have keep: "cells m' a = cells (pushStepMem W fk m) a" if "a \<in> refsOf s" for a
    using fr P(3,5) that by auto
  have em': "emitted m' = emitted m @ s # new" using em P(2) by simp
  have 1: "length (emitted m) < length (emitted m')" "emitted m' ! length (emitted m) = s"
    by (simp_all add: em')
  have 2: "cells m' (ref_frontier s) = ItemArray (s_frontier (snapshotOf fk p v))"
    using keep[of "ref_frontier s"] P(6) frontierCopy_holds[OF assms(3)] by (simp add: refsOf_def)
  have 3: "cells m' (ref_visited s) = KeySet (s_visited (snapshotOf fk p v))"
    using keep[of "ref_visited s"] P(7) assms(3) by (simp add: refsOf_def holds_def)
  have 4: "cells m' (ref_closed s) = KeySet (s_closed (snapshotOf fk p v))"
    using keep[of "ref_closed s"] P(8) assms(3) by (simp add: refsOf_def holds_def)
  have 5: "cells m' (ref_cameFrom s) = ParentMap (s_cameFrom (snapshotOf fk p v))"
    using keep[of "ref_cameFrom s"] P(9) assms(3) by (simp add: refsOf_def holds_def)
  have 6: "cells m' (ref_gScore s) = CostMap (s_gScore (snapshotOf fk p v))"
    using keep[of "ref_gScore s"] P(10) assms(3) by (simp add: refsOf_def holds_def)
  show ?thesis using 1 2 3 4 5 6 P(3,4) by (intro conjI)
qed


definition exampleRefs :: WorkingRefs where
  "exampleRefs = \<lparr>w_visited = 0, w_closed = 1, w_cameFrom = 2, w_gScore = 3, w_queue = 4,
                   w_stack = 5, w_heapArr = 6\<rparr>"

definition exampleLocals :: Locals where
  "exampleLocals =
     \<lparr>v_visited = {''A''}, v_closed = {}, v_cameFrom = Map.empty, v_gScore = [''A'' \<mapsto> 0],
      v_steps = [], v_relaxations = 0, v_peakFrontier = 0, v_peakClosed = 0,
      v_queue = [], v_stack = [], v_heap = []\<rparr>"

definition exampleMem :: EngineMem where
  "exampleMem =
     \<lparr>cells = (\<lambda>_. KeySet {})
         (0 := KeySet {''A''}, 2 := ParentMap Map.empty, 3 := CostMap [''A'' \<mapsto> 0],
          4 := ItemArray [], 5 := ItemArray [], 6 := NodeArray []),
      nextFree = 7, emitted = []\<rparr>"

definition exampleLater :: EngineMem where
  "exampleLater =
     (pushStepMem exampleRefs queue exampleMem)
       \<lparr>cells := (cells (pushStepMem exampleRefs queue exampleMem))(1 := KeySet {''A''})\<rparr>"

theorem snapshots_are_independent_witness:
  "memOK exampleRefs exampleMem
   \<and> holds exampleRefs exampleMem exampleLocals
   \<and> (memStep exampleRefs queue)\<^sup>*\<^sup>* (pushStepMem exampleRefs queue exampleMem) exampleLater
   \<and> cells exampleLater (w_closed exampleRefs) = KeySet {''A''}
   \<and> cells exampleLater (ref_closed (last (emitted (pushStepMem exampleRefs queue exampleMem))))
        = KeySet {}"
proof -
  have ok: "memOK exampleRefs exampleMem"
    by (simp add: memOK_def exampleRefs_def exampleMem_def workingAddrs_def)
  have h: "holds exampleRefs exampleMem exampleLocals"
    by (simp add: holds_def exampleRefs_def exampleMem_def exampleLocals_def)
  have c: "cells (pushStepMem exampleRefs queue exampleMem) (w_closed exampleRefs) = KeySet {}"
    by (simp add: pushStepMem_def Let_def exampleRefs_def exampleMem_def)
  have st: "memStep exampleRefs queue (pushStepMem exampleRefs queue exampleMem) exampleLater"
    using memStep.closed_add[OF c, of queue "''A''"] by (simp add: exampleLater_def exampleRefs_def)
  then have sts: "(memStep exampleRefs queue)\<^sup>*\<^sup>* (pushStepMem exampleRefs queue exampleMem) exampleLater"
    by (rule r_into_rtranclp)
  have w: "cells exampleLater (w_closed exampleRefs) = KeySet {''A''}"
    by (simp add: exampleLater_def exampleRefs_def)
  have "cells exampleLater (ref_closed (last (emitted (pushStepMem exampleRefs queue exampleMem))))
          = KeySet (s_closed (snapshotOf queue (partialOf Init None) exampleLocals))"
    using snapshots_are_independent[OF ok rtranclp.rtrancl_refl h sts, of "partialOf Init None"] by simp
  then show ?thesis using ok h sts w by (simp add: exampleLocals_def)
qed

subsection \<open>C5: A* with weight 0 and Dijkstra\<close>


subsection \<open>C3: breadth-first search finds a shortest path\<close>




end
